(* ===== verification/Prelude.thy ===== *)
theory Prelude
  imports Main "HOL-Library.Word" "HOL-Library.Multiset"
begin

section \<open>Shared vocabulary and lemmas\<close>

text \<open>
  Machine types, the relational operations the SQL statements of the repository are written
  with (\<open>WHERE\<close>, \<open>ORDER BY\<close>, \<open>LIMIT 1\<close>, \<open>UPDATE ... WHERE\<close>, unique indexes) over tables as
  lists of rows, and the propagation of errors by Rust's question-mark operator.  The order of a
  list is the physical order of the rows of a table, which SQL leaves open.
\<close>

subsection \<open>Interleavings of lists\<close>

lemma shuffles_append_right: "zs \<in> shuffles xs ys \<Longrightarrow> bs @ zs \<in> shuffles xs (bs @ ys)"
  by (induction bs) (auto intro: Cons_in_shuffles_rightI)

lemma shuffles_append:
  "zs \<in> shuffles xs ys \<Longrightarrow> zs' \<in> shuffles xs' ys' \<Longrightarrow> zs @ zs' \<in> shuffles (xs @ xs') (ys @ ys')"
proof (induction xs ys arbitrary: zs rule: shuffles.induct)
  case (1 ys)
  then show ?case by (simp add: shuffles_append_right)
next
  case (2 xs)
  have "xs @ zs' \<in> shuffles (xs @ xs') ys'"
    using shuffles_append_right [of zs' ys' xs' xs] 2 by (simp add: shuffles_commutes)
  with 2 show ?case by simp
next
  case (3 x xs y ys)
  from "3.prems"(1) show ?case
    by (rule shufflesE) (use 3 in \<open>auto intro: Cons_in_shuffles_leftI Cons_in_shuffles_rightI\<close>)
qed

subsection \<open>Machine types\<close>

type_synonym uuid = "128 word"
type_synonym i32 = "32 word"
type_synonym i64 = "64 word"
type_synonym u32 = "32 word"
type_synonym u64 = "64 word"
type_synonym usize = "64 word"
type_synonym timestamp = int

text \<open>
  Facts about the transactions (\<open>tx_simps\<close>), preservation facts of invariants
  (\<open>preserve\<close>) and frame facts (\<open>frame\<close>) are collected by name.
\<close>

named_theorems preserve
named_theorems frame

subsection \<open>Errors\<close>

text \<open>
  The question-mark operator: an error returns at once with the state reached, a value goes on
  to the continuation.  The state is the database inside a transaction, or the whole world
  between transactions.
\<close>

definition try_bind :: "('e + 'a) \<times> 's \<Rightarrow> ('a \<Rightarrow> 's \<Rightarrow> ('e + 'b) \<times> 's) \<Rightarrow> ('e + 'b) \<times> 's" where
  "try_bind r k = (case r of (Inl e, s) \<Rightarrow> (Inl e, s) | (Inr x, s) \<Rightarrow> k x s)"

lemma try_bind_simps [simp]:
  "try_bind (Inl e, s) k = (Inl e, s)"
  "try_bind (Inr x, s) k = k x s"
  by (simp_all add: try_bind_def)

lemma try_bind_Inr:
  "try_bind r k = (Inr y, t) \<longleftrightarrow> (\<exists>x s. r = (Inr x, s) \<and> k x s = (Inr y, t))"
  by (auto simp: try_bind_def split: prod.splits sum.splits)

lemma try_bind_cases:
  assumes "try_bind r k = (y, t)"
  obtains e where "r = (Inl e, t)" "y = Inl e"
  | x s where "r = (Inr x, s)" "k x s = (y, t)"
  using assms by (auto simp: try_bind_def split: prod.splits sum.splits)

subsection \<open>Queries over lists of rows\<close>

definition fetch_optional :: "'a list \<Rightarrow> 'a option" where
  "fetch_optional rows = (case rows of [] \<Rightarrow> None | r # _ \<Rightarrow> Some r)"

definition update_where :: "('a \<Rightarrow> bool) \<Rightarrow> ('a \<Rightarrow> 'a) \<Rightarrow> 'a list \<Rightarrow> 'a list" where
  "update_where P f rows = map (\<lambda>r. if P r then f r else r) rows"

definition unique_where :: "('a \<Rightarrow> 'k) \<Rightarrow> ('a \<Rightarrow> bool) \<Rightarrow> 'a list \<Rightarrow> bool" where
  "unique_where key P rows = distinct (map key (filter P rows))"

lemma fetch_optional_simps [simp]:
  "fetch_optional [] = None"
  "fetch_optional (x # xs) = Some x"
  by (simp_all add: fetch_optional_def)

lemma fetch_optional_None [simp]: "fetch_optional xs = None \<longleftrightarrow> xs = []"
  by (cases xs) simp_all

lemma fetch_optional_in_set: "fetch_optional xs = Some x \<Longrightarrow> x \<in> set xs"
  by (cases xs) simp_all

lemma fetch_optional_take [simp]: "fetch_optional (take (Suc n) xs) = fetch_optional xs"
  by (cases xs) simp_all

lemma fetch_filter_Some:
  "fetch_optional (filter P xs) = Some x \<Longrightarrow> x \<in> set xs \<and> P x"
  using fetch_optional_in_set by fastforce

lemma fetch_filter_None:
  "fetch_optional (filter P xs) = None \<longleftrightarrow> (\<forall>x\<in>set xs. \<not> P x)"
  by (simp add: filter_empty_conv)

lemma fetch_filter_exists:
  "x \<in> set xs \<Longrightarrow> P x \<Longrightarrow> \<exists>y. fetch_optional (filter P xs) = Some y"
  by (metis fetch_filter_None not_None_eq)

text \<open>A lookup by primary key finds the one row with this key.\<close>

lemma distinct_key_eq:
  "distinct (map key xs) \<Longrightarrow> x \<in> set xs \<Longrightarrow> y \<in> set xs \<Longrightarrow> key x = key y \<Longrightarrow> x = y"
  by (auto simp: distinct_map inj_on_def)

lemma fetch_by_key:
  assumes "distinct (map key xs)" and "x \<in> set xs"
  shows "fetch_optional (filter (\<lambda>y. key y = key x) xs) = Some x"
proof -
  obtain y where y: "fetch_optional (filter (\<lambda>y. key y = key x) xs) = Some y"
    using fetch_filter_exists [of x xs "\<lambda>y. key y = key x"] assms(2) by auto
  with fetch_filter_Some [OF y] assms distinct_key_eq [of key xs y x] show ?thesis by simp
qed

subsection \<open>Ordered selection\<close>

lemma sort_key_hd_min:
  assumes "fetch_optional (sort_key k xs) = Some x"
  shows "x \<in> set xs" and "\<forall>y\<in>set xs. k x \<le> k y"
proof -
  obtain ys where ys: "sort_key k xs = x # ys"
    using assms by (cases "sort_key k xs") auto
  have "set (x # ys) = set xs" using ys by (metis set_sort)
  then show "x \<in> set xs" by auto
  have "sorted (map k (x # ys))" using ys by (metis sorted_sort_key)
  with \<open>set (x # ys) = set xs\<close> show "\<forall>y\<in>set xs. k x \<le> k y" by auto
qed

lemma sort_key_fetch_None:
  "fetch_optional (sort_key k xs) = None \<longleftrightarrow> xs = []"
  by (metis fetch_optional_None set_empty set_sort)

subsection \<open>Updates\<close>

lemma set_update_where: "set (update_where P f xs) = (\<lambda>r. if P r then f r else r) ` set xs"
  by (simp add: update_where_def)

lemma in_update_where:
  "y \<in> set (update_where P f xs) \<longleftrightarrow> (\<exists>x\<in>set xs. y = (if P x then f x else x))"
  by (auto simp: set_update_where)

text \<open>One column of an updated row, together with its key.\<close>

lemma update_where_fields:
  assumes "y \<in> set (update_where P f xs)" and "\<And>x. key (f x) = key x"
  obtains x where "x \<in> set xs" "key y = key x" "g y = (if P x then g (f x) else g x)"
proof -
  obtain x where "x \<in> set xs" "y = (if P x then f x else x)"
    using assms(1) by (auto simp: in_update_where)
  with assms(2) that [of x] show thesis by simp
qed

lemma map_update_where:
  "(\<And>r. key (f r) = key r) \<Longrightarrow> map key (update_where P f xs) = map key xs"
  by (simp add: update_where_def)

lemma update_where_none: "\<forall>x\<in>set xs. \<not> P x \<Longrightarrow> update_where P f xs = xs"
  by (simp add: update_where_def map_idI)

lemma update_where_eq:
  "(\<And>x. x \<in> set xs \<Longrightarrow> P x \<longleftrightarrow> Q x) \<Longrightarrow> update_where P f xs = update_where Q f xs"
  by (simp add: update_where_def)

lemma image_update_where:
  "(\<And>r. key (f r) = key r) \<Longrightarrow> key ` set (update_where P f xs) = key ` set xs"
  by (metis map_update_where list.set_map)

lemma length_update_where [simp]: "length (update_where P f xs) = length xs"
  by (simp add: update_where_def)

subsection \<open>Unique indexes\<close>

lemma unique_where_iff:
  assumes "distinct (map pk xs)"
  shows "unique_where key P xs \<longleftrightarrow>
    (\<forall>x\<in>set xs. \<forall>y\<in>set xs. P x \<longrightarrow> P y \<longrightarrow> key x = key y \<longrightarrow> x = y)"
proof -
  have "distinct xs" using assms by (simp add: distinct_map)
  then show ?thesis by (auto simp: unique_where_def distinct_map inj_on_def)
qed

lemma unique_where_append:
  "unique_where key P (xs @ [x]) \<longleftrightarrow>
    unique_where key P xs \<and> (P x \<longrightarrow> key x \<notin> key ` {y \<in> set xs. P y})"
  by (auto simp: unique_where_def)

text \<open>An update that keeps the key and never makes a row enter the index keeps it unique.\<close>

lemma unique_where_update:
  assumes "\<And>x. P x \<Longrightarrow> key (f x) = key x" and "\<And>x. P x \<Longrightarrow> Q (f x) \<Longrightarrow> Q x"
    and "unique_where key Q xs"
  shows "unique_where key Q (update_where P f xs)"
  using assms(3)
proof (induction xs)
  case Nil
  then show ?case by (simp add: unique_where_def update_where_def)
next
  case (Cons x xs)
  have "key ` set (filter Q (update_where P f xs)) \<subseteq> key ` set (filter Q xs)"
    using assms(1,2) by (force simp: set_update_where)
  with Cons show ?case
    using assms(1,2) [of x] by (auto simp: unique_where_def update_where_def split: if_splits)
qed

lemma unique_where_perm:
  "mset xs = mset ys \<Longrightarrow> unique_where key P xs \<longleftrightarrow> unique_where key P ys"
  by (metis unique_where_def mset_eq_imp_distinct_iff mset_filter mset_map)

lemma distinct_map_perm:
  "mset xs = mset ys \<Longrightarrow> distinct (map key xs) \<longleftrightarrow> distinct (map key ys)"
  by (metis mset_eq_imp_distinct_iff mset_map)

end
