(* ===== verification/App_Error.thy ===== *)
theory App_Error
  imports Prelude
begin

section \<open>Errors (crates/common/src/error.rs)\<close>

text \<open>
  \<open>AppError\<close> with its three variants and its conversion to a gRPC status.  \<open>sqlx_error\<close> lists
  the database failures the code can meet: a missing row, a violated constraint of the schema,
  and a failed connection.  A Rust panic is kept apart from an \<open>Err\<close> value: \<open>failure\<close> is either.
\<close>

datatype sqlx_error =
    Row_not_found
  | Check_violation string
  | Unique_violation string
  | Foreign_key_violation string
  | Io_error

datatype app_error =
    Database sqlx_error
  | InvalidEnumValue string
  | NotFound string

datatype failure =
    Failed app_error
  | Panicked string

text \<open>The constructors of \<open>tonic::Status\<close> that the repository calls.\<close>

datatype grpc_status =
    Not_found_status string
  | Internal_status string
  | Invalid_argument_status string

text \<open>
  \<open>impl From<AppError> for tonic::Status\<close>.  The text of a database error is produced by the
  database driver: the parameter \<open>show_sqlx\<close>.
\<close>

fun app_error_to_status :: "(sqlx_error \<Rightarrow> string) \<Rightarrow> app_error \<Rightarrow> grpc_status" where
  "app_error_to_status show_sqlx (NotFound msg) = Not_found_status msg"
| "app_error_to_status show_sqlx (InvalidEnumValue msg) = Internal_status msg"
| "app_error_to_status show_sqlx (Database e) =
     Internal_status (''database error: '' @ show_sqlx e)"

definition fetch_one :: "'a list \<Rightarrow> sqlx_error + 'a" where
  "fetch_one rows = (case rows of [] \<Rightarrow> Inl Row_not_found | r # _ \<Rightarrow> Inr r)"

lemma fetch_one_simps [simp]:
  "fetch_one [] = Inl Row_not_found"
  "fetch_one (x # xs) = Inr x"
  by (simp_all add: fetch_one_def)

lemma fetch_one_Inr: "fetch_one xs = Inr x \<longleftrightarrow> fetch_optional xs = Some x"
  by (cases xs) simp_all

end
