(* ===== verification/Model.thy ===== *)
theory Model
  imports App_Error
begin

section \<open>Domain types (crates/common/src/model.rs)\<close>

text \<open>
  The enumerations of the domain with their text form in the database, their protobuf
  counterparts (proto/shelterbed.proto) and the eligibility predicate.
\<close>

subsection \<open>Unit types\<close>

datatype UnitType = General | Family | WomensOnly | MensOnly | Youth

fun UnitType_as_db_str :: "UnitType \<Rightarrow> string" where
  "UnitType_as_db_str General = ''general''"
| "UnitType_as_db_str Family = ''family''"
| "UnitType_as_db_str WomensOnly = ''womens_only''"
| "UnitType_as_db_str MensOnly = ''mens_only''"
| "UnitType_as_db_str Youth = ''youth''"

definition UnitType_from_db_str :: "string \<Rightarrow> app_error + UnitType" where
  "UnitType_from_db_str s =
     (if s = ''general'' then Inr General
      else if s = ''family'' then Inr Family
      else if s = ''womens_only'' then Inr WomensOnly
      else if s = ''mens_only'' then Inr MensOnly
      else if s = ''youth'' then Inr Youth
      else Inl (InvalidEnumValue (''unit_type='' @ s)))"

datatype proto_UnitType =
    UNIT_TYPE_UNSPECIFIED | Proto_GENERAL | Proto_FAMILY | Proto_WOMENS_ONLY | Proto_MENS_ONLY
  | Proto_YOUTH

fun UnitType_from_proto :: "proto_UnitType \<Rightarrow> UnitType" where
  "UnitType_from_proto Proto_FAMILY = Family"
| "UnitType_from_proto Proto_WOMENS_ONLY = WomensOnly"
| "UnitType_from_proto Proto_MENS_ONLY = MensOnly"
| "UnitType_from_proto Proto_YOUTH = Youth"
| "UnitType_from_proto Proto_GENERAL = General"
| "UnitType_from_proto UNIT_TYPE_UNSPECIFIED = General"

fun UnitType_to_proto :: "UnitType \<Rightarrow> proto_UnitType" where
  "UnitType_to_proto General = Proto_GENERAL"
| "UnitType_to_proto Family = Proto_FAMILY"
| "UnitType_to_proto WomensOnly = Proto_WOMENS_ONLY"
| "UnitType_to_proto MensOnly = Proto_MENS_ONLY"
| "UnitType_to_proto Youth = Proto_YOUTH"

subsection \<open>Bed statuses\<close>

datatype BedStatus = Available | Reserved | Occupied | Maintenance

fun BedStatus_as_db_str :: "BedStatus \<Rightarrow> string" where
  "BedStatus_as_db_str Available = ''available''"
| "BedStatus_as_db_str Reserved = ''reserved''"
| "BedStatus_as_db_str Occupied = ''occupied''"
| "BedStatus_as_db_str Maintenance = ''maintenance''"

definition BedStatus_from_db_str :: "string \<Rightarrow> app_error + BedStatus" where
  "BedStatus_from_db_str s =
     (if s = ''available'' then Inr Available
      else if s = ''reserved'' then Inr Reserved
      else if s = ''occupied'' then Inr Occupied
      else if s = ''maintenance'' then Inr Maintenance
      else Inl (InvalidEnumValue (''bed_status='' @ s)))"

datatype proto_BedStatus =
    BED_STATUS_UNSPECIFIED | Proto_AVAILABLE | Proto_RESERVED | Proto_OCCUPIED
  | Proto_MAINTENANCE

fun BedStatus_from_proto :: "proto_BedStatus \<Rightarrow> BedStatus" where
  "BedStatus_from_proto Proto_RESERVED = Reserved"
| "BedStatus_from_proto Proto_OCCUPIED = Occupied"
| "BedStatus_from_proto Proto_MAINTENANCE = Maintenance"
| "BedStatus_from_proto Proto_AVAILABLE = Available"
| "BedStatus_from_proto BED_STATUS_UNSPECIFIED = Available"

fun BedStatus_to_proto :: "BedStatus \<Rightarrow> proto_BedStatus" where
  "BedStatus_to_proto Available = Proto_AVAILABLE"
| "BedStatus_to_proto Reserved = Proto_RESERVED"
| "BedStatus_to_proto Occupied = Proto_OCCUPIED"
| "BedStatus_to_proto Maintenance = Proto_MAINTENANCE"

subsection \<open>Referral statuses\<close>

datatype ReferralStatus = Pending_status | Matched_status | Expired_status | Cancelled_status

fun ReferralStatus_as_db_str :: "ReferralStatus \<Rightarrow> string" where
  "ReferralStatus_as_db_str Pending_status = ''pending''"
| "ReferralStatus_as_db_str Matched_status = ''matched''"
| "ReferralStatus_as_db_str Expired_status = ''expired''"
| "ReferralStatus_as_db_str Cancelled_status = ''cancelled''"

definition ReferralStatus_from_db_str :: "string \<Rightarrow> app_error + ReferralStatus" where
  "ReferralStatus_from_db_str s =
     (if s = ''pending'' then Inr Pending_status
      else if s = ''matched'' then Inr Matched_status
      else if s = ''expired'' then Inr Expired_status
      else if s = ''cancelled'' then Inr Cancelled_status
      else Inl (InvalidEnumValue (''referral_status='' @ s)))"

datatype proto_ReferralStatus =
    REFERRAL_STATUS_UNSPECIFIED | Proto_PENDING | Proto_MATCHED | Proto_EXPIRED
  | Proto_CANCELLED

fun ReferralStatus_to_proto :: "ReferralStatus \<Rightarrow> proto_ReferralStatus" where
  "ReferralStatus_to_proto Pending_status = Proto_PENDING"
| "ReferralStatus_to_proto Matched_status = Proto_MATCHED"
| "ReferralStatus_to_proto Expired_status = Proto_EXPIRED"
| "ReferralStatus_to_proto Cancelled_status = Proto_CANCELLED"

text \<open>The numbers of the protobuf enumerations, which \<open>as i32\<close> gives.\<close>

fun proto_BedStatus_as_i32 :: "proto_BedStatus \<Rightarrow> i32" where
  "proto_BedStatus_as_i32 BED_STATUS_UNSPECIFIED = 0"
| "proto_BedStatus_as_i32 Proto_AVAILABLE = 1"
| "proto_BedStatus_as_i32 Proto_RESERVED = 2"
| "proto_BedStatus_as_i32 Proto_OCCUPIED = 3"
| "proto_BedStatus_as_i32 Proto_MAINTENANCE = 4"

fun proto_ReferralStatus_as_i32 :: "proto_ReferralStatus \<Rightarrow> i32" where
  "proto_ReferralStatus_as_i32 REFERRAL_STATUS_UNSPECIFIED = 0"
| "proto_ReferralStatus_as_i32 Proto_PENDING = 1"
| "proto_ReferralStatus_as_i32 Proto_MATCHED = 2"
| "proto_ReferralStatus_as_i32 Proto_EXPIRED = 3"
| "proto_ReferralStatus_as_i32 Proto_CANCELLED = 4"

fun proto_UnitType_as_i32 :: "proto_UnitType \<Rightarrow> i32" where
  "proto_UnitType_as_i32 UNIT_TYPE_UNSPECIFIED = 0"
| "proto_UnitType_as_i32 Proto_GENERAL = 1"
| "proto_UnitType_as_i32 Proto_FAMILY = 2"
| "proto_UnitType_as_i32 Proto_WOMENS_ONLY = 3"
| "proto_UnitType_as_i32 Proto_MENS_ONLY = 4"
| "proto_UnitType_as_i32 Proto_YOUTH = 5"

subsection \<open>Eligibility\<close>

record BedAttributes =
  unit_type :: UnitType
  allows_pets :: bool
  sobriety_required :: bool
  ada_accessible :: bool

record ReferralNeeds =
  unit_type_required :: UnitType
  needs_pet_friendly :: bool
  needs_sobriety_free :: bool
  needs_ada_accessible :: bool

definition is_eligible :: "BedAttributes \<Rightarrow> ReferralNeeds \<Rightarrow> bool" where
  "is_eligible bed referral =
     (if unit_type bed \<noteq> unit_type_required referral then False
      else if needs_pet_friendly referral \<and> \<not> allows_pets bed then False
      else if needs_sobriety_free referral \<and> sobriety_required bed then False
      else if needs_ada_accessible referral \<and> \<not> ada_accessible bed then False
      else True)"

subsection \<open>The text codecs as one interface\<close>

text \<open>
  What the rest of the code relies on about \<open>as_db_str\<close> and \<open>from_db_str\<close>: decoding is the
  inverse of encoding, and every other text is an error that carries that text.
\<close>

locale text_codec =
  fixes to_str :: "'a \<Rightarrow> string" and of_str :: "string \<Rightarrow> app_error + 'a" and tag :: string
  assumes of_to: "of_str (to_str x) = Inr x"
    and of_str_other: "s \<notin> range to_str \<Longrightarrow> of_str s = Inl (InvalidEnumValue (tag @ s))"
begin

lemma to_str_inject: "to_str x = to_str y \<longleftrightarrow> x = y"
  by (metis of_to sum.inject(2))

lemma of_str_Inr: "of_str s = Inr x \<longleftrightarrow> s = to_str x"
proof
  assume s: "of_str s = Inr x"
  then obtain y where "s = to_str y"
    using of_str_other by (metis Inl_Inr_False rangeE)
  with s show "s = to_str x" by (simp add: of_to)
qed (simp add: of_to)

lemma of_str_total: "of_str s = Inl (InvalidEnumValue (tag @ s)) \<or> (\<exists>x. s = to_str x \<and> of_str s = Inr x)"
  by (metis of_str_other of_to rangeE)

end

interpretation unit_codec:
  text_codec UnitType_as_db_str UnitType_from_db_str "''unit_type=''"
proof
  fix x show "UnitType_from_db_str (UnitType_as_db_str x) = Inr x"
    by (cases x) (simp_all add: UnitType_from_db_str_def)
next
  fix s assume "s \<notin> range UnitType_as_db_str"
  then have "\<forall>x. s \<noteq> UnitType_as_db_str x" by blast
  from this [THEN spec, of General] this [THEN spec, of Family] this [THEN spec, of WomensOnly]
    this [THEN spec, of MensOnly] this [THEN spec, of Youth]
  show "UnitType_from_db_str s = Inl (InvalidEnumValue (''unit_type='' @ s))"
    by (simp add: UnitType_from_db_str_def)
qed

interpretation bed_status_codec:
  text_codec BedStatus_as_db_str BedStatus_from_db_str "''bed_status=''"
proof
  fix x show "BedStatus_from_db_str (BedStatus_as_db_str x) = Inr x"
    by (cases x) (simp_all add: BedStatus_from_db_str_def)
next
  fix s assume "s \<notin> range BedStatus_as_db_str"
  then have "\<forall>x. s \<noteq> BedStatus_as_db_str x" by blast
  from this [THEN spec, of Available] this [THEN spec, of Reserved] this [THEN spec, of Occupied]
    this [THEN spec, of Maintenance]
  show "BedStatus_from_db_str s = Inl (InvalidEnumValue (''bed_status='' @ s))"
    by (simp add: BedStatus_from_db_str_def)
qed

interpretation referral_status_codec:
  text_codec ReferralStatus_as_db_str ReferralStatus_from_db_str "''referral_status=''"
proof
  fix x show "ReferralStatus_from_db_str (ReferralStatus_as_db_str x) = Inr x"
    by (cases x) (simp_all add: ReferralStatus_from_db_str_def)
next
  fix s assume "s \<notin> range ReferralStatus_as_db_str"
  then have "\<forall>x. s \<noteq> ReferralStatus_as_db_str x" by blast
  from this [THEN spec, of Pending_status] this [THEN spec, of Matched_status]
    this [THEN spec, of Expired_status] this [THEN spec, of Cancelled_status]
  show "ReferralStatus_from_db_str s = Inl (InvalidEnumValue (''referral_status='' @ s))"
    by (simp add: ReferralStatus_from_db_str_def)
qed

lemma is_eligible_iff:
  "is_eligible bed referral \<longleftrightarrow>
     unit_type bed = unit_type_required referral \<and>
     (needs_pet_friendly referral \<longrightarrow> allows_pets bed) \<and>
     (needs_sobriety_free referral \<longrightarrow> \<not> sobriety_required bed) \<and>
     (needs_ada_accessible referral \<longrightarrow> ada_accessible bed)"
  by (simp add: is_eligible_def)

end
