(* ===== verification/Schema.thy ===== *)
theory Schema
  imports Model
begin

section \<open>The database schema (migrations/0001_init.sql)\<close>

text \<open>
  One record per table, one field per column; text columns stay text.  A database is the five
  tables.  \<open>schema_ok\<close> collects the primary keys, the CHECK constraints, the foreign keys and the
  two partial unique indexes; each insertion checks the constraints its table has, in the order
  in which they are checked there: CHECK, then the unique indexes, then the foreign keys.
\<close>

subsection \<open>Rows\<close>

record shelter_row =
  s_id :: uuid
  s_name :: string
  s_region :: string

record bed_row =
  b_id :: uuid
  b_shelter_id :: uuid
  b_unit_type :: string
  b_allows_pets :: bool
  b_sobriety_required :: bool
  b_ada_accessible :: bool
  b_status :: string
  b_last_event_sequence :: i64

record referral_row =
  r_id :: uuid
  r_caseworker_id :: string
  r_region :: string
  r_family_size :: i32
  r_unit_type_required :: string
  r_needs_pet_friendly :: bool
  r_needs_sobriety_free :: bool
  r_needs_ada_accessible :: bool
  r_vulnerability_score :: i32
  r_status :: string
  r_created_at :: timestamp

record reservation_row =
  v_id :: uuid
  v_bed_id :: uuid
  v_referral_id :: uuid
  v_reserved_at :: timestamp
  v_status :: string

record applied_event_row =
  e_event_id :: uuid
  e_bed_id :: uuid
  e_applied_at :: timestamp

record db =
  shelters :: "shelter_row list"
  beds :: "bed_row list"
  referrals :: "referral_row list"
  reservations :: "reservation_row list"
  applied_events :: "applied_event_row list"

definition empty_db :: db where
  "empty_db = \<lparr>shelters = [], beds = [], referrals = [], reservations = [], applied_events = []\<rparr>"

subsection \<open>Constraints\<close>

definition unit_type_check :: "string \<Rightarrow> bool" where
  "unit_type_check s \<longleftrightarrow>
     s \<in> set [''general'', ''family'', ''womens_only'', ''mens_only'', ''youth'']"

definition bed_status_check :: "string \<Rightarrow> bool" where
  "bed_status_check s \<longleftrightarrow> s \<in> set [''available'', ''reserved'', ''occupied'', ''maintenance'']"

definition referral_status_check :: "string \<Rightarrow> bool" where
  "referral_status_check s \<longleftrightarrow> s \<in> set [''pending'', ''matched'', ''expired'', ''cancelled'']"

definition reservation_status_check :: "string \<Rightarrow> bool" where
  "reservation_status_check s \<longleftrightarrow>
     s \<in> set [''active'', ''checked_in'', ''released'', ''cancelled'']"

definition bed_check :: "bed_row \<Rightarrow> bool" where
  "bed_check b \<longleftrightarrow> unit_type_check (b_unit_type b) \<and> bed_status_check (b_status b)"

definition referral_check :: "referral_row \<Rightarrow> bool" where
  "referral_check r \<longleftrightarrow>
     unit_type_check (r_unit_type_required r) \<and> referral_status_check (r_status r)"

text \<open>The predicate of both partial unique indexes.\<close>

definition is_active :: "reservation_row \<Rightarrow> bool" where
  "is_active v \<longleftrightarrow> v_status v = ''active''"

definition schema_ok :: "db \<Rightarrow> bool" where
  "schema_ok d \<longleftrightarrow>
     distinct (map s_id (shelters d)) \<and>
     distinct (map b_id (beds d)) \<and>
     distinct (map r_id (referrals d)) \<and>
     distinct (map v_id (reservations d)) \<and>
     distinct (map e_event_id (applied_events d)) \<and>
     (\<forall>b\<in>set (beds d). bed_check b \<and> b_shelter_id b \<in> s_id ` set (shelters d)) \<and>
     (\<forall>r\<in>set (referrals d). referral_check r) \<and>
     (\<forall>v\<in>set (reservations d). reservation_status_check (v_status v) \<and>
        v_bed_id v \<in> b_id ` set (beds d) \<and> v_referral_id v \<in> r_id ` set (referrals d)) \<and>
     unique_where v_bed_id is_active (reservations d) \<and>
     unique_where v_referral_id is_active (reservations d)"

subsection \<open>Insertions\<close>

definition insert_shelter_row :: "shelter_row \<Rightarrow> db \<Rightarrow> sqlx_error + db" where
  "insert_shelter_row s d =
     (if s_id s \<in> s_id ` set (shelters d) then Inl (Unique_violation ''shelters_pkey'')
      else Inr (d\<lparr>shelters := shelters d @ [s]\<rparr>))"

definition insert_bed_row :: "bed_row \<Rightarrow> db \<Rightarrow> sqlx_error + db" where
  "insert_bed_row b d =
     (if \<not> bed_check b then Inl (Check_violation ''beds'')
      else if b_id b \<in> b_id ` set (beds d) then Inl (Unique_violation ''beds_pkey'')
      else if b_shelter_id b \<notin> s_id ` set (shelters d)
      then Inl (Foreign_key_violation ''beds_shelter_id_fkey'')
      else Inr (d\<lparr>beds := beds d @ [b]\<rparr>))"

definition insert_referral_row :: "referral_row \<Rightarrow> db \<Rightarrow> sqlx_error + db" where
  "insert_referral_row r d =
     (if \<not> referral_check r then Inl (Check_violation ''referrals'')
      else if r_id r \<in> r_id ` set (referrals d) then Inl (Unique_violation ''referrals_pkey'')
      else Inr (d\<lparr>referrals := referrals d @ [r]\<rparr>))"

definition insert_reservation_row :: "reservation_row \<Rightarrow> db \<Rightarrow> sqlx_error + db" where
  "insert_reservation_row v d =
     (if \<not> reservation_status_check (v_status v) then Inl (Check_violation ''reservations'')
      else if v_id v \<in> v_id ` set (reservations d)
      then Inl (Unique_violation ''reservations_pkey'')
      else if \<not> unique_where v_bed_id is_active (reservations d @ [v])
      then Inl (Unique_violation ''reservations_bed_active_uq'')
      else if \<not> unique_where v_referral_id is_active (reservations d @ [v])
      then Inl (Unique_violation ''reservations_referral_active_uq'')
      else if v_bed_id v \<notin> b_id ` set (beds d)
      then Inl (Foreign_key_violation ''reservations_bed_id_fkey'')
      else if v_referral_id v \<notin> r_id ` set (referrals d)
      then Inl (Foreign_key_violation ''reservations_referral_id_fkey'')
      else Inr (d\<lparr>reservations := reservations d @ [v]\<rparr>))"

text \<open>
  \<open>INSERT INTO applied_events ... ON CONFLICT (event_id) DO NOTHING\<close>: the number of rows
  affected and the new database.
\<close>

definition insert_applied_event :: "applied_event_row \<Rightarrow> db \<Rightarrow> nat \<times> db" where
  "insert_applied_event e d =
     (if e_event_id e \<in> e_event_id ` set (applied_events d) then (0, d)
      else (1, d\<lparr>applied_events := applied_events d @ [e]\<rparr>))"

subsection \<open>Updates\<close>

definition update_beds :: "(bed_row \<Rightarrow> bool) \<Rightarrow> (bed_row \<Rightarrow> bed_row) \<Rightarrow> db \<Rightarrow> db" where
  "update_beds P f d = d\<lparr>beds := update_where P f (beds d)\<rparr>"

definition update_referrals ::
  "(referral_row \<Rightarrow> bool) \<Rightarrow> (referral_row \<Rightarrow> referral_row) \<Rightarrow> db \<Rightarrow> db" where
  "update_referrals P f d = d\<lparr>referrals := update_where P f (referrals d)\<rparr>"

definition update_reservations ::
  "(reservation_row \<Rightarrow> bool) \<Rightarrow> (reservation_row \<Rightarrow> reservation_row) \<Rightarrow> db \<Rightarrow> db" where
  "update_reservations P f d = d\<lparr>reservations := update_where P f (reservations d)\<rparr>"

lemmas table_update_defs = update_beds_def update_referrals_def update_reservations_def

subsection \<open>The order of allocation\<close>

text \<open>
  \<open>ORDER BY vulnerability_score DESC, created_at ASC\<close> as a linear order of its own: the smaller
  key is served first.
\<close>

datatype priority = Priority (score: int) (created: int)

instantiation priority :: linorder
begin

definition less_eq_priority :: "priority \<Rightarrow> priority \<Rightarrow> bool" where
  "less_eq_priority p q \<longleftrightarrow> score q < score p \<or> score p = score q \<and> created p \<le> created q"

definition less_priority :: "priority \<Rightarrow> priority \<Rightarrow> bool" where
  "less_priority p q \<longleftrightarrow> score q < score p \<or> score p = score q \<and> created p < created q"

instance
  by standard (auto simp: less_eq_priority_def less_priority_def intro: priority.expand)

end

definition order_key :: "referral_row \<Rightarrow> priority" where
  "order_key r = Priority (sint (r_vulnerability_score r)) (r_created_at r)"

lemma order_key_le:
  "order_key r \<le> order_key q \<longleftrightarrow>
     sint (r_vulnerability_score q) < sint (r_vulnerability_score r) \<or>
     sint (r_vulnerability_score r) = sint (r_vulnerability_score q) \<and>
       r_created_at r \<le> r_created_at q"
  by (simp add: order_key_def less_eq_priority_def)

subsection \<open>Laws of the constraints\<close>

lemma schema_ok_keys:
  assumes "schema_ok d"
  shows "distinct (map s_id (shelters d))" "distinct (map b_id (beds d))"
    "distinct (map r_id (referrals d))" "distinct (map v_id (reservations d))"
    "distinct (map e_event_id (applied_events d))"
  using assms by (simp_all add: schema_ok_def)

lemma schema_ok_bed:
  "schema_ok d \<Longrightarrow> b \<in> set (beds d) \<Longrightarrow> bed_check b \<and> (\<exists>s\<in>set (shelters d). s_id s = b_shelter_id b)"
  by (force simp: schema_ok_def)

lemma schema_ok_referral: "schema_ok d \<Longrightarrow> r \<in> set (referrals d) \<Longrightarrow> referral_check r"
  by (simp add: schema_ok_def)

lemma schema_ok_reservation:
  "schema_ok d \<Longrightarrow> v \<in> set (reservations d) \<Longrightarrow>
     reservation_status_check (v_status v) \<and>
     (\<exists>b\<in>set (beds d). b_id b = v_bed_id v) \<and> (\<exists>r\<in>set (referrals d). r_id r = v_referral_id v)"
  by (force simp: schema_ok_def)

lemma bed_by_id:
  "schema_ok d \<Longrightarrow> b \<in> set (beds d) \<Longrightarrow>
     fetch_optional (filter (\<lambda>x. b_id x = b_id b) (beds d)) = Some b"
  by (rule fetch_by_key) (simp_all add: schema_ok_keys)

lemma unit_type_check_range: "unit_type_check s \<longleftrightarrow> s \<in> range UnitType_as_db_str"
proof
  assume "unit_type_check s"
  then show "s \<in> range UnitType_as_db_str"
    unfolding unit_type_check_def
    by (auto intro: range_eqI [where x = General] range_eqI [where x = Family]
        range_eqI [where x = WomensOnly] range_eqI [where x = MensOnly] range_eqI [where x = Youth])
next
  assume "s \<in> range UnitType_as_db_str"
  then obtain u where "s = UnitType_as_db_str u" by blast
  then show "unit_type_check s" by (cases u) (simp_all add: unit_type_check_def)
qed

lemma unit_type_check_parses:
  "unit_type_check s \<Longrightarrow> \<exists>u. UnitType_from_db_str s = Inr u \<and> s = UnitType_as_db_str u"
  by (auto simp: unit_type_check_range unit_codec.of_to)

lemma bed_status_check_db_str [simp]: "bed_status_check (BedStatus_as_db_str st)"
  by (cases st) (simp_all add: bed_status_check_def)

lemma unit_type_check_db_str [simp]: "unit_type_check (UnitType_as_db_str u)"
  by (simp add: unit_type_check_range)

lemma insert_reservation_Inr:
  "insert_reservation_row v d = Inr d' \<Longrightarrow> d' = d\<lparr>reservations := reservations d @ [v]\<rparr>"
  by (auto simp: insert_reservation_row_def split: if_splits)

lemma insert_referral_Inr:
  "insert_referral_row r d = Inr d' \<Longrightarrow> d' = d\<lparr>referrals := referrals d @ [r]\<rparr>"
  by (auto simp: insert_referral_row_def split: if_splits)

lemma insert_reservation_schema_ok:
  "schema_ok d \<Longrightarrow> insert_reservation_row v d = Inr d' \<Longrightarrow> schema_ok d'"
  by (auto simp: insert_reservation_row_def schema_ok_def split: if_splits)

lemma insert_referral_schema_ok:
  "schema_ok d \<Longrightarrow> insert_referral_row r d = Inr d' \<Longrightarrow> schema_ok d'"
  by (auto simp: insert_referral_row_def schema_ok_def split: if_splits)

lemma insert_shelter_schema_ok:
  "schema_ok d \<Longrightarrow> insert_shelter_row s d = Inr d' \<Longrightarrow> schema_ok d'"
  by (auto simp: insert_shelter_row_def schema_ok_def split: if_splits)

lemma insert_bed_schema_ok:
  "schema_ok d \<Longrightarrow> insert_bed_row b d = Inr d' \<Longrightarrow> schema_ok d'"
  by (auto simp: insert_bed_row_def schema_ok_def split: if_splits)

lemma insert_applied_event_schema_ok:
  "schema_ok d \<Longrightarrow> insert_applied_event e d = (n, d') \<Longrightarrow> schema_ok d'"
  by (auto simp: insert_applied_event_def schema_ok_def split: if_splits)

lemma empty_db_schema_ok: "schema_ok empty_db"
  by (simp add: schema_ok_def empty_db_def unique_where_def)

end
