(* ===== verification/Session.thy ===== *)
theory Session
  imports Schema
begin

section \<open>A session and its surroundings\<close>

text \<open>
  Every access of the code to Postgres is a transaction: an explicit one (\<open>pool.begin()\<close> to
  \<open>tx.commit()\<close>) or a single statement on the pool.  Between two transactions of a session
  everything else may happen, so a session runs against a \<open>script\<close>: one \<open>move\<close> for each of its
  transactions, with what the other sessions commit before it takes effect, the updates that the
  other tasks of the same engine send on its broadcast channel meanwhile, the referral rows
  the others hold locked, whether the connection fails, and the values that the operating
  system and the server supply (a random UUID, the server's \<open>now()\<close>, the process's clock).
  What others send between an access of the session and a send of its own counts to that access:
  any order of the updates on the channel is one of these.
  All theorems about sessions quantify over scripts, that is over all interleavings at the
  granularity of transactions.
\<close>

text \<open>
  A failed connection is reported for some statement before the commit, and the dropped
  transaction is rolled back; or the acknowledgement of the commit is lost, and the transaction
  took effect although the caller sees an error.
\<close>

datatype fault = Statement_fails | Commit_unacknowledged

text \<open>\<open>BedAvailabilityUpdate\<close> (proto/shelterbed.proto).\<close>

record BedAvailabilityUpdate =
  up_shelter_id :: string
  up_bed_id :: string
  up_status :: i32
  up_available_count_in_region :: int
  up_event_timestamp_ms :: i64
  up_delivered_timestamp_ms :: i64
  up_region :: string

record move =
  mv_interfere :: "db \<Rightarrow> db"
  mv_sends :: "BedAvailabilityUpdate list"
  mv_locked :: "uuid \<Rightarrow> bool"
  mv_fault :: "fault option"
  mv_uuid :: uuid
  mv_now :: timestamp
  mv_utc_ms :: i64

type_synonym script = "nat \<Rightarrow> move"

definition quiet_move :: "uuid \<Rightarrow> timestamp \<Rightarrow> i64 \<Rightarrow> move" where
  "quiet_move u t ms = \<lparr>mv_interfere = id, mv_sends = [], mv_locked = (\<lambda>_. False), mv_fault = None,
     mv_uuid = u, mv_now = t, mv_utc_ms = ms\<rparr>"

text \<open>
  The state of the matching engine (crates/matching-engine/src/state.rs), which its tasks share:
  the pool, here the database behind it, and the broadcast channel, here the updates that any of
  them has sent so far.  \<open>pos\<close> counts the moves used.
\<close>

record AppState =
  pool :: db
  availability_tx :: "BedAvailabilityUpdate list"
  pos :: nat

type_synonym 'a tx = "db \<Rightarrow> (failure + 'a) \<times> db"

definition run_tx :: "move \<Rightarrow> 'a tx \<Rightarrow> 'a tx" where
  "run_tx m body d =
     (case mv_fault m of
        None \<Rightarrow> body d
      | Some Statement_fails \<Rightarrow> (Inl (Failed (Database Io_error)), d)
      | Some Commit_unacknowledged \<Rightarrow> (Inl (Failed (Database Io_error)), snd (body d)))"

definition exec :: "script \<Rightarrow> (move \<Rightarrow> 'a tx) \<Rightarrow> AppState \<Rightarrow> (failure + 'a) \<times> AppState" where
  "exec s q st =
     (let m = s (pos st);
          (r, d) = run_tx m (q m) (mv_interfere m (pool st))
      in (r, st\<lparr>pool := d, availability_tx := availability_tx st @ mv_sends m, pos := Suc (pos st)\<rparr>))"

text \<open>What others send on the channel from one position of a session to another.\<close>

definition sent_by_others :: "script \<Rightarrow> nat \<Rightarrow> nat \<Rightarrow> BedAvailabilityUpdate list" where
  "sent_by_others s i j = concat (map (\<lambda>k. mv_sends (s k)) [i..<j])"

lemma sent_by_others_simps [simp]:
  "sent_by_others s i i = []" "sent_by_others s i (Suc i) = mv_sends (s i)"
  by (simp_all add: sent_by_others_def)

lemma sent_by_others_append:
  assumes "i \<le> j" and "j \<le> k"
  shows "sent_by_others s i j @ sent_by_others s j k = sent_by_others s i k"
proof -
  have "[i..<k] = [i..<j] @ [j..<k]" using assms by (metis le_add_diff_inverse upt_add_eq_append)
  then show ?thesis by (simp add: sent_by_others_def)
qed

lemma sent_by_others_step:
  "sent_by_others s i (Suc (Suc i)) = mv_sends (s i) @ mv_sends (s (Suc i))"
  by (simp add: sent_by_others_def)

text \<open>The clock of the process, read between two transactions.\<close>

definition utc_now_ms :: "script \<Rightarrow> AppState \<Rightarrow> i64" where
  "utc_now_ms s st = mv_utc_ms (s (pos st))"

text \<open>The error conversions of the question-mark operator.\<close>

definition lift_sqlx :: "(sqlx_error + 'a) \<Rightarrow> 'a tx" where
  "lift_sqlx r d = (case r of Inl e \<Rightarrow> (Inl (Failed (Database e)), d) | Inr x \<Rightarrow> (Inr x, d))"

definition lift_app :: "(app_error + 'a) \<Rightarrow> 'a tx" where
  "lift_app r d = (case r of Inl e \<Rightarrow> (Inl (Failed e), d) | Inr x \<Rightarrow> (Inr x, d))"

definition lift_insert :: "(sqlx_error + db) \<Rightarrow> unit tx" where
  "lift_insert r d =
     (case r of Inl e \<Rightarrow> (Inl (Failed (Database e)), d) | Inr d' \<Rightarrow> (Inr (), d'))"

lemma lift_simps [simp]:
  "lift_sqlx (Inl e) d = (Inl (Failed (Database e)), d)" "lift_sqlx (Inr x) d = (Inr x, d)"
  "lift_app (Inl a) d = (Inl (Failed a), d)" "lift_app (Inr x) d = (Inr x, d)"
  "lift_insert (Inl e) d = (Inl (Failed (Database e)), d)" "lift_insert (Inr d') d = (Inr (), d')"
  by (simp_all add: lift_sqlx_def lift_app_def lift_insert_def)

subsection \<open>What a transaction does to the database, whatever the faults\<close>

lemma run_tx_db: "run_tx m body d = (r, d') \<Longrightarrow> d' = d \<or> d' = snd (body d)"
  by (auto simp: run_tx_def split: option.splits fault.splits)

lemma run_tx_Inr: "run_tx m body d = (Inr x, d') \<longleftrightarrow> mv_fault m = None \<and> body d = (Inr x, d')"
  by (auto simp: run_tx_def split: option.splits fault.splits)

lemma exec_Inr:
  "exec s q st = (Inr x, st') \<longleftrightarrow>
     mv_fault (s (pos st)) = None \<and>
     (\<exists>d. q (s (pos st)) (mv_interfere (s (pos st)) (pool st)) = (Inr x, d) \<and>
       st' = st\<lparr>pool := d, availability_tx := availability_tx st @ mv_sends (s (pos st)),
         pos := Suc (pos st)\<rparr>)"
  by (auto simp: exec_def run_tx_def Let_def split: prod.splits option.splits fault.splits)

lemma exec_frame [frame]:
  "exec s q st = (r, st') \<Longrightarrow> availability_tx st' = availability_tx st @ mv_sends (s (pos st))"
  "exec s q st = (r, st') \<Longrightarrow> pos st' = Suc (pos st)"
  by (auto simp: exec_def Let_def split: prod.splits)

lemma exec_pool:
  "exec s q st = (r, st') \<Longrightarrow>
     pool st' = mv_interfere (s (pos st)) (pool st) \<or>
     pool st' = snd (q (s (pos st)) (mv_interfere (s (pos st)) (pool st)))"
  using run_tx_db by (fastforce simp: exec_def Let_def split: prod.splits)

text \<open>
  A script whose faults are over and whose other sessions are idle from some move on, and a
  script under which the session runs alone.
\<close>

definition alone :: "script \<Rightarrow> bool" where
  "alone s \<longleftrightarrow> (\<forall>k. mv_interfere (s k) = id \<and> mv_sends (s k) = [] \<and> mv_fault (s k) = None \<and>
     mv_locked (s k) = (\<lambda>_. False))"

lemma alone_sends: "alone s \<Longrightarrow> sent_by_others s i j = []"
  by (simp add: alone_def sent_by_others_def)

lemma exec_alone:
  "alone s \<Longrightarrow> exec s q st =
     (case q (s (pos st)) (pool st) of (r, d) \<Rightarrow> (r, st\<lparr>pool := d, pos := Suc (pos st)\<rparr>))"
  by (cases st) (simp add: alone_def exec_def run_tx_def)

end
