(* ===== verification/Matcher.thy ===== *)
theory Matcher
  imports Session
begin

section \<open>The matcher (crates/matching-engine/src/matcher.rs)\<close>

text \<open>
  The transactions of the matcher as functions on the database (first part), and the public
  operations that run them in a session (second part).
\<close>

record AllocationResult =
  bed_id :: uuid
  shelter_id :: uuid
  referral_id :: uuid

datatype SubmitOutcome = Matched AllocationResult | Pending uuid

datatype ApplyOutcome =
    Applied (applied_shelter_id: uuid) (became_available: bool)
  | Duplicate
  | Stale
  | UnknownBed

subsection \<open>Transactions of submit_referral\<close>

definition insert_referral ::
  "uuid \<Rightarrow> string \<Rightarrow> string \<Rightarrow> ReferralNeeds \<Rightarrow> i32 \<Rightarrow> i32 \<Rightarrow> timestamp \<Rightarrow> unit tx" where
  "insert_referral referral caseworker_id region needs vulnerability_score family_size now d =
     lift_insert (insert_referral_row
       \<lparr>r_id = referral, r_caseworker_id = caseworker_id, r_region = region,
        r_family_size = family_size,
        r_unit_type_required = UnitType_as_db_str (unit_type_required needs),
        r_needs_pet_friendly = needs_pet_friendly needs,
        r_needs_sobriety_free = needs_sobriety_free needs,
        r_needs_ada_accessible = needs_ada_accessible needs,
        r_vulnerability_score = vulnerability_score,
        r_status = ''pending'', r_created_at = now\<rparr> d) d"

text \<open>\<open>beds JOIN shelters ON shelters.id = beds.shelter_id\<close>\<close>

definition beds_join_shelters :: "db \<Rightarrow> (bed_row \<times> shelter_row) list" where
  "beds_join_shelters d =
     concat (map (\<lambda>b. map (Pair b) (filter (\<lambda>s. s_id s = b_shelter_id b) (shelters d))) (beds d))"

definition candidate_filter :: "string \<Rightarrow> ReferralNeeds \<Rightarrow> bed_row \<times> shelter_row \<Rightarrow> bool" where
  "candidate_filter region needs = (\<lambda>(b, s).
     b_status b = ''available'' \<and>
     s_region s = region \<and>
     b_unit_type b = UnitType_as_db_str (unit_type_required needs) \<and>
     (b_allows_pets b = True \<or> needs_pet_friendly needs = False) \<and>
     (b_sobriety_required b = False \<or> needs_sobriety_free needs = False) \<and>
     (b_ada_accessible b = True \<or> needs_ada_accessible needs = False))"

definition candidate_bed :: "string \<Rightarrow> ReferralNeeds \<Rightarrow> uuid option tx" where
  "candidate_bed region needs d =
     (Inr (map_option (\<lambda>(b, s). b_id b)
        (fetch_optional (take 1 (sort_key (\<lambda>(b, s). b_id b)
          (filter (candidate_filter region needs) (beds_join_shelters d)))))), d)"

text \<open>\<open>status IN ('active', 'checked_in')\<close>\<close>

definition is_live :: "reservation_row \<Rightarrow> bool" where
  "is_live v \<longleftrightarrow> v_status v \<in> set [''active'', ''checked_in'']"

definition reservations_join_beds :: "db \<Rightarrow> (reservation_row \<times> bed_row) list" where
  "reservations_join_beds d =
     concat (map (\<lambda>v. map (Pair v) (filter (\<lambda>b. b_id b = v_bed_id v) (beds d))) (reservations d))"

definition final_outcome :: "uuid \<Rightarrow> SubmitOutcome tx" where
  "final_outcome referral d =
     (Inr (case fetch_optional (filter (\<lambda>(v, b). v_referral_id v = referral \<and> is_live v)
                 (reservations_join_beds d)) of
        Some (v, b) \<Rightarrow> Matched \<lparr>bed_id = v_bed_id v, shelter_id = b_shelter_id b,
                          referral_id = referral\<rparr>
      | None \<Rightarrow> Pending referral), d)"

subsection \<open>The allocation transaction\<close>

definition pending_filter :: "string \<Rightarrow> BedAttributes \<Rightarrow> referral_row \<Rightarrow> bool" where
  "pending_filter region bed_attrs r \<longleftrightarrow>
     r_region r = region \<and>
     r_status r = ''pending'' \<and>
     r_unit_type_required r = UnitType_as_db_str (unit_type bed_attrs) \<and>
     (r_needs_pet_friendly r = False \<or> allows_pets bed_attrs = True) \<and>
     (r_needs_sobriety_free r = False \<or> sobriety_required bed_attrs = False) \<and>
     (r_needs_ada_accessible r = False \<or> ada_accessible bed_attrs = True)"

text \<open>\<open>ORDER BY vulnerability_score DESC, created_at ASC FOR UPDATE SKIP LOCKED LIMIT 1\<close>\<close>

definition choose_referral ::
  "(uuid \<Rightarrow> bool) \<Rightarrow> string \<Rightarrow> BedAttributes \<Rightarrow> db \<Rightarrow> referral_row option" where
  "choose_referral locked region bed_attrs d =
     fetch_optional (take 1 (filter (\<lambda>r. \<not> locked (r_id r))
       (sort_key order_key (filter (pending_filter region bed_attrs) (referrals d)))))"

definition set_bed_status :: "uuid \<Rightarrow> string \<Rightarrow> db \<Rightarrow> db" where
  "set_bed_status bed status = update_beds (\<lambda>b. b_id b = bed) (\<lambda>b. b\<lparr>b_status := status\<rparr>)"

definition set_referral_status :: "uuid \<Rightarrow> string \<Rightarrow> db \<Rightarrow> db" where
  "set_referral_status referral status =
     update_referrals (\<lambda>r. r_id r = referral) (\<lambda>r. r\<lparr>r_status := status\<rparr>)"

definition allocate_tx :: "(uuid \<Rightarrow> bool) \<Rightarrow> uuid \<Rightarrow> timestamp \<Rightarrow> uuid \<Rightarrow> AllocationResult option tx"
where
  "allocate_tx locked reservation_id now bed d =
     (case fetch_optional (filter (\<lambda>b. b_id b = bed) (beds d)) of
        None \<Rightarrow> (Inr None, d)
      | Some b \<Rightarrow>
        if b_status b \<noteq> ''available'' then (Inr None, d)
        else try_bind (lift_sqlx (fetch_one
               (map s_region (filter (\<lambda>s. s_id s = b_shelter_id b) (shelters d)))) d) (\<lambda>region d.
          try_bind (lift_app (UnitType_from_db_str (b_unit_type b)) d) (\<lambda>unit d.
            let bed_attrs = \<lparr>unit_type = unit, allows_pets = b_allows_pets b,
                  sobriety_required = b_sobriety_required b,
                  ada_accessible = b_ada_accessible b\<rparr>
            in case choose_referral locked region bed_attrs d of
                 None \<Rightarrow> (Inr None, d)
               | Some r \<Rightarrow>
                 try_bind (lift_app (UnitType_from_db_str (r_unit_type_required r)) d) (\<lambda>required d.
                   if \<not> is_eligible bed_attrs
                        \<lparr>unit_type_required = required,
                         needs_pet_friendly = r_needs_pet_friendly r,
                         needs_sobriety_free = r_needs_sobriety_free r,
                         needs_ada_accessible = r_needs_ada_accessible r\<rparr>
                   then (Inl (Panicked ''SQL eligibility filter and is_eligible() have drifted apart''), d)
                   else try_bind (lift_insert (insert_reservation_row
                          \<lparr>v_id = reservation_id, v_bed_id = bed, v_referral_id = r_id r,
                           v_reserved_at = now, v_status = ''active''\<rparr> d) d) (\<lambda>_ d.
                     (Inr (Some \<lparr>bed_id = bed, shelter_id = b_shelter_id b,
                                 referral_id = r_id r\<rparr>),
                      set_referral_status (r_id r) ''matched''
                        (set_bed_status bed ''reserved'' d)))))))"

subsection \<open>The bed-status transaction\<close>

text \<open>
  \<open>UPDATE reservations SET status = 'released' ... RETURNING referral_id\<close> read with
  \<open>fetch_optional\<close>: all live reservations of the bed are released, the first one is returned.
\<close>

definition release_reservations :: "uuid \<Rightarrow> db \<Rightarrow> uuid option \<times> db" where
  "release_reservations bed d =
     (map_option v_referral_id
        (fetch_optional (filter (\<lambda>v. v_bed_id v = bed \<and> is_live v) (reservations d))),
      update_reservations (\<lambda>v. v_bed_id v = bed \<and> is_live v)
        (\<lambda>v. v\<lparr>v_status := ''released''\<rparr>) d)"

definition reservation_lifecycle :: "BedStatus \<Rightarrow> uuid \<Rightarrow> db \<Rightarrow> db" where
  "reservation_lifecycle new_status bed d =
     (if new_status = Occupied
      then update_reservations (\<lambda>v. v_bed_id v = bed \<and> v_status v = ''active'')
             (\<lambda>v. v\<lparr>v_status := ''checked_in''\<rparr>) d
      else if new_status \<in> set [Available, Maintenance]
      then (case release_reservations bed d of
              (Some referral, d) \<Rightarrow>
                update_referrals (\<lambda>r. r_id r = referral \<and> r_status r = ''matched'')
                  (\<lambda>r. r\<lparr>r_status := ''pending''\<rparr>) d
            | (None, d) \<Rightarrow> d)
      else d)"

definition apply_tx :: "uuid \<Rightarrow> uuid \<Rightarrow> BedStatus \<Rightarrow> i64 \<Rightarrow> timestamp \<Rightarrow> ApplyOutcome tx" where
  "apply_tx event bed new_status sequence now d =
     (let (rows_affected, d1) =
            insert_applied_event \<lparr>e_event_id = event, e_bed_id = bed, e_applied_at = now\<rparr> d
      in if rows_affected = 0 then (Inr Duplicate, d)
         else case fetch_optional (filter (\<lambda>b. b_id b = bed) (beds d1)) of
           None \<Rightarrow> (Inr UnknownBed, d)
         | Some b \<Rightarrow>
           if sint sequence \<le> sint (b_last_event_sequence b) then (Inr Stale, d)
           else
             let d2 = update_beds (\<lambda>b. b_id b = bed)
                        (\<lambda>b. b\<lparr>b_status := BedStatus_as_db_str new_status,
                               b_last_event_sequence := sequence\<rparr>) d1;
                 d3 = reservation_lifecycle new_status bed d2
             in (Inr (Applied (b_shelter_id b)
                        (new_status = Available \<and> b_status b \<noteq> ''available'')), d3))"

subsection \<open>The read-only queries\<close>

definition available_count_tx :: "string \<Rightarrow> int tx" where
  "available_count_tx region d =
     (Inr (int (length (filter (\<lambda>(b, s). s_region s = region \<and> b_status b = ''available'')
        (beds_join_shelters d)))), d)"

definition region_of_shelter_tx :: "uuid \<Rightarrow> string tx" where
  "region_of_shelter_tx shelter d =
     lift_sqlx (fetch_one (map s_region (filter (\<lambda>s. s_id s = shelter) (shelters d)))) d"

subsection \<open>The operations in a session\<close>

definition allocate_for_bed ::
  "script \<Rightarrow> uuid \<Rightarrow> AppState \<Rightarrow> (failure + AllocationResult option) \<times> AppState" where
  "allocate_for_bed s bed =
     exec s (\<lambda>m. allocate_tx (mv_locked m) (mv_uuid m) (mv_now m) bed)"

definition apply_bed_status_event ::
  "script \<Rightarrow> uuid \<Rightarrow> uuid \<Rightarrow> BedStatus \<Rightarrow> i64 \<Rightarrow> AppState \<Rightarrow> (failure + ApplyOutcome) \<times> AppState"
where
  "apply_bed_status_event s event bed new_status sequence =
     exec s (\<lambda>m. apply_tx event bed new_status sequence (mv_now m))"

definition available_count_in_region ::
  "script \<Rightarrow> string \<Rightarrow> AppState \<Rightarrow> (failure + int) \<times> AppState" where
  "available_count_in_region s region = exec s (\<lambda>_. available_count_tx region)"

definition region_of_shelter ::
  "script \<Rightarrow> uuid \<Rightarrow> AppState \<Rightarrow> (failure + string) \<times> AppState" where
  "region_of_shelter s shelter = exec s (\<lambda>_. region_of_shelter_tx shelter)"

definition resolve_final_outcome ::
  "script \<Rightarrow> uuid \<Rightarrow> AppState \<Rightarrow> (failure + SubmitOutcome) \<times> AppState" where
  "resolve_final_outcome s referral = exec s (\<lambda>_. final_outcome referral)"

text \<open>
  The search loop of \<open>submit_referral\<close>; the first argument counts the iterations left of
  \<open>for _ in 0..500\<close>.
\<close>

primrec submit_loop ::
  "nat \<Rightarrow> script \<Rightarrow> uuid \<Rightarrow> string \<Rightarrow> ReferralNeeds \<Rightarrow> AllocationResult list \<Rightarrow> AppState \<Rightarrow>
     (failure + (SubmitOutcome \<times> AllocationResult list)) \<times> AppState" where
  "submit_loop 0 s referral region needs side_allocations st =
     try_bind (resolve_final_outcome s referral st) (\<lambda>outcome st.
       (Inr (outcome, side_allocations), st))"
| "submit_loop (Suc n) s referral region needs side_allocations st =
     try_bind (exec s (\<lambda>_. candidate_bed region needs) st) (\<lambda>candidate st.
       case candidate of
         None \<Rightarrow>
           try_bind (resolve_final_outcome s referral st) (\<lambda>outcome st.
             (Inr (outcome, side_allocations), st))
       | Some bed \<Rightarrow>
           try_bind (allocate_for_bed s bed st) (\<lambda>allocation st.
             case allocation of
               Some result \<Rightarrow>
                 if referral_id result = referral
                 then (Inr (Matched result, side_allocations), st)
                 else submit_loop n s referral region needs (side_allocations @ [result]) st
             | None \<Rightarrow> submit_loop n s referral region needs side_allocations st))"

definition submit_referral ::
  "script \<Rightarrow> string \<Rightarrow> string \<Rightarrow> ReferralNeeds \<Rightarrow> i32 \<Rightarrow> i32 \<Rightarrow> AppState \<Rightarrow>
     (failure + (SubmitOutcome \<times> AllocationResult list)) \<times> AppState" where
  "submit_referral s caseworker_id region needs vulnerability_score family_size st =
     (let referral = mv_uuid (s (pos st))
      in try_bind (exec s (\<lambda>m. insert_referral referral caseworker_id region needs
                     vulnerability_score family_size (mv_now m)) st)
           (\<lambda>_ st. submit_loop 500 s referral region needs [] st))"

end
