(* ===== verification/Allocation.thy ===== *)
theory Allocation
  imports Matcher
begin

section \<open>What the allocation transaction decides\<close>

text \<open>
  The choice of the referral as a minimum over the eligible pending rows that nobody has locked,
  the agreement of the SQL filter with \<open>is_eligible\<close>, and the case analysis of the transaction
  that every later proof uses.
\<close>

definition attrs_of :: "UnitType \<Rightarrow> bed_row \<Rightarrow> BedAttributes" where
  "attrs_of u b = \<lparr>unit_type = u, allows_pets = b_allows_pets b,
     sobriety_required = b_sobriety_required b, ada_accessible = b_ada_accessible b\<rparr>"

definition needs_of :: "UnitType \<Rightarrow> referral_row \<Rightarrow> ReferralNeeds" where
  "needs_of u r = \<lparr>unit_type_required = u, needs_pet_friendly = r_needs_pet_friendly r,
     needs_sobriety_free = r_needs_sobriety_free r,
     needs_ada_accessible = r_needs_ada_accessible r\<rparr>"

lemma attrs_of_sel [simp]:
  "unit_type (attrs_of u b) = u"
  "allows_pets (attrs_of u b) = b_allows_pets b"
  "sobriety_required (attrs_of u b) = b_sobriety_required b"
  "ada_accessible (attrs_of u b) = b_ada_accessible b"
  by (simp_all add: attrs_of_def)

lemma needs_of_sel [simp]:
  "unit_type_required (needs_of u r) = u"
  "needs_pet_friendly (needs_of u r) = r_needs_pet_friendly r"
  "needs_sobriety_free (needs_of u r) = r_needs_sobriety_free r"
  "needs_ada_accessible (needs_of u r) = r_needs_ada_accessible r"
  by (simp_all add: needs_of_def)

text \<open>
  Whether a bed suits a referral, on the rows: the same region and every hard constraint.
\<close>

definition suits :: "bed_row \<Rightarrow> string \<Rightarrow> referral_row \<Rightarrow> bool" where
  "suits b region r \<longleftrightarrow>
     r_region r = region \<and> b_unit_type b = r_unit_type_required r \<and>
     (r_needs_pet_friendly r \<longrightarrow> b_allows_pets b) \<and>
     (r_needs_sobriety_free r \<longrightarrow> \<not> b_sobriety_required b) \<and>
     (r_needs_ada_accessible r \<longrightarrow> b_ada_accessible b)"

lemma pending_filter_suits:
  assumes "UnitType_from_db_str (b_unit_type b) = Inr u"
  shows "pending_filter region (attrs_of u b) r \<longleftrightarrow> r_status r = ''pending'' \<and> suits b region r"
  using assms by (auto simp: pending_filter_def suits_def unit_codec.of_str_Inr)

lemma suits_is_eligible:
  assumes "UnitType_from_db_str (b_unit_type b) = Inr u"
    and "UnitType_from_db_str (r_unit_type_required r) = Inr u'"
  shows "suits b region r \<longleftrightarrow> r_region r = region \<and> is_eligible (attrs_of u b) (needs_of u' r)"
  using assms by (auto simp: suits_def is_eligible_iff unit_codec.of_str_Inr unit_codec.to_str_inject)

subsection \<open>The chosen referral\<close>

lemma choose_referral_eq:
  "choose_referral locked region a d =
     fetch_optional (sort_key order_key
       (filter (\<lambda>r. pending_filter region a r \<and> \<not> locked (r_id r)) (referrals d)))"
  by (simp add: choose_referral_def filter_sort conj_commute)

lemma choose_referral_Some:
  assumes "choose_referral locked region a d = Some r"
  shows "r \<in> set (referrals d)" "pending_filter region a r" "\<not> locked (r_id r)"
    "\<forall>q\<in>set (referrals d). pending_filter region a q \<longrightarrow> \<not> locked (r_id q) \<longrightarrow>
       order_key r \<le> order_key q"
  using sort_key_hd_min [OF assms [unfolded choose_referral_eq]] by auto

lemma choose_referral_None:
  "choose_referral locked region a d = None \<longleftrightarrow>
     (\<forall>q\<in>set (referrals d). pending_filter region a q \<longrightarrow> locked (r_id q))"
  unfolding choose_referral_eq sort_key_fetch_None by (auto simp: filter_empty_conv)

subsection \<open>The case analysis\<close>

definition award :: "reservation_row \<Rightarrow> db \<Rightarrow> db" where
  "award v d = set_referral_status (v_referral_id v) ''matched''
     (set_bed_status (v_bed_id v) ''reserved'' (d\<lparr>reservations := reservations d @ [v]\<rparr>))"

definition new_reservation :: "uuid \<Rightarrow> uuid \<Rightarrow> uuid \<Rightarrow> timestamp \<Rightarrow> reservation_row" where
  "new_reservation reservation_id bed referral now =
     \<lparr>v_id = reservation_id, v_bed_id = bed, v_referral_id = referral,
      v_reserved_at = now, v_status = ''active''\<rparr>"

lemma new_reservation_sel [simp]:
  "v_id (new_reservation i b r t) = i" "v_bed_id (new_reservation i b r t) = b"
  "v_referral_id (new_reservation i b r t) = r" "v_status (new_reservation i b r t) = ''active''"
  "is_active (new_reservation i b r t)" "is_live (new_reservation i b r t)"
  by (simp_all add: new_reservation_def is_active_def is_live_def)

text \<open>The transaction once the bed, its shelter and its unit type are read.\<close>

lemma allocate_tx_decides:
  assumes bed: "fetch_optional (filter (\<lambda>b. b_id b = bed) (beds d)) = Some b"
    and available: "b_status b = ''available''"
    and shelter: "fetch_optional (filter (\<lambda>s. s_id s = b_shelter_id b) (shelters d)) = Some s"
    and unit: "UnitType_from_db_str (b_unit_type b) = Inr u"
  shows "allocate_tx locked i now bed d =
    (case choose_referral locked (s_region s) (attrs_of u b) d of
       None \<Rightarrow> (Inr None, d)
     | Some r \<Rightarrow>
       (case insert_reservation_row (new_reservation i bed (r_id r) now) d of
          Inl e \<Rightarrow> (Inl (Failed (Database e)), d)
        | Inr _ \<Rightarrow>
          (Inr (Some \<lparr>bed_id = bed, shelter_id = b_shelter_id b, referral_id = r_id r\<rparr>),
           award (new_reservation i bed (r_id r) now) d)))"
proof -
  obtain ss where ss: "filter (\<lambda>s. s_id s = b_shelter_id b) (shelters d) = s # ss"
    using shelter by (cases "filter (\<lambda>s. s_id s = b_shelter_id b) (shelters d)") auto
  have chosen: "UnitType_from_db_str (r_unit_type_required r) = Inr u"
    "is_eligible (attrs_of u b) (needs_of u r)"
    if "choose_referral locked (s_region s) (attrs_of u b) d = Some r" for r
    using choose_referral_Some(2) [OF that] unit
    by (auto simp: pending_filter_def unit_codec.of_str_Inr is_eligible_iff)
  show ?thesis
    unfolding allocate_tx_def attrs_of_def [symmetric] needs_of_def [symmetric]
      new_reservation_def [symmetric]
    by (auto simp: bed available ss unit Let_def chosen award_def
        split: option.split sum.split dest: insert_reservation_Inr)
qed

lemma allocate_tx_early:
  "fetch_optional (filter (\<lambda>b. b_id b = bed) (beds d)) = None \<Longrightarrow>
     allocate_tx locked i now bed d = (Inr None, d)"
  "fetch_optional (filter (\<lambda>b. b_id b = bed) (beds d)) = Some b \<Longrightarrow> b_status b \<noteq> ''available'' \<Longrightarrow>
     allocate_tx locked i now bed d = (Inr None, d)"
  by (simp_all add: allocate_tx_def)

text \<open>A shelter or a unit type that cannot be read ends the transaction with an error.\<close>

lemma allocate_tx_unreadable:
  assumes "fetch_optional (filter (\<lambda>b. b_id b = bed) (beds d)) = Some b"
    and "b_status b = ''available''"
    and "fetch_optional (filter (\<lambda>s. s_id s = b_shelter_id b) (shelters d)) = None \<or>
         UnitType_from_db_str (b_unit_type b) = Inl e"
  shows "\<exists>e. allocate_tx locked i now bed d = (Inl (Failed e), d)"
  using assms
  by (cases "filter (\<lambda>s. s_id s = b_shelter_id b) (shelters d)") (auto simp: allocate_tx_def)

lemma allocate_tx_cases:
  assumes tx: "allocate_tx locked i now bed d = (res, d')"
  obtains (error) e where "res = Inl (Failed e)" "d' = d"
  | (none) "res = Inr None" "d' = d"
  | (won) b s u r where
      "b \<in> set (beds d)" "b_id b = bed" "b_status b = ''available''"
      "s \<in> set (shelters d)" "s_id s = b_shelter_id b"
      "UnitType_from_db_str (b_unit_type b) = Inr u"
      "choose_referral locked (s_region s) (attrs_of u b) d = Some r"
      "insert_reservation_row (new_reservation i bed (r_id r) now) d =
         Inr (d\<lparr>reservations := reservations d @ [new_reservation i bed (r_id r) now]\<rparr>)"
      "res = Inr (Some \<lparr>bed_id = bed, shelter_id = b_shelter_id b, referral_id = r_id r\<rparr>)"
      "d' = award (new_reservation i bed (r_id r) now) d"
proof -
  consider (early) "allocate_tx locked i now bed d = (Inr None, d)"
    | (bad) e where "allocate_tx locked i now bed d = (Inl (Failed e), d)"
    | (go) b s u where
        "fetch_optional (filter (\<lambda>b. b_id b = bed) (beds d)) = Some b" "b_status b = ''available''"
        "fetch_optional (filter (\<lambda>s. s_id s = b_shelter_id b) (shelters d)) = Some s"
        "UnitType_from_db_str (b_unit_type b) = Inr u"
    by (metis allocate_tx_early allocate_tx_unreadable not_None_eq obj_sumE)
  then show ?thesis
  proof cases
    case early
    with tx show ?thesis by (intro none) auto
  next
    case (bad e)
    with tx show ?thesis by (intro error [of e]) auto
  next
    case (go b s u)
    note found = fetch_filter_Some [OF go(1)] fetch_filter_Some [OF go(3)]
    note run = allocate_tx_decides [OF go, of locked i now, unfolded tx]
    consider (nobody) "choose_referral locked (s_region s) (attrs_of u b) d = None"
      | (refused) r e where "choose_referral locked (s_region s) (attrs_of u b) d = Some r"
          "insert_reservation_row (new_reservation i bed (r_id r) now) d = Inl e"
      | (granted) r d1 where "choose_referral locked (s_region s) (attrs_of u b) d = Some r"
          "insert_reservation_row (new_reservation i bed (r_id r) now) d = Inr d1"
      by (metis not_None_eq obj_sumE)
    then show ?thesis
    proof cases
      case nobody
      with run show ?thesis by (intro none) auto
    next
      case (refused r e)
      with run show ?thesis by (intro error [of "Database e"]) auto
    next
      case (granted r d1)
      with run found go insert_reservation_Inr [OF granted(2)] show ?thesis
        by (intro won [of b s u r]) auto
    qed
  qed
qed

end
