(* ===== verification/Booking.thy ===== *)
theory Booking
  imports Allocation
begin

section \<open>The booking invariant\<close>

text \<open>
  What ties beds, referrals and reservations together.  A reservation is live while it is
  \<open>active\<close> or \<open>checked_in\<close>; the partial unique indexes of the schema only see \<open>active\<close> ones.
\<close>

subsection \<open>Parts of the invariant\<close>

definition no_double_booking :: "db \<Rightarrow> bool" where
  "no_double_booking d \<longleftrightarrow>
     unique_where v_bed_id is_live (reservations d) \<and>
     unique_where v_referral_id is_live (reservations d)"

definition free_beds_unheld :: "db \<Rightarrow> bool" where
  "free_beds_unheld d \<longleftrightarrow>
     (\<forall>b\<in>set (beds d). b_status b \<in> {''available'', ''maintenance''} \<longrightarrow>
        (\<forall>v\<in>set (reservations d). is_live v \<longrightarrow> v_bed_id v \<noteq> b_id b))"

definition matched_iff_live :: "db \<Rightarrow> bool" where
  "matched_iff_live d \<longleftrightarrow>
     (\<forall>r\<in>set (referrals d). r_status r = ''matched'' \<longleftrightarrow>
        (\<exists>v\<in>set (reservations d). is_live v \<and> v_referral_id v = r_id r))"

definition booking_suits :: "db \<Rightarrow> reservation_row \<Rightarrow> bool" where
  "booking_suits d v \<longleftrightarrow>
     (\<exists>b\<in>set (beds d). \<exists>s\<in>set (shelters d). \<exists>r\<in>set (referrals d).
        b_id b = v_bed_id v \<and> s_id s = b_shelter_id b \<and> r_id r = v_referral_id v \<and>
        suits b (s_region s) r)"

definition booking_inv :: "db \<Rightarrow> bool" where
  "booking_inv d \<longleftrightarrow>
     schema_ok d \<and> no_double_booking d \<and> free_beds_unheld d \<and> matched_iff_live d \<and>
     (\<forall>v\<in>set (reservations d). booking_suits d v)"

text \<open>
  With events that only a terminal reports, the status of a bed also tells which reservation
  backs it.
\<close>

definition reserved_backed :: "db \<Rightarrow> bool" where
  "reserved_backed d \<longleftrightarrow>
     (\<forall>b\<in>set (beds d). b_status b = ''reserved'' \<longrightarrow>
        (\<exists>v\<in>set (reservations d). v_status v = ''active'' \<and> v_bed_id v = b_id b))"

definition live_status_agrees :: "db \<Rightarrow> bool" where
  "live_status_agrees d \<longleftrightarrow>
     (\<forall>v\<in>set (reservations d). \<forall>b\<in>set (beds d). b_id b = v_bed_id v \<longrightarrow>
        (v_status v = ''active'' \<longrightarrow> b_status b = ''reserved'') \<and>
        (v_status v = ''checked_in'' \<longrightarrow> b_status b = ''occupied''))"

definition terminal_inv :: "db \<Rightarrow> bool" where
  "terminal_inv d \<longleftrightarrow> booking_inv d \<and> reserved_backed d \<and> live_status_agrees d"

lemma booking_inv_parts:
  assumes "booking_inv d"
  shows "schema_ok d" "no_double_booking d" "free_beds_unheld d" "matched_iff_live d"
    "\<forall>v\<in>set (reservations d). booking_suits d v"
  using assms by (simp_all add: booking_inv_def)

lemma terminal_inv_parts:
  assumes "terminal_inv d"
  shows "booking_inv d" "reserved_backed d" "live_status_agrees d"
  using assms by (simp_all add: terminal_inv_def)

lemma is_live_cases: "is_live v \<longleftrightarrow> v_status v = ''active'' \<or> v_status v = ''checked_in''"
  by (simp add: is_live_def)

lemma is_active_live: "is_active v \<Longrightarrow> is_live v"
  by (simp add: is_live_def is_active_def)

lemma no_double_booking_iff:
  assumes "schema_ok d"
  shows "no_double_booking d \<longleftrightarrow>
    (\<forall>v\<in>set (reservations d). \<forall>w\<in>set (reservations d). is_live v \<longrightarrow> is_live w \<longrightarrow>
       (v_bed_id v = v_bed_id w \<or> v_referral_id v = v_referral_id w) \<longrightarrow> v = w)"
  unfolding no_double_booking_def
    unique_where_iff [OF schema_ok_keys(4) [OF assms]] by blast

lemma no_double_bookingD:
  assumes "booking_inv d" "v \<in> set (reservations d)" "w \<in> set (reservations d)"
    "is_live v" "is_live w" "v_bed_id v = v_bed_id w \<or> v_referral_id v = v_referral_id w"
  shows "v = w"
  using assms booking_inv_parts [OF assms(1)] no_double_booking_iff by blast

lemma matched_iff:
  assumes "booking_inv d" "r \<in> set (referrals d)"
  shows "r_status r = ''matched'' \<longleftrightarrow>
    (\<exists>v\<in>set (reservations d). is_live v \<and> v_referral_id v = r_id r)"
  using assms by (simp add: booking_inv_def matched_iff_live_def)

lemma live_matched:
  assumes "booking_inv d" "r \<in> set (referrals d)" "v \<in> set (reservations d)" "is_live v"
    "r_id r = v_referral_id v"
  shows "r_status r = ''matched''"
  unfolding matched_iff [OF assms(1,2)] using assms(3-5) by metis

lemma pending_not_live:
  assumes "booking_inv d" "r \<in> set (referrals d)" "r_status r \<noteq> ''matched''"
    "v \<in> set (reservations d)" "is_live v"
  shows "v_referral_id v \<noteq> r_id r"
  using assms by (auto simp: booking_inv_def matched_iff_live_def)

subsection \<open>What no transaction changes\<close>

text \<open>
  Shelters, and every column of beds and referrals but the statuses and the sequence numbers,
  are written once.
\<close>

definition bed_static :: "bed_row \<Rightarrow> bed_row" where
  "bed_static b = b\<lparr>b_status := '''', b_last_event_sequence := 0\<rparr>"

definition referral_static :: "referral_row \<Rightarrow> referral_row" where
  "referral_static r = r\<lparr>r_status := ''''\<rparr>"

definition extends :: "db \<Rightarrow> db \<Rightarrow> bool" where
  "extends d d' \<longleftrightarrow>
     set (shelters d) \<subseteq> set (shelters d') \<and>
     bed_static ` set (beds d) \<subseteq> bed_static ` set (beds d') \<and>
     referral_static ` set (referrals d) \<subseteq> referral_static ` set (referrals d') \<and>
     v_id ` set (reservations d) \<subseteq> v_id ` set (reservations d') \<and>
     e_event_id ` set (applied_events d) \<subseteq> e_event_id ` set (applied_events d')"

lemma extends_refl [simp]: "extends d d"
  by (simp add: extends_def)

lemma extends_trans: "extends d d' \<Longrightarrow> extends d' d'' \<Longrightarrow> extends d d''"
  unfolding extends_def by (elim conjE, intro conjI; erule (1) subset_trans)

lemma bed_static_eq:
  "bed_static b = bed_static c \<longleftrightarrow>
     b_id b = b_id c \<and> b_shelter_id b = b_shelter_id c \<and> b_unit_type b = b_unit_type c \<and>
     b_allows_pets b = b_allows_pets c \<and> b_sobriety_required b = b_sobriety_required c \<and>
     b_ada_accessible b = b_ada_accessible c"
  by (cases b; cases c) (simp add: bed_static_def)

lemma referral_static_eq:
  "referral_static r = referral_static q \<longleftrightarrow>
     r_id r = r_id q \<and> r_caseworker_id r = r_caseworker_id q \<and> r_region r = r_region q \<and>
     r_family_size r = r_family_size q \<and> r_unit_type_required r = r_unit_type_required q \<and>
     r_needs_pet_friendly r = r_needs_pet_friendly q \<and>
     r_needs_sobriety_free r = r_needs_sobriety_free q \<and>
     r_needs_ada_accessible r = r_needs_ada_accessible q \<and>
     r_vulnerability_score r = r_vulnerability_score q \<and> r_created_at r = r_created_at q"
  by (cases r; cases q) (simp add: referral_static_def)

lemma static_update [simp]:
  "bed_static (b\<lparr>b_status := x\<rparr>) = bed_static b"
  "bed_static (b\<lparr>b_status := x, b_last_event_sequence := n\<rparr>) = bed_static b"
  "referral_static (r\<lparr>r_status := x\<rparr>) = referral_static r"
  by (simp_all add: bed_static_eq referral_static_eq)

lemma extendsD:
  assumes "extends d d'"
  shows "b \<in> set (beds d) \<Longrightarrow> \<exists>b'\<in>set (beds d'). bed_static b' = bed_static b"
    and "r \<in> set (referrals d) \<Longrightarrow> \<exists>r'\<in>set (referrals d'). referral_static r' = referral_static r"
    and "s \<in> set (shelters d) \<Longrightarrow> s \<in> set (shelters d')"
  using assms unfolding extends_def by (auto dest!: subsetD intro: sym)

lemma suits_static:
  "bed_static b = bed_static b' \<Longrightarrow> referral_static r = referral_static r' \<Longrightarrow>
     suits b g r \<longleftrightarrow> suits b' g r'"
  by (auto simp: suits_def bed_static_eq referral_static_eq)

lemma booking_suits_extends:
  assumes "extends d d'" and "booking_suits d v"
    and "v_bed_id w = v_bed_id v" and "v_referral_id w = v_referral_id v"
  shows "booking_suits d' w"
proof -
  obtain b s r where old: "b \<in> set (beds d)" "s \<in> set (shelters d)" "r \<in> set (referrals d)"
    "b_id b = v_bed_id v" "s_id s = b_shelter_id b" "r_id r = v_referral_id v" "suits b (s_region s) r"
    using assms(2) by (auto simp: booking_suits_def)
  obtain b' r' where "b' \<in> set (beds d')" "bed_static b' = bed_static b"
    "r' \<in> set (referrals d')" "referral_static r' = referral_static r" "s \<in> set (shelters d')"
    using extendsD [OF assms(1)] old(1-3) by blast
  with old assms(3,4) suits_static show ?thesis
    unfolding booking_suits_def
    by (intro bexI [of _ b'] bexI [of _ s] bexI [of _ r'])
       (auto simp: bed_static_eq referral_static_eq suits_def)
qed

lemma set_bed_status_extends: "extends d (set_bed_status bed st d)"
  by (simp add: extends_def set_bed_status_def update_beds_def image_update_where)

lemma update_beds_extends:
  "(\<And>b. bed_static (f b) = bed_static b) \<Longrightarrow> extends d (update_beds P f d)"
  by (simp add: extends_def update_beds_def image_update_where)

lemma update_referrals_extends:
  "(\<And>r. referral_static (f r) = referral_static r) \<Longrightarrow> extends d (update_referrals P f d)"
  by (simp add: extends_def update_referrals_def image_update_where)

lemma update_reservations_extends:
  "(\<And>v. v_id (f v) = v_id v) \<Longrightarrow> extends d (update_reservations P f d)"
  by (simp add: extends_def update_reservations_def image_update_where)

lemma insert_extends:
  "insert_shelter_row s d = Inr d' \<Longrightarrow> extends d d'"
  "insert_bed_row b d = Inr d' \<Longrightarrow> extends d d'"
  "insert_referral_row r d = Inr d' \<Longrightarrow> extends d d'"
  "insert_applied_event e d = (n, d') \<Longrightarrow> extends d d'"
  by (auto simp: extends_def insert_shelter_row_def insert_bed_row_def insert_referral_row_def
      insert_applied_event_def split: if_splits)

lemma award_extends: "extends d (award v d)"
proof -
  have "extends d (d\<lparr>reservations := reservations d @ [v]\<rparr>)"
    by (auto simp: extends_def)
  then show ?thesis
    unfolding award_def set_referral_status_def
    by (blast intro: extends_trans set_bed_status_extends update_referrals_extends static_update)
qed

end
