(* ===== verification/Booking_Preserved.thy ===== *)
theory Booking_Preserved
  imports Booking
begin

section \<open>Every transaction keeps the booking invariant\<close>

text \<open>
  That an allocation keeps the booking invariant: what \<open>award\<close> does to each table, and each
  conjunct of the invariant in turn.
\<close>

subsection \<open>Allocation\<close>

lemma award_tables:
  "reservations (award v d) = reservations d @ [v]"
  "shelters (award v d) = shelters d"
  "applied_events (award v d) = applied_events d"
  "beds (award v d) = update_where (\<lambda>b. b_id b = v_bed_id v)
     (\<lambda>b. b\<lparr>b_status := ''reserved''\<rparr>) (beds d)"
  "referrals (award v d) = update_where (\<lambda>r. r_id r = v_referral_id v)
     (\<lambda>r. r\<lparr>r_status := ''matched''\<rparr>) (referrals d)"
  by (simp_all add: award_def set_bed_status_def set_referral_status_def table_update_defs)

lemma award_bed:
  assumes "b' \<in> set (beds (award v d))"
  obtains b where "b \<in> set (beds d)" "b_id b' = b_id b"
    "b_status b' = (if b_id b = v_bed_id v then ''reserved'' else b_status b)"
  by (rule update_where_fields [OF assms [unfolded award_tables],
        where key = b_id and g = b_status]) (simp_all add: that)

lemma award_referral:
  assumes "r' \<in> set (referrals (award v d))"
  obtains r where "r \<in> set (referrals d)" "r_id r' = r_id r"
    "r_status r' = (if r_id r = v_referral_id v then ''matched'' else r_status r)"
  by (rule update_where_fields [OF assms [unfolded award_tables],
        where key = r_id and g = r_status]) (simp_all add: that)

text \<open>Updates of statuses to values the constraints allow keep the schema.\<close>

lemma schema_ok_update_beds:
  assumes "schema_ok d" and "\<And>b. bed_static (f b) = bed_static b"
    and "\<And>b. bed_status_check (b_status b) \<Longrightarrow> bed_status_check (b_status (f b))"
  shows "schema_ok (update_beds P f d)"
proof -
  have f: "b_id (f b) = b_id b" "b_shelter_id (f b) = b_shelter_id b"
    "b_unit_type (f b) = b_unit_type b" for b
    using assms(2) [of b] by (simp_all add: bed_static_eq)
  with assms show ?thesis
    by (auto simp: schema_ok_def update_beds_def map_update_where image_update_where
        in_update_where bed_check_def)
qed

lemma schema_ok_update_referrals:
  assumes "schema_ok d" and "\<And>r. referral_static (f r) = referral_static r"
    and "\<And>r. referral_status_check (r_status r) \<Longrightarrow> referral_status_check (r_status (f r))"
  shows "schema_ok (update_referrals P f d)"
proof -
  have f: "r_id (f r) = r_id r" "r_unit_type_required (f r) = r_unit_type_required r" for r
    using assms(2) [of r] by (simp_all add: referral_static_eq)
  with assms show ?thesis
    by (auto simp: schema_ok_def update_referrals_def map_update_where image_update_where
        in_update_where referral_check_def)
qed

lemma schema_ok_update_reservations:
  assumes "schema_ok d"
    and f: "\<And>v. v_id (f v) = v_id v" "\<And>v. v_bed_id (f v) = v_bed_id v"
      "\<And>v. v_referral_id (f v) = v_referral_id v"
      "\<And>v. reservation_status_check (v_status (f v))" "\<And>v. \<not> is_active (f v)"
  shows "schema_ok (update_reservations P f d)"
  using assms
  by (auto simp: schema_ok_def update_reservations_def map_update_where image_update_where
      in_update_where intro!: unique_where_update)

lemma award_schema_ok:
  assumes "schema_ok d" and "insert_reservation_row v d = Inr d'"
  shows "schema_ok (award v d)"
proof -
  have "schema_ok d'" by (rule insert_reservation_schema_ok [OF assms])
  with insert_reservation_Inr [OF assms(2)] show ?thesis
    unfolding award_def set_bed_status_def set_referral_status_def
    by (intro schema_ok_update_beds schema_ok_update_referrals)
       (simp_all add: bed_status_check_def referral_status_check_def)
qed

text \<open>
  The hypotheses of an award: a free bed, a referral that is not matched, a fresh active
  reservation that joins them.
\<close>

lemma award_no_double_booking:
  assumes inv: "booking_inv d" and "insert_reservation_row v d = Inr d'"
    and b: "b \<in> set (beds d)" "b_id b = v_bed_id v" "b_status b = ''available''"
    and r: "r \<in> set (referrals d)" "r_id r = v_referral_id v" "r_status r = ''pending''"
  shows "no_double_booking (award v d)"
proof -
  have "\<forall>w\<in>set (reservations d). is_live w \<longrightarrow> v_bed_id w \<noteq> v_bed_id v"
    using inv b by (auto simp: booking_inv_def free_beds_unheld_def)
  moreover have "\<forall>w\<in>set (reservations d). is_live w \<longrightarrow> v_referral_id w \<noteq> v_referral_id v"
    using pending_not_live [OF inv r(1)] r(2,3) by auto
  ultimately show ?thesis
    using booking_inv_parts(2) [OF inv]
    by (auto simp: no_double_booking_def award_tables unique_where_append)
qed

lemma award_free_beds_unheld:
  assumes "free_beds_unheld d"
  shows "free_beds_unheld (award v d)"
  unfolding free_beds_unheld_def
proof (intro ballI impI)
  fix b' w
  assume b': "b' \<in> set (beds (award v d))" "b_status b' \<in> {''available'', ''maintenance''}"
    and w: "w \<in> set (reservations (award v d))" "is_live w"
  from b'(1) obtain b where b: "b \<in> set (beds d)" "b_id b' = b_id b"
    "b_status b' = (if b_id b = v_bed_id v then ''reserved'' else b_status b)" by (rule award_bed)
  with b'(2) have "b_id b \<noteq> v_bed_id v" "b_status b \<in> {''available'', ''maintenance''}"
    by (auto split: if_splits)
  with assms b w show "v_bed_id w \<noteq> b_id b'"
    by (auto simp: free_beds_unheld_def award_tables)
qed

lemma award_matched_iff_live:
  assumes "matched_iff_live d" and "is_live v"
  shows "matched_iff_live (award v d)"
  unfolding matched_iff_live_def
proof (intro ballI)
  fix r' assume "r' \<in> set (referrals (award v d))"
  then obtain r where r: "r \<in> set (referrals d)" "r_id r' = r_id r"
    "r_status r' = (if r_id r = v_referral_id v then ''matched'' else r_status r)"
    by (rule award_referral)
  with assms show "r_status r' = ''matched'' \<longleftrightarrow>
      (\<exists>w\<in>set (reservations (award v d)). is_live w \<and> v_referral_id w = r_id r')"
    by (auto simp: matched_iff_live_def award_tables)
qed

lemma award_booking_suits:
  assumes "\<forall>w\<in>set (reservations d). booking_suits d w" and "booking_suits d v"
    and "w \<in> set (reservations (award v d))"
  shows "booking_suits (award v d) w"
  using assms booking_suits_extends [OF award_extends] by (auto simp: award_tables)

lemma award_booking_inv:
  assumes "booking_inv d" and "insert_reservation_row v d = Inr d'" and "is_active v"
    and "b \<in> set (beds d)" "b_id b = v_bed_id v" "b_status b = ''available''"
    and "r \<in> set (referrals d)" "r_id r = v_referral_id v" "r_status r = ''pending''"
    and "s \<in> set (shelters d)" "s_id s = b_shelter_id b" "suits b (s_region s) r"
  shows "booking_inv (award v d)"
proof -
  have "booking_suits d v"
    using assms(4-12) by (auto simp: booking_suits_def)
  with assms show ?thesis
    unfolding booking_inv_def
    using award_schema_ok award_no_double_booking [OF assms(1,2,4-9)] award_free_beds_unheld
      award_matched_iff_live award_booking_suits is_active_live by blast
qed

lemma award_terminal_inv:
  assumes "terminal_inv d" and "booking_inv (award v d)" and "v_status v = ''active''"
    and "b \<in> set (beds d)" "b_id b = v_bed_id v" "b_status b = ''available''"
  shows "terminal_inv (award v d)"
proof -
  have free: "\<forall>w\<in>set (reservations d). is_live w \<longrightarrow> v_bed_id w \<noteq> v_bed_id v"
    using assms(1,4-6) by (auto simp: terminal_inv_def booking_inv_def free_beds_unheld_def)
  have "reserved_backed (award v d)"
    unfolding reserved_backed_def
  proof (intro ballI impI)
    fix b' assume b': "b' \<in> set (beds (award v d))" "b_status b' = ''reserved''"
    from b'(1) obtain c where "c \<in> set (beds d)" "b_id b' = b_id c"
      "b_status b' = (if b_id c = v_bed_id v then ''reserved'' else b_status c)" by (rule award_bed)
    with b'(2) terminal_inv_parts(2) [OF assms(1)] assms(3)
    show "\<exists>w\<in>set (reservations (award v d)). v_status w = ''active'' \<and> v_bed_id w = b_id b'"
      by (cases "b_id c = v_bed_id v") (auto simp: reserved_backed_def award_tables)
  qed
  moreover have "live_status_agrees (award v d)"
    unfolding live_status_agrees_def
  proof (intro ballI impI)
    fix w b' assume w: "w \<in> set (reservations (award v d))"
      and b': "b' \<in> set (beds (award v d))" "b_id b' = v_bed_id w"
    from b'(1) obtain c where "c \<in> set (beds d)" "b_id b' = b_id c"
      "b_status b' = (if b_id c = v_bed_id v then ''reserved'' else b_status c)" by (rule award_bed)
    with w b'(2) terminal_inv_parts(3) [OF assms(1)] free assms(3)
    show "(v_status w = ''active'' \<longrightarrow> b_status b' = ''reserved'') \<and>
        (v_status w = ''checked_in'' \<longrightarrow> b_status b' = ''occupied'')"
      by (cases "w = v") (auto simp: live_status_agrees_def award_tables is_live_cases)
  qed
  ultimately show ?thesis using assms(2) by (simp add: terminal_inv_def)
qed

lemma allocate_tx_won_booking:
  assumes "booking_inv d" and "allocate_tx locked i now bed d = (Inr (Some a), d')"
  shows "booking_inv d'"
  using assms(2)
proof (cases rule: allocate_tx_cases)
  case (won b s u r)
  from choose_referral_Some [OF won(7)] won(6)
  have "r \<in> set (referrals d)" "r_status r = ''pending''" "suits b (s_region s) r"
    by (auto simp: pending_filter_suits)
  with won award_booking_inv [OF assms(1) won(8), of b r s] show ?thesis by simp
qed simp_all

lemma allocate_tx_booking_inv:
  assumes "booking_inv d" and "allocate_tx locked i now bed d = (res, d')"
  shows "booking_inv d'"
proof (cases "\<exists>a. res = Inr (Some a)")
  case True
  with assms allocate_tx_won_booking show ?thesis by blast
next
  case False
  from assms(2) show ?thesis
    by (cases rule: allocate_tx_cases) (use assms(1) False in auto)
qed

lemma allocate_tx_terminal_inv:
  assumes "terminal_inv d" and tx: "allocate_tx locked i now bed d = (res, d')"
  shows "terminal_inv d'"
  using tx
proof (cases rule: allocate_tx_cases)
  case (won b s u r)
  have "booking_inv d'"
    using allocate_tx_booking_inv [OF _ tx] assms(1) by (simp add: terminal_inv_def)
  with award_terminal_inv [OF assms(1), of _ b] won show ?thesis by simp
qed (use assms(1) in simp_all)

end
