(* ===== verification/Event_Preserved.thy ===== *)
theory Event_Preserved
  imports Booking_Preserved
begin

section \<open>Bed-status events and insertions keep the booking invariant\<close>

text \<open>
  The same for the transaction of a bed-status event and for the insertions of shelters, beds
  and referrals; \<open>applied_db\<close> is the database that an applied event leaves.
\<close>

subsection \<open>The case analysis of a bed-status event\<close>

definition applied_db :: "uuid \<Rightarrow> uuid \<Rightarrow> BedStatus \<Rightarrow> i64 \<Rightarrow> timestamp \<Rightarrow> db \<Rightarrow> db" where
  "applied_db event bed new_status sequence now d =
     reservation_lifecycle new_status bed
       (update_beds (\<lambda>b. b_id b = bed)
          (\<lambda>b. b\<lparr>b_status := BedStatus_as_db_str new_status, b_last_event_sequence := sequence\<rparr>)
          (d\<lparr>applied_events := applied_events d @
             [\<lparr>e_event_id = event, e_bed_id = bed, e_applied_at = now\<rparr>]\<rparr>))"

lemma apply_tx_cases:
  assumes "apply_tx event bed new_status sequence now d = (res, d')"
  obtains (duplicate) "event \<in> e_event_id ` set (applied_events d)" "res = Inr Duplicate" "d' = d"
  | (unknown) "event \<notin> e_event_id ` set (applied_events d)" "\<forall>b\<in>set (beds d). b_id b \<noteq> bed"
      "res = Inr UnknownBed" "d' = d"
  | (stale) b where "event \<notin> e_event_id ` set (applied_events d)"
      "fetch_optional (filter (\<lambda>b. b_id b = bed) (beds d)) = Some b"
      "sint sequence \<le> sint (b_last_event_sequence b)" "res = Inr Stale" "d' = d"
  | (applied) b where "event \<notin> e_event_id ` set (applied_events d)"
      "fetch_optional (filter (\<lambda>b. b_id b = bed) (beds d)) = Some b"
      "b \<in> set (beds d)" "b_id b = bed"
      "sint (b_last_event_sequence b) < sint sequence"
      "res = Inr (Applied (b_shelter_id b) (new_status = Available \<and> b_status b \<noteq> ''available''))"
      "d' = applied_db event bed new_status sequence now d"
proof (cases "event \<in> e_event_id ` set (applied_events d)")
  case True
  with assms show ?thesis by (intro duplicate) (simp_all add: apply_tx_def insert_applied_event_def)
next
  case False
  note run = assms [unfolded apply_tx_def insert_applied_event_def, simplified False Let_def,
      simplified]
  show ?thesis
  proof (cases "fetch_optional (filter (\<lambda>b. b_id b = bed) (beds d))")
    case None
    with run False show ?thesis by (intro unknown) (simp_all add: filter_empty_conv)
  next
    case (Some b)
    note b = fetch_filter_Some [OF Some]
    show ?thesis
    proof (cases "sint sequence \<le> sint (b_last_event_sequence b)")
      case True
      with run False Some show ?thesis by (intro stale [of b]) simp_all
    next
      case F: False
      with run False Some b show ?thesis
        by (intro applied [of b]) (simp_all add: applied_db_def)
    qed
  qed
qed

subsection \<open>The tables after an applied event\<close>

definition releasing :: "BedStatus \<Rightarrow> bool" where
  "releasing new_status \<longleftrightarrow> new_status = Available \<or> new_status = Maintenance"

definition reservation_after :: "BedStatus \<Rightarrow> uuid \<Rightarrow> reservation_row \<Rightarrow> reservation_row" where
  "reservation_after new_status bed v =
     (if v_bed_id v = bed \<and> new_status = Occupied \<and> v_status v = ''active''
      then v\<lparr>v_status := ''checked_in''\<rparr>
      else if v_bed_id v = bed \<and> releasing new_status \<and> is_live v
      then v\<lparr>v_status := ''released''\<rparr>
      else v)"

definition referrals_after :: "BedStatus \<Rightarrow> uuid \<Rightarrow> db \<Rightarrow> referral_row list" where
  "referrals_after new_status bed d =
     (if releasing new_status
      then case fetch_optional (filter (\<lambda>v. v_bed_id v = bed \<and> is_live v) (reservations d)) of
             None \<Rightarrow> referrals d
           | Some v \<Rightarrow> update_where (\<lambda>r. r_id r = v_referral_id v \<and> r_status r = ''matched'')
               (\<lambda>r. r\<lparr>r_status := ''pending''\<rparr>) (referrals d)
      else referrals d)"

lemma reservation_after_sel [simp]:
  "v_id (reservation_after ns bed v) = v_id v"
  "v_bed_id (reservation_after ns bed v) = v_bed_id v"
  "v_referral_id (reservation_after ns bed v) = v_referral_id v"
  by (simp_all add: reservation_after_def)

lemma reservation_after_live:
  "is_live (reservation_after ns bed v) \<longleftrightarrow> is_live v \<and> \<not> (v_bed_id v = bed \<and> releasing ns)"
  by (auto simp: reservation_after_def is_live_cases releasing_def)

lemma reservation_after_active:
  "is_active (reservation_after ns bed v) \<Longrightarrow> is_active v"
  by (auto simp: reservation_after_def is_active_def split: if_splits)

lemma reservation_lifecycle_eq:
  "reservation_lifecycle ns bed d =
     d\<lparr>reservations := map (reservation_after ns bed) (reservations d),
       referrals := referrals_after ns bed d\<rparr>"
proof -
  have occupied: "update_where (\<lambda>v. v_bed_id v = bed \<and> v_status v = ''active'')
      (\<lambda>v. v\<lparr>v_status := ''checked_in''\<rparr>) xs = map (reservation_after Occupied bed) xs" for xs
    by (simp add: update_where_def reservation_after_def releasing_def)
  have released: "update_where (\<lambda>v. v_bed_id v = bed \<and> is_live v)
      (\<lambda>v. v\<lparr>v_status := ''released''\<rparr>) xs = map (reservation_after ns bed) xs"
    if "releasing ns" for xs
    using that by (auto simp: update_where_def reservation_after_def releasing_def)
  have kept: "map (reservation_after Reserved bed) xs = xs" for xs
    by (simp add: reservation_after_def releasing_def map_idI)
  show ?thesis
  proof (cases ns)
    case Occupied
    then show ?thesis
      by (simp add: reservation_lifecycle_def update_reservations_def occupied
          referrals_after_def releasing_def)
  next
    case Reserved
    then show ?thesis
      by (simp add: reservation_lifecycle_def kept referrals_after_def releasing_def)
  qed (simp_all add: reservation_lifecycle_def release_reservations_def table_update_defs
      released referrals_after_def releasing_def split: option.split)
qed

lemma applied_db_tables:
  "shelters (applied_db event bed ns sq now d) = shelters d"
  "applied_events (applied_db event bed ns sq now d) = applied_events d @
     [\<lparr>e_event_id = event, e_bed_id = bed, e_applied_at = now\<rparr>]"
  "beds (applied_db event bed ns sq now d) = update_where (\<lambda>b. b_id b = bed)
     (\<lambda>b. b\<lparr>b_status := BedStatus_as_db_str ns, b_last_event_sequence := sq\<rparr>) (beds d)"
  "reservations (applied_db event bed ns sq now d) = map (reservation_after ns bed) (reservations d)"
  "referrals (applied_db event bed ns sq now d) = referrals_after ns bed d"
  by (simp_all add: applied_db_def reservation_lifecycle_eq update_beds_def referrals_after_def
      split: option.split)

lemma applied_bed:
  assumes "b' \<in> set (beds (applied_db event bed ns sq now d))"
  obtains b where "b \<in> set (beds d)" "b_id b' = b_id b" "bed_static b' = bed_static b"
    "b_status b' = (if b_id b = bed then BedStatus_as_db_str ns else b_status b)"
    "b_last_event_sequence b' = (if b_id b = bed then sq else b_last_event_sequence b)"
proof -
  obtain b where "b \<in> set (beds d)" "b' = (if b_id b = bed
      then b\<lparr>b_status := BedStatus_as_db_str ns, b_last_event_sequence := sq\<rparr> else b)"
    using assms by (auto simp: applied_db_tables in_update_where)
  with that [of b] show thesis by (simp split: if_splits)
qed

text \<open>
  Under the invariant the first live reservation of the bed is the only one, so exactly the
  referral that held the bed is put back.
\<close>

lemma referrals_after_releasing:
  assumes inv: "booking_inv d" and "releasing ns"
    and v: "v \<in> set (reservations d)" "is_live v" "v_bed_id v = bed"
  shows "referrals_after ns bed d = update_where (\<lambda>r. r_id r = v_referral_id v)
    (\<lambda>r. r\<lparr>r_status := ''pending''\<rparr>) (referrals d)"
proof -
  obtain w where w: "fetch_optional (filter (\<lambda>v. v_bed_id v = bed \<and> is_live v) (reservations d)) = Some w"
    using fetch_filter_exists [of v "reservations d" "\<lambda>v. v_bed_id v = bed \<and> is_live v"] v by auto
  have wv: "w = v"
    using no_double_bookingD [OF inv _ v(1) _ v(2)] fetch_filter_Some [OF w] v(3) by simp
  have matched: "r_status r = ''matched''" if "r \<in> set (referrals d)" "r_id r = v_referral_id v" for r
    by (rule live_matched [OF inv that(1) v(1,2) that(2)])
  have "update_where (\<lambda>r. r_id r = v_referral_id w \<and> r_status r = ''matched'') f
      (referrals d) = update_where (\<lambda>r. r_id r = v_referral_id v) f (referrals d)" for f
    unfolding wv by (rule update_where_eq) (blast intro: matched)
  with assms(2) w show ?thesis by (simp add: referrals_after_def)
qed

lemma referrals_after_unheld:
  assumes "\<not> (releasing ns \<and> (\<exists>v\<in>set (reservations d). is_live v \<and> v_bed_id v = bed))"
  shows "referrals_after ns bed d = referrals d"
proof (cases "releasing ns")
  case True
  with assms have "fetch_optional (filter (\<lambda>v. v_bed_id v = bed \<and> is_live v) (reservations d)) = None"
    unfolding fetch_filter_None by blast
  then show ?thesis by (simp add: referrals_after_def)
qed (simp add: referrals_after_def)

lemma applied_referral:
  assumes inv: "booking_inv d" and r': "r' \<in> set (referrals (applied_db event bed ns sq now d))"
  obtains r where "r \<in> set (referrals d)" "r_id r' = r_id r" "referral_static r' = referral_static r"
    "r_status r' =
       (if releasing ns \<and>
           (\<exists>v\<in>set (reservations d). is_live v \<and> v_bed_id v = bed \<and> v_referral_id v = r_id r)
        then ''pending'' else r_status r)"
proof (cases "releasing ns \<and> (\<exists>v\<in>set (reservations d). is_live v \<and> v_bed_id v = bed)")
  case False
  have "r' \<in> set (referrals d)"
    using r' by (simp add: applied_db_tables referrals_after_unheld [OF False])
  with False show thesis by (intro that [of r']) auto
next
  case True
  then obtain v where v: "v \<in> set (reservations d)" "is_live v" "v_bed_id v = bed" by blast
  have only: "(\<exists>w\<in>set (reservations d). is_live w \<and> v_bed_id w = bed \<and> v_referral_id w = i)
      \<longleftrightarrow> v_referral_id v = i" for i
    using no_double_bookingD [OF inv _ v(1) _ v(2)] v by metis
  obtain r where "r \<in> set (referrals d)"
    "r' = (if r_id r = v_referral_id v then r\<lparr>r_status := ''pending''\<rparr> else r)"
    using r' referrals_after_releasing [OF inv _ v] True
    by (auto simp: applied_db_tables in_update_where)
  with True only show thesis by (intro that [of r]) auto
qed

lemma applied_db_extends: "extends d (applied_db event bed ns sq now d)"
proof -
  have "referral_static ` set (referrals_after ns bed d) = referral_static ` set (referrals d)"
    by (simp add: referrals_after_def image_update_where split: option.split)
  then show ?thesis
    by (auto simp: extends_def applied_db_tables image_update_where image_image)
qed

subsection \<open>Preservation\<close>

lemma lifecycle_schema_ok:
  assumes "schema_ok d"
  shows "schema_ok (reservation_lifecycle ns bed d)"
proof -
  have upd: "schema_ok (update_reservations P (\<lambda>v. v\<lparr>v_status := st\<rparr>) d)"
    if "st = ''checked_in'' \<or> st = ''released''" for P st
    by (rule schema_ok_update_reservations [OF assms])
       (use that in \<open>auto simp: reservation_status_check_def is_active_def\<close>)
  have released: "schema_ok (snd (release_reservations bed d))"
    by (simp add: release_reservations_def upd)
  have pend: "schema_ok (update_referrals P (\<lambda>r. r\<lparr>r_status := ''pending''\<rparr>)
      (snd (release_reservations bed d)))" for P
    by (rule schema_ok_update_referrals [OF released]) (simp_all add: referral_status_check_def)
  obtain x e where e: "release_reservations bed d = (x, e)" by (cases "release_reservations bed d")
  show ?thesis
    using assms upd released pend
    by (simp add: reservation_lifecycle_def e split: option.split)
qed

lemma applied_db_schema_ok:
  assumes "schema_ok d" and "event \<notin> e_event_id ` set (applied_events d)"
  shows "schema_ok (applied_db event bed ns sq now d)"
  unfolding applied_db_def
proof (rule lifecycle_schema_ok, rule schema_ok_update_beds)
  show "schema_ok (d\<lparr>applied_events := applied_events d @
      [\<lparr>e_event_id = event, e_bed_id = bed, e_applied_at = now\<rparr>]\<rparr>)"
    using assms by (simp add: schema_ok_def)
qed simp_all

lemma applied_db_no_double_booking:
  assumes "booking_inv d"
  shows "no_double_booking (applied_db event bed ns sq now d)"
proof -
  have "unique_where key is_live (map (reservation_after ns bed) xs)"
    if "\<And>v. key (reservation_after ns bed v) = key v" "unique_where key is_live xs"
    for key :: "reservation_row \<Rightarrow> uuid" and xs
    using unique_where_update [of "\<lambda>_. True" key "reservation_after ns bed" is_live xs] that
    by (simp add: update_where_def reservation_after_live)
  with booking_inv_parts(2) [OF assms] show ?thesis
    by (simp add: no_double_booking_def applied_db_tables)
qed

lemma db_str_free:
  "BedStatus_as_db_str ns \<in> {''available'', ''maintenance''} \<longleftrightarrow> releasing ns"
  by (cases ns) (simp_all add: releasing_def)

lemma applied_db_free_beds_unheld:
  assumes "free_beds_unheld d"
  shows "free_beds_unheld (applied_db event bed ns sq now d)"
  unfolding free_beds_unheld_def
proof (intro ballI impI)
  fix b' v' assume b': "b' \<in> set (beds (applied_db event bed ns sq now d))"
      "b_status b' \<in> {''available'', ''maintenance''}"
    and v': "v' \<in> set (reservations (applied_db event bed ns sq now d))" "is_live v'"
  obtain b where b: "b \<in> set (beds d)" "b_id b' = b_id b"
    "b_status b' = (if b_id b = bed then BedStatus_as_db_str ns else b_status b)"
    using b'(1) by (rule applied_bed)
  obtain v where v: "v \<in> set (reservations d)" "v' = reservation_after ns bed v"
    using v'(1) by (auto simp: applied_db_tables)
  show "v_bed_id v' \<noteq> b_id b'"
  proof (cases "b_id b = bed")
    case True
    with b b'(2) db_str_free have "releasing ns" by simp
    with True b v v'(2) show ?thesis by (auto simp: reservation_after_live)
  next
    case False
    with b b'(2) have "b_status b \<in> {''available'', ''maintenance''}" by simp
    with assms b(1) v(1) have "is_live v \<Longrightarrow> v_bed_id v \<noteq> b_id b"
      unfolding free_beds_unheld_def by blast
    with b(2) v(2) v'(2) show ?thesis by (simp add: reservation_after_live)
  qed
qed

lemma applied_db_matched_iff_live:
  assumes inv: "booking_inv d"
  shows "matched_iff_live (applied_db event bed ns sq now d)"
  unfolding matched_iff_live_def
proof (intro ballI)
  fix r' assume "r' \<in> set (referrals (applied_db event bed ns sq now d))"
  from applied_referral [OF inv this] obtain r where r: "r \<in> set (referrals d)" "r_id r' = r_id r"
    "r_status r' = (if releasing ns \<and>
       (\<exists>v\<in>set (reservations d). is_live v \<and> v_bed_id v = bed \<and> v_referral_id v = r_id r)
     then ''pending'' else r_status r)" by blast
  have live: "(\<exists>v\<in>set (reservations (applied_db event bed ns sq now d)).
        is_live v \<and> v_referral_id v = r_id r') \<longleftrightarrow>
      (\<exists>v\<in>set (reservations d). is_live v \<and> v_referral_id v = r_id r \<and>
         \<not> (v_bed_id v = bed \<and> releasing ns))"
    using r(2) by (auto simp: applied_db_tables reservation_after_live)
  have matched: "r_status r = ''matched'' \<longleftrightarrow>
      (\<exists>v\<in>set (reservations d). is_live v \<and> v_referral_id v = r_id r)"
    using inv r(1) by (simp add: booking_inv_def matched_iff_live_def)
  show "r_status r' = ''matched'' \<longleftrightarrow> (\<exists>v\<in>set (reservations (applied_db event bed ns sq now d)).
        is_live v \<and> v_referral_id v = r_id r')"
  proof (cases "releasing ns \<and>
      (\<exists>v\<in>set (reservations d). is_live v \<and> v_bed_id v = bed \<and> v_referral_id v = r_id r)")
    case True
    then obtain v where v: "v \<in> set (reservations d)" "is_live v" "v_bed_id v = bed"
      "v_referral_id v = r_id r" by blast
    have "w = v" if "w \<in> set (reservations d)" "is_live w" "v_referral_id w = r_id r" for w
      using no_double_bookingD [OF inv that(1) v(1) that(2) v(2)] that(3) v(4) by simp
    with True r(3) v(3) show ?thesis unfolding live by auto
  next
    case False
    with r(3) matched show ?thesis unfolding live by auto
  qed
qed

lemma applied_db_booking_inv:
  assumes inv: "booking_inv d" and "event \<notin> e_event_id ` set (applied_events d)"
  shows "booking_inv (applied_db event bed ns sq now d)"
proof -
  have "booking_suits (applied_db event bed ns sq now d) v'"
    if v': "v' \<in> set (reservations (applied_db event bed ns sq now d))" for v'
  proof -
    obtain v where "v \<in> set (reservations d)" "v' = reservation_after ns bed v"
      using v' by (auto simp: applied_db_tables)
    with booking_suits_extends [OF applied_db_extends, of d v v'] booking_inv_parts(5) [OF inv]
    show ?thesis by auto
  qed
  with assms booking_inv_parts [OF inv] show ?thesis
    unfolding booking_inv_def
    by (simp add: applied_db_schema_ok applied_db_no_double_booking
        applied_db_free_beds_unheld applied_db_matched_iff_live inv)
qed

lemma apply_tx_booking_inv:
  assumes "booking_inv d" and "apply_tx event bed ns sq now d = (res, d')"
  shows "booking_inv d'"
  using assms(2) by (cases rule: apply_tx_cases) (use assms(1) applied_db_booking_inv in simp_all)

lemma applied_db_terminal_inv:
  assumes inv: "terminal_inv d" and "event \<notin> e_event_id ` set (applied_events d)"
    and "ns \<noteq> Reserved"
  shows "terminal_inv (applied_db event bed ns sq now d)" (is "terminal_inv ?d")
proof -
  note parts = terminal_inv_parts [OF inv]
  have "reserved_backed ?d"
    unfolding reserved_backed_def
  proof (intro ballI impI)
    fix b' assume b': "b' \<in> set (beds ?d)" "b_status b' = ''reserved''"
    obtain b where b: "b \<in> set (beds d)" "b_id b' = b_id b"
      "b_status b' = (if b_id b = bed then BedStatus_as_db_str ns else b_status b)"
      using b'(1) by (rule applied_bed)
    with b'(2) assms(3) have other: "b_id b \<noteq> bed" "b_status b = ''reserved''"
      by (cases ns; simp split: if_splits)+
    with parts(2) b(1) obtain v where "v \<in> set (reservations d)" "v_status v = ''active''"
      "v_bed_id v = b_id b" by (auto simp: reserved_backed_def)
    with other(1) b(2) show "\<exists>v\<in>set (reservations ?d). v_status v = ''active'' \<and> v_bed_id v = b_id b'"
      by (intro bexI [of _ "reservation_after ns bed v"])
         (simp_all add: applied_db_tables, simp add: reservation_after_def)
  qed
  moreover have "live_status_agrees ?d"
    unfolding live_status_agrees_def
  proof (intro ballI impI)
    fix v' b' assume v': "v' \<in> set (reservations ?d)" and b': "b' \<in> set (beds ?d)"
      and eq: "b_id b' = v_bed_id v'"
    obtain v where v: "v \<in> set (reservations d)" "v' = reservation_after ns bed v"
      using v' by (auto simp: applied_db_tables)
    obtain b where b: "b \<in> set (beds d)" "b_id b' = b_id b"
      "b_status b' = (if b_id b = bed then BedStatus_as_db_str ns else b_status b)"
      using b' by (rule applied_bed)
    have same: "v_bed_id v = b_id b" using eq b(2) v(2) by simp
    have old: "(v_status v = ''active'' \<longrightarrow> b_status b = ''reserved'') \<and>
        (v_status v = ''checked_in'' \<longrightarrow> b_status b = ''occupied'')"
      using parts(3) v(1) b(1,2) eq v(2) by (simp add: live_status_agrees_def)
    show "(v_status v' = ''active'' \<longrightarrow> b_status b' = ''reserved'') \<and>
        (v_status v' = ''checked_in'' \<longrightarrow> b_status b' = ''occupied'')"
      unfolding v(2) b(3)
      using old same assms(3)
      by (cases ns) (simp_all add: reservation_after_def releasing_def is_live_cases)
  qed
  ultimately show ?thesis
    using applied_db_booking_inv [OF parts(1) assms(2)] by (simp add: terminal_inv_def)
qed

lemma apply_tx_terminal_inv:
  assumes "terminal_inv d" and "ns \<noteq> Reserved" and "apply_tx event bed ns sq now d = (res, d')"
  shows "terminal_inv d'"
  using assms(3)
  by (cases rule: apply_tx_cases) (use assms(1,2) applied_db_terminal_inv in simp_all)

subsection \<open>Insertions\<close>

lemma insert_referral_row_inv:
  assumes "booking_inv d" and "insert_referral_row r d = Inr d'" and "r_status r = ''pending''"
  shows "booking_inv d'"
proof -
  note d' = insert_referral_Inr [OF assms(2)]
  have fresh: "r_id r \<notin> r_id ` set (referrals d)"
    using assms(2) by (auto simp: insert_referral_row_def split: if_splits)
  have "v_referral_id v \<noteq> r_id r" if "v \<in> set (reservations d)" for v
    using schema_ok_reservation [OF booking_inv_parts(1) [OF assms(1)] that] fresh by (metis imageI)
  then have "matched_iff_live d'"
    using booking_inv_parts(4) [OF assms(1)] assms(3) d' by (auto simp: matched_iff_live_def)
  moreover have "\<forall>v\<in>set (reservations d'). booking_suits d' v"
    using booking_inv_parts(5) [OF assms(1)] booking_suits_extends [OF insert_extends(3) [OF assms(2)]] d'
    by auto
  ultimately show ?thesis
    using assms(1) insert_referral_schema_ok [OF _ assms(2)] d'
    by (simp add: booking_inv_def no_double_booking_def free_beds_unheld_def)
qed

lemma insert_referral_row_terminal_inv:
  assumes "terminal_inv d" and "insert_referral_row r d = Inr d'" and "r_status r = ''pending''"
  shows "terminal_inv d'"
  using assms insert_referral_row_inv [OF _ assms(2,3)] insert_referral_Inr [OF assms(2)]
  by (simp add: terminal_inv_def reserved_backed_def live_status_agrees_def)

lemma insert_shelter_row_inv:
  assumes "booking_inv d" and "insert_shelter_row s d = Inr d'"
  shows "booking_inv d'"
proof -
  have d': "d' = d\<lparr>shelters := shelters d @ [s]\<rparr>"
    using assms(2) by (auto simp: insert_shelter_row_def split: if_splits)
  have "\<forall>v\<in>set (reservations d'). booking_suits d' v"
    using booking_inv_parts(5) [OF assms(1)] booking_suits_extends [OF insert_extends(1) [OF assms(2)]] d'
    by auto
  with assms insert_shelter_schema_ok [OF _ assms(2)] d' show ?thesis
    by (simp add: booking_inv_def no_double_booking_def free_beds_unheld_def matched_iff_live_def)
qed

lemma insert_bed_row_inv:
  assumes "booking_inv d" and "insert_bed_row b d = Inr d'"
  shows "booking_inv d'"
proof -
  have d': "d' = d\<lparr>beds := beds d @ [b]\<rparr>" and fresh: "b_id b \<notin> b_id ` set (beds d)"
    using assms(2) by (auto simp: insert_bed_row_def split: if_splits)
  have "v_bed_id v \<noteq> b_id b" if "v \<in> set (reservations d)" for v
    using schema_ok_reservation [OF booking_inv_parts(1) [OF assms(1)] that] fresh by (metis imageI)
  then have "free_beds_unheld d'"
    using booking_inv_parts(3) [OF assms(1)] d' by (auto simp: free_beds_unheld_def)
  moreover have "\<forall>v\<in>set (reservations d'). booking_suits d' v"
    using booking_inv_parts(5) [OF assms(1)] booking_suits_extends [OF insert_extends(2) [OF assms(2)]] d'
    by auto
  ultimately show ?thesis
    using assms insert_bed_schema_ok [OF _ assms(2)] d'
    by (simp add: booking_inv_def no_double_booking_def matched_iff_live_def)
qed

end
