(* ===== verification/System.thy ===== *)
theory System
  imports Event_Preserved
begin

section \<open>The database under all its writers\<close>

text \<open>
  Every committed change of the database is one transaction of one of the writers: a referral is
  inserted, a bed is allocated, a bed-status event is applied, or the simulator seeds a shelter
  or a bed.  The server may also move rows around, which covers every order in which SQL leaves
  the rows of a table open.  \<open>db_step A\<close> is one such change, \<open>A\<close> the statuses that events may
  report: all of them, or only those an intake terminal can report.
\<close>

definition reordered :: "db \<Rightarrow> db \<Rightarrow> bool" where
  "reordered d d' \<longleftrightarrow>
     mset (shelters d) = mset (shelters d') \<and> mset (beds d) = mset (beds d') \<and>
     mset (referrals d) = mset (referrals d') \<and> mset (reservations d) = mset (reservations d') \<and>
     mset (applied_events d) = mset (applied_events d')"

inductive db_step :: "BedStatus set \<Rightarrow> db \<Rightarrow> db \<Rightarrow> bool" for A where
  referral: "insert_referral i caseworker region needs vulnerability family now d = (Inr (), d') \<Longrightarrow>
     db_step A d d'"
| allocation: "allocate_tx locked i now bed d = (Inr (Some a), d') \<Longrightarrow> db_step A d d'"
| event: "apply_tx e bed ns sq now d = (Inr (Applied sh av), d') \<Longrightarrow> ns \<in> A \<Longrightarrow> db_step A d d'"
| shelter: "insert_shelter_row s d = Inr d' \<Longrightarrow> db_step A d d'"
| bed: "insert_bed_row b d = Inr d' \<Longrightarrow> b_status b \<in> {''occupied'', ''available''} \<Longrightarrow>
     db_step A d d'"
| reorder: "reordered d d' \<Longrightarrow> db_step A d d'"

definition terminal_statuses :: "BedStatus set" where
  "terminal_statuses = {Available, Occupied, Maintenance}"

definition reachable :: "BedStatus set \<Rightarrow> db \<Rightarrow> bool" where
  "reachable A d \<longleftrightarrow> (db_step A)\<^sup>*\<^sup>* empty_db d"

subsection \<open>Reordering keeps everything\<close>

lemma reordered_sets:
  assumes "reordered d d'"
  shows "set (shelters d') = set (shelters d)" "set (beds d') = set (beds d)"
    "set (referrals d') = set (referrals d)" "set (reservations d') = set (reservations d)"
    "set (applied_events d') = set (applied_events d)"
  using assms mset_eq_setD unfolding reordered_def by blast+

lemma reordered_unique:
  assumes "reordered d d'"
  shows "unique_where key P (reservations d') = unique_where key P (reservations d)"
  using assms unfolding reordered_def by (metis unique_where_perm)

lemma reordered_schema_ok:
  assumes "schema_ok d" and "reordered d d'"
  shows "schema_ok d'"
proof -
  have "distinct (map key (shelters d')) = distinct (map key (shelters d))" for key :: "_ \<Rightarrow> uuid"
    using assms(2) unfolding reordered_def by (metis distinct_map_perm)
  moreover have "distinct (map key (beds d')) = distinct (map key (beds d))" for key :: "_ \<Rightarrow> uuid"
    using assms(2) unfolding reordered_def by (metis distinct_map_perm)
  moreover have "distinct (map key (referrals d')) = distinct (map key (referrals d))"
    for key :: "_ \<Rightarrow> uuid"
    using assms(2) unfolding reordered_def by (metis distinct_map_perm)
  moreover have "distinct (map key (reservations d')) = distinct (map key (reservations d))"
    for key :: "_ \<Rightarrow> uuid"
    using assms(2) unfolding reordered_def by (metis distinct_map_perm)
  moreover have "distinct (map key (applied_events d')) = distinct (map key (applied_events d))"
    for key :: "_ \<Rightarrow> uuid"
    using assms(2) unfolding reordered_def by (metis distinct_map_perm)
  ultimately show ?thesis
    using assms(1) unfolding schema_ok_def
    by (simp add: reordered_sets [OF assms(2)] reordered_unique [OF assms(2)])
qed

lemma reordered_booking_inv:
  assumes "booking_inv d" and "reordered d d'"
  shows "booking_inv d'"
  using assms reordered_schema_ok [OF _ assms(2)]
  by (simp add: booking_inv_def no_double_booking_def free_beds_unheld_def matched_iff_live_def
      booking_suits_def reordered_sets [OF assms(2)] reordered_unique [OF assms(2)])

lemma reordered_terminal_inv:
  "terminal_inv d \<Longrightarrow> reordered d d' \<Longrightarrow> terminal_inv d'"
  using reordered_booking_inv [of d d']
  by (simp add: terminal_inv_def reserved_backed_def live_status_agrees_def reordered_sets)

lemma reordered_extends: "reordered d d' \<Longrightarrow> extends d d'"
  by (simp add: extends_def reordered_sets)

subsection \<open>Invariants as an interface\<close>

text \<open>
  What a client needs of an invariant: it holds at the start and every step of every writer
  keeps it.  Then it holds in every reachable state.
\<close>

locale db_invariant =
  fixes A :: "BedStatus set" and I :: "db \<Rightarrow> bool"
  assumes start: "I empty_db"
    and step: "db_step A d d' \<Longrightarrow> I d \<Longrightarrow> I d'"
begin

lemma steps: "(db_step A)\<^sup>*\<^sup>* d d' \<Longrightarrow> I d \<Longrightarrow> I d'"
  by (induction rule: rtranclp_induct) (auto intro: step)

lemma reachable_holds: "reachable A d \<Longrightarrow> I d"
  using steps start by (auto simp: reachable_def)

end

lemma insert_referral_Inr_row:
  assumes "insert_referral i caseworker region needs vulnerability family now d = (Inr (), d')"
  obtains r where "insert_referral_row r d = Inr d'" "r_status r = ''pending''" "r_id r = i"
    "r_region r = region" "needs_of (unit_type_required needs) r = needs"
    "r_unit_type_required r = UnitType_as_db_str (unit_type_required needs)"
    "r_vulnerability_score r = vulnerability" "r_created_at r = now"
proof -
  let ?r = "\<lparr>r_id = i, r_caseworker_id = caseworker, r_region = region,
        r_family_size = family, r_unit_type_required = UnitType_as_db_str (unit_type_required needs),
        r_needs_pet_friendly = needs_pet_friendly needs,
        r_needs_sobriety_free = needs_sobriety_free needs,
        r_needs_ada_accessible = needs_ada_accessible needs,
        r_vulnerability_score = vulnerability, r_status = ''pending'', r_created_at = now\<rparr>"
  have "insert_referral_row ?r d = Inr d'"
    using assms unfolding insert_referral_def
    by (cases "insert_referral_row ?r d") simp_all
  then show thesis by (rule that) (simp_all add: needs_of_def)
qed

lemma empty_db_inv: "terminal_inv empty_db"
  using empty_db_schema_ok [unfolded empty_db_def]
  by (simp add: terminal_inv_def booking_inv_def no_double_booking_def
      free_beds_unheld_def matched_iff_live_def reserved_backed_def live_status_agrees_def
      empty_db_def unique_where_def)

lemma db_step_booking_inv: "db_step A d d' \<Longrightarrow> booking_inv d \<Longrightarrow> booking_inv d'"
proof (induction rule: db_step.induct)
  case (referral i caseworker region needs vulnerability family now d d')
  then show ?case using insert_referral_row_inv by (blast elim: insert_referral_Inr_row)
next
  case (allocation locked i now bed d a d')
  then show ?case by (blast intro: allocate_tx_booking_inv)
next
  case (event e bed ns sq now d sh av d')
  then show ?case by (blast intro: apply_tx_booking_inv)
qed (blast intro: insert_shelter_row_inv insert_bed_row_inv reordered_booking_inv)+

lemma insert_bed_row_terminal_inv:
  assumes inv: "terminal_inv d" and ins: "insert_bed_row b d = Inr d'"
    and "b_status b \<in> {''occupied'', ''available''}"
  shows "terminal_inv d'"
proof -
  have d': "d' = d\<lparr>beds := beds d @ [b]\<rparr>" and fresh: "b_id b \<notin> b_id ` set (beds d)"
    using ins by (auto simp: insert_bed_row_def split: if_splits)
  note parts = terminal_inv_parts [OF inv]
  have "\<forall>v\<in>set (reservations d). b_id b \<noteq> v_bed_id v"
    using schema_ok_reservation [OF booking_inv_parts(1) [OF parts(1)]] fresh by (metis imageI)
  then have "live_status_agrees d'"
    using parts(3) d' by (auto simp: live_status_agrees_def)
  moreover have "reserved_backed d'"
    using parts(2) assms(3) d' by (auto simp: reserved_backed_def)
  ultimately show ?thesis
    using insert_bed_row_inv [OF parts(1) ins] by (simp add: terminal_inv_def)
qed

lemma db_step_terminal_inv:
  "db_step terminal_statuses d d' \<Longrightarrow> terminal_inv d \<Longrightarrow> terminal_inv d'"
proof (induction rule: db_step.induct)
  case (referral i caseworker region needs vulnerability family now d d')
  then show ?case using insert_referral_row_terminal_inv by (blast elim: insert_referral_Inr_row)
next
  case (allocation locked i now bed d a d')
  then show ?case by (blast intro: allocate_tx_terminal_inv)
next
  case (event e bed ns sq now d sh av d')
  then show ?case
    by (intro apply_tx_terminal_inv [OF event(3) _ event(1)])
       (auto simp: terminal_statuses_def)
next
  case (shelter s d d')
  moreover have "reservations d' = reservations d" "beds d' = beds d"
    using shelter(1) by (auto simp: insert_shelter_row_def split: if_splits)
  ultimately show ?case
    by (simp add: terminal_inv_def reserved_backed_def live_status_agrees_def
        insert_shelter_row_inv [of d s d'])
qed (blast intro: insert_bed_row_terminal_inv reordered_terminal_inv)+

lemma db_step_extends: "db_step A d d' \<Longrightarrow> extends d d'"
proof (induction rule: db_step.induct)
  case (referral i caseworker region needs vulnerability family now d d')
  then show ?case by (blast elim: insert_referral_Inr_row intro: insert_extends)
next
  case (allocation locked i now bed d a d')
  then show ?case by (cases rule: allocate_tx_cases) (simp_all add: award_extends)
next
  case (event e bed ns sq now d sh av d')
  from event(1) show ?case by (cases rule: apply_tx_cases) (simp_all add: applied_db_extends)
qed (blast intro: insert_extends reordered_extends)+

interpretation booking: db_invariant UNIV booking_inv
  by unfold_locales (use empty_db_inv db_step_booking_inv in \<open>auto simp: terminal_inv_def\<close>)

interpretation terminal: db_invariant terminal_statuses terminal_inv
  by unfold_locales (use empty_db_inv db_step_terminal_inv in auto)

lemma db_steps_extends: "(db_step A)\<^sup>*\<^sup>* d d' \<Longrightarrow> extends d d'"
  by (induction rule: rtranclp_induct) (auto intro: extends_trans db_step_extends)

subsection \<open>Sessions among other sessions\<close>

text \<open>
  The other sessions only run transactions of the program; a session's own transactions are
  program transactions too.
\<close>

definition fair_script :: "BedStatus set \<Rightarrow> script \<Rightarrow> bool" where
  "fair_script A s \<longleftrightarrow> (\<forall>k d. (db_step A)\<^sup>*\<^sup>* d (mv_interfere (s k) d))"

definition program_tx :: "BedStatus set \<Rightarrow> 'a tx \<Rightarrow> bool" where
  "program_tx A q \<longleftrightarrow> (\<forall>d. (db_step A)\<^sup>*\<^sup>* d (snd (q d)))"

lemma alone_fair: "alone s \<Longrightarrow> fair_script A s"
  by (simp add: alone_def fair_script_def)

lemma exec_steps:
  assumes "fair_script A s" and "\<And>m. program_tx A (q m)" and "exec s q st = (r, st')"
  shows "(db_step A)\<^sup>*\<^sup>* (pool st) (pool st')"
proof -
  let ?d = "mv_interfere (s (pos st)) (pool st)"
  have "(db_step A)\<^sup>*\<^sup>* (pool st) ?d" using assms(1) by (simp add: fair_script_def)
  moreover have "(db_step A)\<^sup>*\<^sup>* ?d (pool st')"
    using exec_pool [OF assms(3)] assms(2) by (auto simp: program_tx_def)
  ultimately show ?thesis by simp
qed

lemma allocate_tx_program: "program_tx A (allocate_tx locked i now bed)"
  unfolding program_tx_def
proof
  fix d
  obtain res d' where tx: "allocate_tx locked i now bed d = (res, d')" by fastforce
  then show "(db_step A)\<^sup>*\<^sup>* d (snd (allocate_tx locked i now bed d))"
  proof (cases rule: allocate_tx_cases)
    case (won b s u r)
    with tx have "db_step A d d'" by (auto intro: db_step.allocation)
    with tx show ?thesis by auto
  qed (simp_all add: tx)
qed

lemma apply_tx_program: "ns \<in> A \<Longrightarrow> program_tx A (apply_tx e bed ns sq now)"
  unfolding program_tx_def
proof
  fix d
  assume "ns \<in> A"
  obtain res d' where tx: "apply_tx e bed ns sq now d = (res, d')" by fastforce
  then show "(db_step A)\<^sup>*\<^sup>* d (snd (apply_tx e bed ns sq now d))"
  proof (cases rule: apply_tx_cases)
    case (applied b)
    with tx \<open>ns \<in> A\<close> have "db_step A d d'" by (auto intro: db_step.event)
    with tx show ?thesis by auto
  qed (simp_all add: tx)
qed

lemma insert_referral_program:
  "program_tx A (insert_referral i caseworker region needs vulnerability family now)"
  unfolding program_tx_def
proof
  fix d
  let ?q = "insert_referral i caseworker region needs vulnerability family now d"
  show "(db_step A)\<^sup>*\<^sup>* d (snd ?q)"
  proof (cases "fst ?q")
    case (Inl e)
    then show ?thesis by (auto simp: insert_referral_def lift_insert_def split: sum.splits)
  next
    case (Inr u)
    then have "?q = (Inr (), snd ?q)" by (simp add: prod_eq_iff)
    then show ?thesis using db_step.referral by blast
  qed
qed

lemma read_only_program:
  "program_tx A (candidate_bed region needs)" "program_tx A (final_outcome referral)"
  "program_tx A (available_count_tx region)" "program_tx A (region_of_shelter_tx shelter)"
  by (auto simp: program_tx_def candidate_bed_def final_outcome_def available_count_tx_def
      region_of_shelter_tx_def lift_sqlx_def split: sum.splits)

lemmas program_txs = allocate_tx_program apply_tx_program insert_referral_program read_only_program

end
