(* ===== verification/Progress.thy ===== *)
theory Progress
  imports System
begin

section \<open>Allocation never fails\<close>

text \<open>
  Under the booking invariant the unique indexes, the foreign keys, the text columns and the
  debug assertion can never stop an allocation: with a fresh reservation id it returns normally,
  and it awards the bed exactly if the bed is available and somebody eligible is waiting.
\<close>

lemma insert_reservation_ok:
  assumes inv: "booking_inv d" and "i \<notin> v_id ` set (reservations d)"
    and b: "b \<in> set (beds d)" "b_status b = ''available''"
    and r: "r \<in> set (referrals d)" "r_status r = ''pending''"
  shows "insert_reservation_row (new_reservation i (b_id b) (r_id r) now) d =
    Inr (d\<lparr>reservations := reservations d @ [new_reservation i (b_id b) (r_id r) now]\<rparr>)"
proof -
  have bed_free: "\<forall>w\<in>set (reservations d). is_active w \<longrightarrow> b_id b \<noteq> v_bed_id w"
    using inv b is_active_live unfolding booking_inv_def free_beds_unheld_def
    by (metis insert_iff)
  have referral_free: "\<forall>w\<in>set (reservations d). is_active w \<longrightarrow> r_id r \<noteq> v_referral_id w"
    using pending_not_live [OF inv r(1)] r(2) is_active_live by force
  note ok = booking_inv_parts(1) [OF inv]
  have "unique_where v_bed_id is_active (reservations d)"
    "unique_where v_referral_id is_active (reservations d)"
    using ok by (simp_all add: schema_ok_def)
  moreover have "reservation_status_check ''active''" by (simp add: reservation_status_check_def)
  ultimately show ?thesis
    using assms(2) bed_free referral_free b(1) r(1)
    by (auto simp: insert_reservation_row_def unique_where_append)
qed

lemma bed_readable:
  assumes "schema_ok d" "b \<in> set (beds d)"
  obtains s u where "s \<in> set (shelters d)" "s_id s = b_shelter_id b"
    "fetch_optional (filter (\<lambda>s. s_id s = b_shelter_id b) (shelters d)) = Some s"
    "UnitType_from_db_str (b_unit_type b) = Inr u"
proof -
  obtain s where s: "s \<in> set (shelters d)" "s_id s = b_shelter_id b"
    using schema_ok_bed [OF assms] by blast
  then have "fetch_optional (filter (\<lambda>x. s_id x = s_id s) (shelters d)) = Some s"
    by (intro fetch_by_key) (simp_all add: schema_ok_keys [OF assms(1)])
  moreover obtain u where "UnitType_from_db_str (b_unit_type b) = Inr u"
    using schema_ok_bed [OF assms] unit_type_check_parses by (auto simp: bed_check_def)
  ultimately show thesis using s that by simp
qed

text \<open>The people waiting for a bed, and those of them whose row is not locked.\<close>

definition waiting :: "db \<Rightarrow> bed_row \<Rightarrow> referral_row \<Rightarrow> bool" where
  "waiting d b r \<longleftrightarrow> r \<in> set (referrals d) \<and> r_status r = ''pending'' \<and>
     (\<exists>s\<in>set (shelters d). s_id s = b_shelter_id b \<and> suits b (s_region s) r)"

lemma choose_waiting:
  assumes ok: "schema_ok d" and s: "s \<in> set (shelters d)" "s_id s = b_shelter_id b"
    and u: "UnitType_from_db_str (b_unit_type b) = Inr u"
  shows "choose_referral locked (s_region s) (attrs_of u b) d = Some r \<Longrightarrow>
      waiting d b r \<and> \<not> locked (r_id r) \<and>
      (\<forall>q. waiting d b q \<longrightarrow> \<not> locked (r_id q) \<longrightarrow> order_key r \<le> order_key q)"
    and "choose_referral locked (s_region s) (attrs_of u b) d = None \<longleftrightarrow>
      (\<forall>q. waiting d b q \<longrightarrow> locked (r_id q))"
proof -
  have one: "s' = s" if "s' \<in> set (shelters d)" "s_id s' = b_shelter_id b" for s'
    using distinct_key_eq [OF schema_ok_keys(1) [OF ok] that(1) s(1)] that(2) s(2) by simp
  have waits: "waiting d b q \<longleftrightarrow>
      q \<in> set (referrals d) \<and> pending_filter (s_region s) (attrs_of u b) q" for q
    unfolding waiting_def pending_filter_suits [OF u] using one s by blast
  show "choose_referral locked (s_region s) (attrs_of u b) d = Some r \<Longrightarrow>
      waiting d b r \<and> \<not> locked (r_id r) \<and>
      (\<forall>q. waiting d b q \<longrightarrow> \<not> locked (r_id q) \<longrightarrow> order_key r \<le> order_key q)"
    unfolding waits
    using choose_referral_Some [of locked "s_region s" "attrs_of u b" d r] by blast
  show "choose_referral locked (s_region s) (attrs_of u b) d = None \<longleftrightarrow>
      (\<forall>q. waiting d b q \<longrightarrow> locked (r_id q))"
    unfolding waits choose_referral_None by blast
qed

lemma allocate_tx_awards:
  assumes inv: "booking_inv d" and fresh: "i \<notin> v_id ` set (reservations d)"
    and b: "b \<in> set (beds d)" "b_status b = ''available''"
    and some: "waiting d b q" "\<not> locked (r_id q)"
  shows "\<exists>r. waiting d b r \<and> \<not> locked (r_id r) \<and>
    (\<forall>p. waiting d b p \<longrightarrow> \<not> locked (r_id p) \<longrightarrow> order_key r \<le> order_key p) \<and>
    allocate_tx locked i now (b_id b) d =
      (Inr (Some \<lparr>bed_id = b_id b, shelter_id = b_shelter_id b, referral_id = r_id r\<rparr>),
       award (new_reservation i (b_id b) (r_id r) now) d)"
proof -
  note ok = booking_inv_parts(1) [OF inv]
  obtain s u where su: "s \<in> set (shelters d)" "s_id s = b_shelter_id b"
    "fetch_optional (filter (\<lambda>s. s_id s = b_shelter_id b) (shelters d)) = Some s"
    "UnitType_from_db_str (b_unit_type b) = Inr u"
    by (rule bed_readable [OF ok b(1)])
  note choose = choose_waiting [OF ok su(1,2,4)]
  obtain r where r: "choose_referral locked (s_region s) (attrs_of u b) d = Some r"
    using choose(2) some by (metis not_None_eq)
  note w = choose(1) [OF r]
  have "insert_reservation_row (new_reservation i (b_id b) (r_id r) now) d =
      Inr (d\<lparr>reservations := reservations d @ [new_reservation i (b_id b) (r_id r) now]\<rparr>)"
    using insert_reservation_ok [OF inv fresh b, of r now] w by (auto simp: waiting_def)
  with allocate_tx_decides [OF bed_by_id [OF ok b(1)] b(2) su(3,4), of locked i now] r w
  show ?thesis by auto
qed

lemma allocate_tx_nobody:
  assumes ok: "schema_ok d" and b: "b \<in> set (beds d)"
    and none: "b_status b = ''available'' \<Longrightarrow> \<forall>q. waiting d b q \<longrightarrow> locked (r_id q)"
  shows "allocate_tx locked i now (b_id b) d = (Inr None, d)"
proof (cases "b_status b = ''available''")
  case False
  with allocate_tx_early(2) [OF bed_by_id [OF ok b]] show ?thesis by blast
next
  case True
  obtain s u where su: "s \<in> set (shelters d)" "s_id s = b_shelter_id b"
    "fetch_optional (filter (\<lambda>s. s_id s = b_shelter_id b) (shelters d)) = Some s"
    "UnitType_from_db_str (b_unit_type b) = Inr u"
    by (rule bed_readable [OF ok b])
  from choose_waiting(2) [OF ok su(1,2,4)] none [OF True]
  have "choose_referral locked (s_region s) (attrs_of u b) d = None" by blast
  with allocate_tx_decides [OF bed_by_id [OF ok b] True su(3,4)] show ?thesis by simp
qed

lemma allocate_tx_total:
  assumes inv: "booking_inv d" and fresh: "i \<notin> v_id ` set (reservations d)"
  shows "\<exists>a d'. allocate_tx locked i now bed d = (Inr a, d')"
proof (cases "\<exists>b\<in>set (beds d). b_id b = bed")
  case False
  then have "fetch_optional (filter (\<lambda>b. b_id b = bed) (beds d)) = None"
    by (simp add: filter_empty_conv)
  then show ?thesis using allocate_tx_early(1) by blast
next
  case True
  then obtain b where b: "b \<in> set (beds d)" "b_id b = bed" by blast
  show ?thesis
  proof (cases "b_status b = ''available'' \<and> (\<exists>q. waiting d b q \<and> \<not> locked (r_id q))")
    case True
    then obtain q where q: "b_status b = ''available''" "waiting d b q" "\<not> locked (r_id q)" by blast
    from allocate_tx_awards [where locked = locked, OF inv fresh b(1) q] b(2) show ?thesis by blast
  next
    case False
    with allocate_tx_nobody [OF booking_inv_parts(1) [OF inv] b(1), of locked i now] b(2)
    show ?thesis by blast
  qed
qed

subsection \<open>Who is put back in line\<close>

text \<open>After a releasing event the client of the bed waits again, for this bed among others.\<close>

lemma released_waits:
  assumes inv: "booking_inv d" and ns: "releasing ns"
    and v: "v \<in> set (reservations d)" "is_live v" "v_bed_id v = bed"
  obtains b r where "b \<in> set (beds (applied_db event bed ns sq now d))" "b_id b = bed"
    "b_status b = BedStatus_as_db_str ns" "waiting (applied_db event bed ns sq now d) b r"
    "r_id r = v_referral_id v"
proof -
  obtain b s r where *: "b \<in> set (beds d)" "s \<in> set (shelters d)" "r \<in> set (referrals d)"
    "b_id b = v_bed_id v" "s_id s = b_shelter_id b" "r_id r = v_referral_id v"
    "suits b (s_region s) r"
    using booking_inv_parts(5) [OF inv] v(1) by (auto simp: booking_suits_def)
  let ?b = "b\<lparr>b_status := BedStatus_as_db_str ns, b_last_event_sequence := sq\<rparr>"
  let ?r = "r\<lparr>r_status := ''pending''\<rparr>"
  have b: "?b \<in> set (beds (applied_db event bed ns sq now d))"
    unfolding applied_db_tables in_update_where using *(1,4) v(3) by (intro bexI [of _ b]) simp_all
  have r: "?r \<in> set (referrals (applied_db event bed ns sq now d))"
    unfolding applied_db_tables referrals_after_releasing [OF inv ns v] in_update_where
    using *(3,6) by (intro bexI [of _ r]) simp_all
  have "suits ?b (s_region s) ?r" using *(7) by (simp add: suits_def)
  then have "waiting (applied_db event bed ns sq now d) ?b ?r"
    using r *(2,5) by (auto simp: waiting_def applied_db_tables)
  then show thesis using that [of ?b ?r] b * v(3) by simp
qed

end
