(* ===== verification/Submission.thy ===== *)
theory Submission
  imports Progress
begin

section \<open>What a submission guarantees\<close>

text \<open>
  The locale \<open>session_guarantee\<close>: what every database access of a session guarantees, and so the
  whole of \<open>submit_referral\<close>; its first interpretations.
\<close>

subsection \<open>Guarantees of a session as an interface\<close>

text \<open>
  A relation between the states before and after an operation that every single access of the
  matcher keeps, and that composes, holds of the operations built from these accesses.
\<close>

locale session_guarantee =
  fixes s :: script and R :: "AppState \<Rightarrow> AppState \<Rightarrow> bool"
  assumes refl: "R st st"
    and trans: "R st st' \<Longrightarrow> R st' st'' \<Longrightarrow> R st st''"
    and insertion: "exec s (\<lambda>m. insert_referral i cw rg nd vu fa (mv_now m)) st = (x1, st') \<Longrightarrow> R st st'"
    and candidate: "exec s (\<lambda>_. candidate_bed rg nd) st = (x2, st') \<Longrightarrow> R st st'"
    and resolution: "resolve_final_outcome s i st = (x3, st') \<Longrightarrow> R st st'"
    and allocation: "allocate_for_bed s b st = (x4, st') \<Longrightarrow> R st st'"
    and region: "region_of_shelter s sh st = (x5, st') \<Longrightarrow> R st st'"
    and count: "available_count_in_region s rg st = (x6, st') \<Longrightarrow> R st st'"
begin

lemma submit_loop_R:
  "submit_loop n s i rg nd side st = (x, st') \<Longrightarrow> R st st'"
proof (induction n arbitrary: side st)
  case 0
  then show ?case by (auto elim!: try_bind_cases dest: resolution)
next
  case (Suc n)
  let ?alloc = "\<lambda>allocation st. case allocation of
      Some result \<Rightarrow> if referral_id result = i then (Inr (Matched result, side), st)
        else submit_loop n s i rg nd (side @ [result]) st
    | None \<Rightarrow> submit_loop n s i rg nd side st"
  have alloc: "R st1 st'" if "?alloc a st1 = (x, st')" for a st1
    using that Suc.IH refl by (auto split: option.splits if_splits)
  have search: "R st1 st'"
    if "(case c of None \<Rightarrow> try_bind (resolve_final_outcome s i st1) (\<lambda>outcome st. (Inr (outcome, side), st))
         | Some bed \<Rightarrow> try_bind (allocate_for_bed s bed st1) ?alloc) = (x, st')" for c st1
  proof (cases c)
    case None
    with that show ?thesis by (auto elim!: try_bind_cases dest: resolution)
  next
    case (Some bed)
    with that have "try_bind (allocate_for_bed s bed st1) ?alloc = (x, st')" by simp
    then show ?thesis
      by (rule try_bind_cases) (use allocation alloc trans in blast)+
  qed
  from Suc.prems show ?case
    unfolding submit_loop.simps
    by (rule try_bind_cases) (use candidate search trans in blast)+
qed

lemma submit_referral_R:
  "submit_referral s cw rg nd vu fa st = (x, st') \<Longrightarrow> R st st'"
  unfolding submit_referral_def Let_def
  by (erule try_bind_cases) (use insertion submit_loop_R trans in blast)+

end

text \<open>The guarantee that all changes of the database are transactions of the program.\<close>

definition by_program :: "BedStatus set \<Rightarrow> script \<Rightarrow> AppState \<Rightarrow> AppState \<Rightarrow> bool" where
  "by_program A s st st' \<longleftrightarrow> (fair_script A s \<longrightarrow> (db_step A)\<^sup>*\<^sup>* (pool st) (pool st'))"

lemma exec_by_program:
  "(\<And>m. program_tx A (q m)) \<Longrightarrow> exec s q st = (r, st') \<Longrightarrow> by_program A s st st'"
  unfolding by_program_def using exec_steps by blast

interpretation by_program: session_guarantee s "by_program A s" for A s
proof
  show "by_program A s st st'" if "exec s (\<lambda>m. insert_referral i cw rg nd vu fa (mv_now m)) st = (x1, st')"
    for i cw rg nd vu fa st x1 st'
    using exec_by_program [OF _ that] insert_referral_program by blast
  show "by_program A s st st'" if "exec s (\<lambda>_. candidate_bed rg nd) st = (x2, st')" for rg nd st x2 st'
    using exec_by_program [OF _ that] read_only_program(1) by blast
  show "by_program A s st st'" if "resolve_final_outcome s i st = (x3, st')" for i st x3 st'
    using exec_by_program [OF _ that [unfolded resolve_final_outcome_def]] read_only_program(2) by blast
  show "by_program A s st st'" if "allocate_for_bed s b st = (x4, st')" for b st x4 st'
    using exec_by_program [OF _ that [unfolded allocate_for_bed_def]] allocate_tx_program by blast
  show "by_program A s st st'" if "region_of_shelter s sh st = (x5, st')" for sh st x5 st'
    using exec_by_program [OF _ that [unfolded region_of_shelter_def]] read_only_program(4) by blast
  show "by_program A s st st'" if "available_count_in_region s rg st = (x6, st')" for rg st x6 st'
    using exec_by_program [OF _ that [unfolded available_count_in_region_def]] read_only_program(3) by blast
qed (auto simp: by_program_def)

text \<open>The guarantee that nothing is sent to the subscribers but what the other tasks send.\<close>

definition silently :: "script \<Rightarrow> AppState \<Rightarrow> AppState \<Rightarrow> bool" where
  "silently s st st' \<longleftrightarrow> pos st \<le> pos st' \<and>
     availability_tx st' = availability_tx st @ sent_by_others s (pos st) (pos st')"

lemma exec_silently: "exec s q st = (r, st') \<Longrightarrow> silently s st st'"
  by (simp add: silently_def exec_frame)

lemma silently_trans: "silently s st st1 \<Longrightarrow> silently s st1 st2 \<Longrightarrow> silently s st st2"
  using sent_by_others_append by (auto simp: silently_def)

interpretation silent: session_guarantee s "silently s" for s
  by unfold_locales
     (auto simp: resolve_final_outcome_def allocate_for_bed_def region_of_shelter_def
       available_count_in_region_def silently_def [of _ st st for st] intro: exec_silently
       silently_trans)

subsection \<open>The outcome is what the database says\<close>

text \<open>A referral holds a bed: a live reservation joins them.\<close>

definition holds :: "db \<Rightarrow> AllocationResult \<Rightarrow> bool" where
  "holds d a \<longleftrightarrow>
     (\<exists>v\<in>set (reservations d). is_live v \<and> v_referral_id v = referral_id a \<and> v_bed_id v = bed_id a) \<and>
     (\<exists>b\<in>set (beds d). b_id b = bed_id a \<and> b_shelter_id b = shelter_id a)"

definition unmatched :: "db \<Rightarrow> uuid \<Rightarrow> bool" where
  "unmatched d i \<longleftrightarrow> (\<forall>v\<in>set (reservations d). v_referral_id v = i \<longrightarrow> \<not> is_live v)"

fun outcome_true :: "db \<Rightarrow> uuid \<Rightarrow> SubmitOutcome \<Rightarrow> bool" where
  "outcome_true d i (Matched a) \<longleftrightarrow> referral_id a = i \<and> holds d a"
| "outcome_true d i (Pending j) \<longleftrightarrow> j = i \<and> unmatched d i"

lemma in_reservations_join_beds:
  "(v, b) \<in> set (reservations_join_beds d) \<longleftrightarrow>
     v \<in> set (reservations d) \<and> b \<in> set (beds d) \<and> b_id b = v_bed_id v"
  by (auto simp: reservations_join_beds_def)

lemma final_outcome_true:
  assumes "schema_ok d" and "final_outcome i d = (Inr out, d')"
  shows "d' = d \<and> outcome_true d i out"
proof (cases "fetch_optional (filter (\<lambda>(v, b). v_referral_id v = i \<and> is_live v)
    (reservations_join_beds d))")
  case None
  have "unmatched d i"
    unfolding unmatched_def
  proof (intro ballI impI notI)
    fix v assume v: "v \<in> set (reservations d)" "v_referral_id v = i" "is_live v"
    then obtain b where "b \<in> set (beds d)" "b_id b = v_bed_id v"
      using schema_ok_reservation [OF assms(1)] by blast
    with v have "(v, b) \<in> set (reservations_join_beds d)"
      by (simp add: in_reservations_join_beds)
    with v(2,3) None show False by (auto simp: filter_empty_conv)
  qed
  with None assms(2) show ?thesis by (auto simp: final_outcome_def)
next
  case (Some vb)
  obtain v b where vb: "vb = (v, b)" by (cases vb)
  from fetch_filter_Some [OF Some] have "v \<in> set (reservations d)" "b \<in> set (beds d)"
    "b_id b = v_bed_id v" "v_referral_id v = i" "is_live v"
    by (auto simp: vb in_reservations_join_beds)
  with Some assms(2) show ?thesis by (auto simp: final_outcome_def vb holds_def)
qed

lemma resolve_final_outcome_true:
  assumes "resolve_final_outcome s i st = (Inr out, st')" and "schema_ok (pool st')"
  shows "outcome_true (pool st') i out"
proof -
  obtain d where d: "final_outcome i (mv_interfere (s (pos st)) (pool st)) = (Inr out, d)"
    "pool st' = d"
    using assms(1) by (auto simp: resolve_final_outcome_def exec_Inr)
  moreover have "mv_interfere (s (pos st)) (pool st) = d"
    using d(1) by (simp add: final_outcome_def)
  ultimately show ?thesis using final_outcome_true assms(2) by metis
qed

lemma allocate_for_bed_holds:
  assumes "allocate_for_bed s bed st = (Inr (Some a), st')"
  shows "holds (pool st') a" "bed_id a = bed"
proof -
  let ?m = "s (pos st)" and ?d = "mv_interfere (s (pos st)) (pool st)"
  have tx: "allocate_tx (mv_locked ?m) (mv_uuid ?m) (mv_now ?m) bed ?d = (Inr (Some a), pool st')"
    using assms by (auto simp: allocate_for_bed_def exec_Inr)
  have "holds (pool st') a \<and> bed_id a = bed"
    using tx
  proof (cases rule: allocate_tx_cases)
    case (won b sh u r)
    have "\<exists>b'\<in>set (beds (pool st')). bed_static b' = bed_static b"
      using extendsD(1) [OF award_extends won(1)] won(10) by simp
    with won show ?thesis
      by (auto simp: holds_def award_tables bed_static_eq intro!: bexI)
  qed simp_all
  then show "holds (pool st') a" "bed_id a = bed" by simp_all
qed

lemma submit_loop_outcome:
  assumes "submit_loop n s i rg nd side st = (Inr (out, side'), st')" and "schema_ok (pool st')"
  shows "outcome_true (pool st') i out \<and>
    (\<exists>more. side' = side @ more \<and> length more \<le> n \<and> (\<forall>a\<in>set more. referral_id a \<noteq> i))"
  using assms
proof (induction n arbitrary: side st)
  case 0
  then show ?case
    using resolve_final_outcome_true by (auto simp: try_bind_Inr)
next
  case (Suc n)
  from Suc.prems(1) obtain c st1 where c: "exec s (\<lambda>_. candidate_bed rg nd) st = (Inr c, st1)"
    and k: "(case c of
         None \<Rightarrow> try_bind (resolve_final_outcome s i st1) (\<lambda>outcome st. (Inr (outcome, side), st))
       | Some bed \<Rightarrow> try_bind (allocate_for_bed s bed st1) (\<lambda>allocation st. case allocation of
             Some result \<Rightarrow> if referral_id result = i then (Inr (Matched result, side), st)
               else submit_loop n s i rg nd (side @ [result]) st
           | None \<Rightarrow> submit_loop n s i rg nd side st)) = (Inr (out, side'), st')"
    by (auto simp: try_bind_Inr)
  show ?case
  proof (cases c)
    case None
    with k Suc.prems(2) show ?thesis
      using resolve_final_outcome_true by (auto simp: try_bind_Inr)
  next
    case (Some bed)
    with k obtain a st2 where a: "allocate_for_bed s bed st1 = (Inr a, st2)"
      and k2: "(case a of Some result \<Rightarrow> if referral_id result = i then (Inr (Matched result, side), st2)
               else submit_loop n s i rg nd (side @ [result]) st2
           | None \<Rightarrow> submit_loop n s i rg nd side st2) = (Inr (out, side'), st')"
      by (auto simp: try_bind_Inr)
    show ?thesis
    proof (cases a)
      case None
      with k2 Suc.IH [OF _ Suc.prems(2)] show ?thesis by (fastforce intro: le_SucI)
    next
      case (Some result)
      show ?thesis
      proof (cases "referral_id result = i")
        case True
        with k2 Some a show ?thesis using allocate_for_bed_holds(1) by auto
      next
        case False
        with k2 Some have "submit_loop n s i rg nd (side @ [result]) st2 = (Inr (out, side'), st')"
          by simp
        from Suc.IH [OF this Suc.prems(2)] False show ?thesis by auto
      qed
    qed
  qed
qed

lemma submit_referral_outcome:
  assumes "submit_referral s cw rg nd vu fa st = (Inr (out, side), st')" and "schema_ok (pool st')"
  shows "outcome_true (pool st') (mv_uuid (s (pos st))) out \<and> length side \<le> 500 \<and>
    (\<forall>a\<in>set side. referral_id a \<noteq> mv_uuid (s (pos st)))"
proof -
  obtain st1 where "submit_loop 500 s (mv_uuid (s (pos st))) rg nd [] st1 = (Inr (out, side), st')"
    using assms(1) by (auto simp: submit_referral_def Let_def try_bind_Inr)
  from submit_loop_outcome [OF this assms(2)] show ?thesis by auto
qed

subsection \<open>The number of transactions\<close>

lemma submit_loop_pos:
  "submit_loop n s i rg nd side st = (x, st') \<Longrightarrow> pos st' \<le> pos st + 2 * n + 1"
proof (induction n arbitrary: side st)
  case 0
  then show ?case
    by (auto elim!: try_bind_cases simp: resolve_final_outcome_def dest: exec_frame(2))
next
  case (Suc n)
  let ?k = "\<lambda>c st1. case c of
         None \<Rightarrow> try_bind (resolve_final_outcome s i st1) (\<lambda>outcome st. (Inr (outcome, side), st))
       | Some bed \<Rightarrow> try_bind (allocate_for_bed s bed st1) (\<lambda>allocation st. case allocation of
             Some result \<Rightarrow> if referral_id result = i then (Inr (Matched result, side), st)
               else submit_loop n s i rg nd (side @ [result]) st
           | None \<Rightarrow> submit_loop n s i rg nd side st)"
  have k: "pos st' \<le> pos st1 + 2 * n + 2" if kk: "?k c st1 = (x, st')" for c st1
  proof (cases c)
    case None
    with that show ?thesis
      by (auto elim!: try_bind_cases simp: resolve_final_outcome_def dest: exec_frame(2))
  next
    case (Some bed)
    have IH: "submit_loop n s i rg nd sd st2 = (x, st') \<Longrightarrow> pos st2 = Suc (pos st1) \<Longrightarrow>
        pos st' \<le> pos st1 + 2 * n + 2" for sd st2
      using Suc.IH by fastforce
    from kk [unfolded Some option.case] show ?thesis
      by (rule try_bind_cases)
         (use IH in \<open>auto simp: allocate_for_bed_def dest!: exec_frame(2) split: option.splits if_splits\<close>)
  qed
  from Suc.prems show ?case
    unfolding submit_loop.simps
    by (rule try_bind_cases) (use k exec_frame(2) in fastforce)+
qed

lemma submit_referral_pos:
  "submit_referral s cw rg nd vu fa st = (x, st') \<Longrightarrow> pos st' \<le> pos st + 1002"
  unfolding submit_referral_def Let_def
  by (erule try_bind_cases) (use exec_frame(2) submit_loop_pos in fastforce)+

end
