(* ===== verification/Quiescence.thy ===== *)
theory Quiescence
  imports Submission
begin

section \<open>Submissions that run alone\<close>

text \<open>
  A database is quiescent when no free bed suits anybody who waits.  This is the state the
  triggers of the allocation are meant to restore: a submission that runs alone keeps it.
\<close>

definition quiescent :: "db \<Rightarrow> bool" where
  "quiescent d \<longleftrightarrow> (\<forall>b\<in>set (beds d). b_status b = ''available'' \<longrightarrow> (\<forall>q. \<not> waiting d b q))"

text \<open>A free bed that meets the criteria of a request.\<close>

definition offers :: "db \<Rightarrow> string \<Rightarrow> ReferralNeeds \<Rightarrow> bed_row \<Rightarrow> bool" where
  "offers d region needs b \<longleftrightarrow>
     b \<in> set (beds d) \<and> b_status b = ''available'' \<and>
     (\<exists>s\<in>set (shelters d). s_id s = b_shelter_id b \<and> candidate_filter region needs (b, s))"

subsection \<open>The candidate query\<close>

lemma in_beds_join_shelters:
  "(b, s) \<in> set (beds_join_shelters d) \<longleftrightarrow>
     b \<in> set (beds d) \<and> s \<in> set (shelters d) \<and> s_id s = b_shelter_id b"
  by (auto simp: beds_join_shelters_def)

definition candidate_rows :: "string \<Rightarrow> ReferralNeeds \<Rightarrow> db \<Rightarrow> (bed_row \<times> shelter_row) list" where
  "candidate_rows region needs d = filter (candidate_filter region needs) (beds_join_shelters d)"

lemma candidate_filter_available: "candidate_filter region needs (b, s) \<Longrightarrow> b_status b = ''available''"
  by (simp add: candidate_filter_def)

lemma offers_rows:
  "offers d region needs b \<longleftrightarrow> (\<exists>s. (b, s) \<in> set (candidate_rows region needs d))"
  unfolding offers_def candidate_rows_def set_filter
  by (auto simp: in_beds_join_shelters dest: candidate_filter_available)

lemma offers_row:
  "x \<in> set (candidate_rows region needs d) \<Longrightarrow> offers d region needs (fst x)"
  by (cases x) (auto simp: offers_rows)

lemma candidate_bed_rows:
  "candidate_bed region needs d = (Inr (map_option (\<lambda>x. b_id (fst x))
     (fetch_optional (sort_key (\<lambda>x. b_id (fst x)) (candidate_rows region needs d)))), d)"
  by (simp add: candidate_bed_def candidate_rows_def case_prod_unfold)

lemma candidate_bed_None:
  "candidate_bed region needs d = (Inr None, d') \<longleftrightarrow> d' = d \<and> (\<forall>b. \<not> offers d region needs b)"
proof -
  have "candidate_rows region needs d = [] \<longleftrightarrow> (\<forall>b. \<not> offers d region needs b)"
    unfolding offers_rows by (cases "candidate_rows region needs d") auto
  then have "fetch_optional (sort_key (\<lambda>x. b_id (fst x)) (candidate_rows region needs d)) = None
      \<longleftrightarrow> (\<forall>b. \<not> offers d region needs b)"
    unfolding sort_key_fetch_None .
  then show ?thesis
    unfolding candidate_bed_rows prod.inject sum.inject option.map_disc_iff by blast
qed

lemma candidate_bed_Some:
  assumes "candidate_bed region needs d = (Inr (Some bed), d')"
  shows "d' = d" "\<exists>b. offers d region needs b \<and> b_id b = bed"
    "\<forall>b. offers d region needs b \<longrightarrow> bed \<le> b_id b"
proof -
  obtain x where x: "fetch_optional (sort_key (\<lambda>x. b_id (fst x)) (candidate_rows region needs d)) = Some x"
      and bed: "b_id (fst x) = bed" and d': "d' = d"
    using assms unfolding candidate_bed_rows prod.inject sum.inject map_option_eq_Some by blast
  note m = sort_key_hd_min [OF x]
  show "d' = d" by (rule d')
  show "\<exists>b. offers d region needs b \<and> b_id b = bed"
    using offers_row [OF m(1)] bed by blast
  show "\<forall>b. offers d region needs b \<longrightarrow> bed \<le> b_id b"
    using m(2) bed unfolding offers_rows by (metis fst_conv)
qed

lemma candidate_bed_total: "\<exists>c. candidate_bed region needs d = (Inr c, d)"
  by (simp add: candidate_bed_def)

lemma smallest_candidate:
  assumes b: "offers d region needs b" "\<forall>c. offers d region needs c \<longrightarrow> b_id b \<le> b_id c"
  shows "candidate_bed region needs d = (Inr (Some (b_id b)), d)"
proof -
  obtain bed where c: "candidate_bed region needs d = (Inr (Some bed), d)"
    using candidate_bed_total candidate_bed_None b(1) by (metis not_None_eq)
  obtain b' where "offers d region needs b'" "b_id b' = bed" using candidate_bed_Some(2) [OF c] by blast
  with candidate_bed_Some(3) [OF c] b have "bed = b_id b" by (metis order.antisym)
  with c show ?thesis by simp
qed

lemma new_referral_inserted:
  assumes "i \<notin> r_id ` set (referrals d)"
  obtains d' r where "insert_referral i caseworker region needs vulnerability family now d = (Inr (), d')"
    "insert_referral_row r d = Inr d'" "r_status r = ''pending''" "r_id r = i"
    "r_vulnerability_score r = vulnerability"
proof -
  obtain d' where ins: "insert_referral i caseworker region needs vulnerability family now d = (Inr (), d')"
    using assms by (simp add: insert_referral_def insert_referral_row_def referral_check_def
        referral_status_check_def)
  then obtain r where "insert_referral_row r d = Inr d'" "r_status r = ''pending''" "r_id r = i"
    "r_vulnerability_score r = vulnerability" by (rule insert_referral_Inr_row)
  with ins show thesis by (rule that)
qed

lemma candidate_filter_suits:
  assumes "needs_of (unit_type_required needs) r = needs" "r_region r = region"
    "r_unit_type_required r = UnitType_as_db_str (unit_type_required needs)"
  shows "candidate_filter region needs (b, s) \<longleftrightarrow>
    b_status b = ''available'' \<and> s_region s = region \<and> suits b (s_region s) r"
proof -
  have "needs_pet_friendly needs = r_needs_pet_friendly r"
    "needs_sobriety_free needs = r_needs_sobriety_free r"
    "needs_ada_accessible needs = r_needs_ada_accessible r"
    using assms(1) by (metis needs_of_sel)+
  with assms(2,3) show ?thesis by (auto simp: candidate_filter_def suits_def)
qed

lemma offers_waiting:
  assumes "offers d region needs b" and "r \<in> set (referrals d)" "r_status r = ''pending''"
    and "needs_of (unit_type_required needs) r = needs" "r_region r = region"
      "r_unit_type_required r = UnitType_as_db_str (unit_type_required needs)"
  shows "waiting d b r"
  using assms(1-3) candidate_filter_suits [OF assms(4-6)]
  by (auto simp: offers_def waiting_def)

subsection \<open>A submission in a quiescent database\<close>

lemma alone_fault: "alone s \<Longrightarrow> mv_fault (s k) = None" "alone s \<Longrightarrow> mv_locked (s k) = (\<lambda>_. False)"
  by (simp_all add: alone_def)

lemma award_waiting:
  assumes "waiting (award v d) b' q" "b_status b' = ''available''" "b' \<in> set (beds (award v d))"
  shows "\<exists>b\<in>set (beds d). b_status b = ''available'' \<and> waiting d b q \<and> r_id q \<noteq> v_referral_id v"
proof -
  obtain b where b: "b \<in> set (beds d)"
      "b' = (if b_id b = v_bed_id v then b\<lparr>b_status := ''reserved''\<rparr> else b)"
    using assms(3) by (auto simp: award_tables in_update_where)
  with assms(2) have "b' = b" by (auto split: if_splits)
  obtain r where r: "r \<in> set (referrals d)"
      "q = (if r_id r = v_referral_id v then r\<lparr>r_status := ''matched''\<rparr> else r)"
    using assms(1) by (auto simp: waiting_def award_tables in_update_where)
  with assms(1) have "q = r" "r_id q \<noteq> v_referral_id v" by (auto simp: waiting_def split: if_splits)
  with assms(1,2) b(1) r(1) \<open>b' = b\<close> show ?thesis
    by (auto simp: waiting_def award_tables)
qed

lemma award_quiescent:
  assumes "\<forall>b\<in>set (beds d). b_status b = ''available'' \<longrightarrow>
      (\<forall>q. waiting d b q \<longrightarrow> r_id q = v_referral_id v)"
  shows "quiescent (award v d)"
  unfolding quiescent_def using award_waiting assms by blast

lemma quiescent_only_new:
  assumes "quiescent d" and "d1 = d\<lparr>referrals := referrals d @ [r]\<rparr>"
    and "b \<in> set (beds d1)" "b_status b = ''available''" "waiting d1 b q"
  shows "q = r"
proof (rule ccontr)
  assume "q \<noteq> r"
  with assms(2,5) have "waiting d b q" by (auto simp: waiting_def)
  with assms(1-4) show False by (auto simp: quiescent_def)
qed

lemma submit_loop_once_pending:
  assumes "alone s" and "\<forall>b. \<not> offers (pool st) rg nd b" and "schema_ok (pool st)"
    and "unmatched (pool st) i"
  shows "submit_loop (Suc n) s i rg nd [] st =
    (Inr (Pending i, []), st\<lparr>pos := pos st + 2\<rparr>)"
proof -
  have c: "candidate_bed rg nd (pool st) = (Inr None, pool st)"
    using assms(2) candidate_bed_None by blast
  obtain out where out: "final_outcome i (pool st) = (Inr out, pool st)"
    by (simp add: final_outcome_def)
  with final_outcome_true [OF assms(3)] have "outcome_true (pool st) i out" by blast
  with assms(4) have "out = Pending i"
    by (cases out) (auto simp: holds_def unmatched_def)
  with out c show ?thesis
    by (simp add: exec_alone [OF assms(1)] resolve_final_outcome_def)
qed

lemma submit_loop_once_matched:
  assumes "alone s" and b: "candidate_bed rg nd (pool st) = (Inr (Some bed), pool st)"
    and "allocate_tx (\<lambda>_. False) (mv_uuid (s (Suc (pos st)))) (mv_now (s (Suc (pos st)))) bed (pool st) =
      (Inr (Some a), d')" and "referral_id a = i"
  shows "submit_loop (Suc n) s i rg nd [] st =
    (Inr (Matched a, []), st\<lparr>pool := d', pos := pos st + 2\<rparr>)"
  using assms
  by (simp add: exec_alone [OF assms(1)] allocate_for_bed_def alone_fault(2) [OF assms(1)])

text \<open>
  The answer to a submission in a quiescent database: the free bed with the smallest id that
  meets the criteria, or none; the database is quiescent afterwards.
\<close>

lemma submit_referral_quiescent_Some:
  assumes s: "alone s" and inv: "booking_inv (pool st)" and q: "quiescent (pool st)"
    and i: "mv_uuid (s (pos st)) \<notin> r_id ` set (referrals (pool st))"
    and v: "mv_uuid (s (pos st + 2)) \<notin> v_id ` set (reservations (pool st))"
    and b: "offers (pool st) rg nd b" "\<forall>c. offers (pool st) rg nd c \<longrightarrow> b_id b \<le> b_id c"
  shows "\<exists>st'. submit_referral s cw rg nd vu fa st =
      (Inr (Matched \<lparr>bed_id = b_id b, shelter_id = b_shelter_id b,
                     referral_id = mv_uuid (s (pos st))\<rparr>, []), st') \<and> quiescent (pool st')"
proof -
  let ?i = "mv_uuid (s (pos st))" and ?d = "pool st"
  obtain d1 where ins: "insert_referral ?i cw rg nd vu fa (mv_now (s (pos st))) ?d = (Inr (), d1)"
    using i by (simp add: insert_referral_def insert_referral_row_def referral_check_def
        referral_status_check_def)
  then obtain r where r: "insert_referral_row r ?d = Inr d1" "r_status r = ''pending''" "r_id r = ?i"
    "r_region r = rg" "needs_of (unit_type_required nd) r = nd"
    "r_unit_type_required r = UnitType_as_db_str (unit_type_required nd)"
    by (rule insert_referral_Inr_row)
  note d1 = insert_referral_Inr [OF r(1)]
  have inv1: "booking_inv d1" by (rule insert_referral_row_inv [OF inv r(1,2)])
  have off: "offers d1 rg nd c \<longleftrightarrow> offers ?d rg nd c" for c
    by (simp add: offers_def d1)
  obtain bed where c: "candidate_bed rg nd d1 = (Inr (Some bed), d1)"
    using candidate_bed_total candidate_bed_None b(1) off by (metis not_None_eq)
  obtain b' where b': "offers ?d rg nd b'" "b_id b' = bed"
    using candidate_bed_Some(2) [OF c] off by blast
  have "bed = b_id b" using candidate_bed_Some(3) [OF c] off b b' by (metis order.antisym)
  then have "b' = b"
    using b(1) b' distinct_key_eq [OF schema_ok_keys(2) [OF booking_inv_parts(1) [OF inv]]]
    by (auto simp: offers_def)
  have avail: "b \<in> set (beds d1)" "b_status b = ''available''" using b(1) d1 by (auto simp: offers_def)
  have w: "waiting d1 b r"
    by (rule offers_waiting [of _ rg nd]) (use b(1) off r d1 in auto)
  have only: "\<forall>c\<in>set (beds d1). b_status c = ''available'' \<longrightarrow> (\<forall>q. waiting d1 c q \<longrightarrow> q = r)"
    using quiescent_only_new [OF q d1] by blast
  obtain d2 where a: "allocate_tx (\<lambda>_. False) (mv_uuid (s (pos st + 2))) (mv_now (s (pos st + 2)))
      (b_id b) d1 = (Inr (Some \<lparr>bed_id = b_id b, shelter_id = b_shelter_id b, referral_id = ?i\<rparr>), d2)"
    and d2: "d2 = award (new_reservation (mv_uuid (s (pos st + 2))) (b_id b) ?i
      (mv_now (s (pos st + 2)))) d1"
    using allocate_tx_awards [OF inv1 _ avail w, of "mv_uuid (s (pos st + 2))" "\<lambda>_. False"
        "mv_now (s (pos st + 2))"] only avail v d1 r(3) by fastforce
  let ?st1 = "st\<lparr>pool := d1, pos := Suc (pos st)\<rparr>"
  have "submit_loop (Suc 499) s ?i rg nd [] ?st1 = (Inr (Matched \<lparr>bed_id = b_id b,
      shelter_id = b_shelter_id b, referral_id = ?i\<rparr>, []), ?st1\<lparr>pool := d2, pos := pos ?st1 + 2\<rparr>)"
    by (rule submit_loop_once_matched [OF s, where bed = "b_id b"])
       (use a c \<open>bed = b_id b\<close> in simp_all)
  moreover have "quiescent d2"
    unfolding d2 by (rule award_quiescent) (use only r(3) in auto)
  ultimately show ?thesis
    using ins by (simp add: submit_referral_def Let_def exec_alone [OF s])
qed

lemma submit_referral_quiescent_None:
  assumes s: "alone s" and inv: "booking_inv (pool st)" and q: "quiescent (pool st)"
    and i: "mv_uuid (s (pos st)) \<notin> r_id ` set (referrals (pool st))"
    and none: "\<forall>b. \<not> offers (pool st) rg nd b"
  shows "\<exists>st'. submit_referral s cw rg nd vu fa st =
      (Inr (Pending (mv_uuid (s (pos st))), []), st') \<and> quiescent (pool st')"
proof -
  let ?i = "mv_uuid (s (pos st))" and ?d = "pool st"
  obtain d1 where ins: "insert_referral ?i cw rg nd vu fa (mv_now (s (pos st))) ?d = (Inr (), d1)"
    using i by (simp add: insert_referral_def insert_referral_row_def referral_check_def
        referral_status_check_def)
  then obtain r where r: "insert_referral_row r ?d = Inr d1" "r_status r = ''pending''" "r_id r = ?i"
    "r_region r = rg" "needs_of (unit_type_required nd) r = nd"
    "r_unit_type_required r = UnitType_as_db_str (unit_type_required nd)"
    by (rule insert_referral_Inr_row)
  note d1 = insert_referral_Inr [OF r(1)]
  have inv1: "booking_inv d1" by (rule insert_referral_row_inv [OF inv r(1,2)])
  have off: "offers d1 rg nd c \<longleftrightarrow> offers ?d rg nd c" for c
    by (simp add: offers_def d1)
  have "v_referral_id v \<noteq> ?i" if "v \<in> set (reservations ?d)" for v
    using schema_ok_reservation [OF booking_inv_parts(1) [OF inv] that] i by (metis imageI)
  then have un: "unmatched d1 ?i" by (auto simp: unmatched_def d1)
  let ?st1 = "st\<lparr>pool := d1, pos := Suc (pos st)\<rparr>"
  have "submit_loop (Suc 499) s ?i rg nd [] ?st1 =
      (Inr (Pending ?i, []), ?st1\<lparr>pos := pos ?st1 + 2\<rparr>)"
    by (rule submit_loop_once_pending [OF s]) (use none off inv1 un in \<open>auto simp: booking_inv_def\<close>)
  moreover have "quiescent d1"
    unfolding quiescent_def
  proof (intro ballI impI allI notI)
    fix b p assume b: "b \<in> set (beds d1)" "b_status b = ''available''" and w: "waiting d1 b p"
    have "p = r" by (rule quiescent_only_new [OF q d1 b w])
    with w b have "offers d1 rg nd b"
      using candidate_filter_suits [OF r(5,4,6)] r(4)
      by (auto simp: waiting_def offers_def suits_def)
    with none off show False by blast
  qed
  ultimately show ?thesis
    using ins by (simp add: submit_referral_def Let_def exec_alone [OF s])
qed

end
