(* ===== verification/Notify.thy ===== *)
theory Notify
  imports Quiescence
begin

section \<open>Live notifications (crates/matching-engine/src/notify.rs)\<close>

text \<open>
  Code that is not in the repository but that the services call: the \<open>uuid\<close> crate, the
  accessors and the codec that \<open>prost\<close> generates from the protobuf file, and the text of a driver
  error.  They are parameters, collected in one record; \<open>externals_ok\<close> states their documented
  behaviour where a theorem needs it.
\<close>

record BedStatusEvent =
  ev_event_id :: string
  ev_shelter_id :: string
  ev_bed_id :: string
  ev_status :: i32
  ev_sequence :: i64
  ev_occurred_at_ms :: i64

record externals =
  parse_uuid :: "string \<Rightarrow> uuid option"
  show_uuid :: "uuid \<Rightarrow> string"
  event_status :: "i32 \<Rightarrow> proto_BedStatus"
  criteria_unit_type :: "i32 \<Rightarrow> proto_UnitType"
  show_sqlx :: "sqlx_error \<Rightarrow> string"
  encode_event :: "BedStatusEvent \<Rightarrow> 8 word list"
  decode_event :: "8 word list \<Rightarrow> BedStatusEvent option"

definition externals_ok :: "externals \<Rightarrow> bool" where
  "externals_ok X \<longleftrightarrow>
     (\<forall>u. parse_uuid X (show_uuid X u) = Some u) \<and> (\<forall>u. show_uuid X u \<noteq> []) \<and>
     (\<forall>st. event_status X (proto_BedStatus_as_i32 st) = st)"

text \<open>
  Publishing: two queries, each of which may fail, and then one update on the channel.  The
  result is only the new state, as the function has no error to return.
\<close>

definition publish_bed_update ::
  "externals \<Rightarrow> script \<Rightarrow> uuid \<Rightarrow> uuid \<Rightarrow> BedStatus \<Rightarrow> i64 \<Rightarrow> AppState \<Rightarrow> AppState" where
  "publish_bed_update X s shelter bed status event_timestamp_ms st =
     (case region_of_shelter s shelter st of
        (Inl _, st) \<Rightarrow> st
      | (Inr region, st) \<Rightarrow>
        (case available_count_in_region s region st of
           (Inl _, st) \<Rightarrow> st
         | (Inr available_count, st) \<Rightarrow>
             st\<lparr>availability_tx := availability_tx st @
               [\<lparr>up_shelter_id = show_uuid X shelter, up_bed_id = show_uuid X bed,
                 up_status = proto_BedStatus_as_i32 (BedStatus_to_proto status),
                 up_available_count_in_region = available_count,
                 up_event_timestamp_ms = event_timestamp_ms,
                 up_delivered_timestamp_ms = utc_now_ms s st,
                 up_region = region\<rparr>]\<rparr>))"

context session_guarantee
begin

lemma publish_R:
  assumes "\<And>st u. R st (st\<lparr>availability_tx := availability_tx st @ [u]\<rparr>)"
  shows "R st (publish_bed_update X s sh b status ts st)"
proof -
  obtain r1 st1 where 1: "region_of_shelter s sh st = (r1, st1)" by fastforce
  show ?thesis
  proof (cases r1)
    case (Inl e)
    with 1 region [OF 1] show ?thesis by (simp add: publish_bed_update_def)
  next
    case (Inr rg)
    obtain r2 st2 where 2: "available_count_in_region s rg st1 = (r2, st2)" by fastforce
    have R2: "R st st2" using trans [OF region [OF 1] count [OF 2]] .
    then show ?thesis
      using trans [OF R2 assms] by (cases r2) (simp_all add: publish_bed_update_def 1 2 Inr)
  qed
qed

end

text \<open>Publishing reads the database and sends at most one update.\<close>

lemma publish_sends:
  assumes "publish_bed_update X s sh b status ts st = st'"
  shows "\<exists>us. length us \<le> 1 \<and> pos st \<le> pos st' \<and>
    availability_tx st' = availability_tx st @ sent_by_others s (pos st) (pos st') @ us"
proof -
  obtain r1 st1 where 1: "region_of_shelter s sh st = (r1, st1)" by fastforce
  show ?thesis
  proof (cases r1)
    case (Inl e)
    with 1 silent.region [OF 1] assms show ?thesis by (auto simp: publish_bed_update_def silently_def)
  next
    case (Inr rg)
    obtain r2 st2 where 2: "available_count_in_region s rg st1 = (r2, st2)" by fastforce
    have "silently s st st2" using silent.region [OF 1] silent.count [OF 2] by (rule silently_trans)
    with assms show ?thesis
      by (cases r2) (auto simp: publish_bed_update_def 1 2 Inr silently_def)
  qed
qed

lemma publish_by_program: "by_program A s st (publish_bed_update X s sh b status ts st)"
  by (rule by_program.publish_R) (simp add: by_program_def)

end
