(* ===== verification/Consumer.thy ===== *)
theory Consumer
  imports Notify
begin

section \<open>The Kafka consumer (crates/matching-engine/src/kafka\_consumer.rs)\<close>

text \<open>
  One message of the \<open>bed-events\<close> topic at a time: decode, parse the ids, apply and notify with
  retries in place, commit the offset.
\<close>

definition parse_ids :: "externals \<Rightarrow> BedStatusEvent \<Rightarrow> (uuid \<times> uuid) option" where
  "parse_ids X event =
     (case parse_uuid X (ev_event_id event) of
        None \<Rightarrow> None
      | Some event_id \<Rightarrow>
        (case parse_uuid X (ev_bed_id event) of
           None \<Rightarrow> None
         | Some bed \<Rightarrow> Some (event_id, bed)))"

text \<open>The allocation pass and the notification that follow the application of an event.\<close>

definition allocate_and_notify ::
  "externals \<Rightarrow> script \<Rightarrow> uuid option \<Rightarrow> uuid \<Rightarrow> BedStatus \<Rightarrow> BedStatusEvent \<Rightarrow> AppState \<Rightarrow>
     (failure + unit) \<times> AppState" where
  "allocate_and_notify X s applied_shelter bed status event st =
     try_bind (allocate_for_bed s bed st) (\<lambda>allocation st.
       case allocation of
         Some result \<Rightarrow>
           (Inr (), publish_bed_update X s (shelter_id result) (bed_id result) Reserved
                      (ev_occurred_at_ms event) st)
       | None \<Rightarrow>
         (case applied_shelter of
            Some shelter \<Rightarrow>
              (Inr (), publish_bed_update X s shelter bed status (ev_occurred_at_ms event) st)
          | None \<Rightarrow> (Inr (), st)))"

definition apply_and_notify ::
  "externals \<Rightarrow> script \<Rightarrow> uuid \<Rightarrow> uuid \<Rightarrow> BedStatus \<Rightarrow> BedStatusEvent \<Rightarrow> AppState \<Rightarrow>
     (failure + unit) \<times> AppState" where
  "apply_and_notify X s event_id bed status event st =
     try_bind (apply_bed_status_event s event_id bed status (ev_sequence event) st) (\<lambda>outcome st.
       case outcome of
         UnknownBed \<Rightarrow> (Inr (), st)
       | Duplicate \<Rightarrow> allocate_and_notify X s None bed status event st
       | Stale \<Rightarrow> allocate_and_notify X s None bed status event st
       | Applied shelter _ \<Rightarrow> allocate_and_notify X s (Some shelter) bed status event st)"

text \<open>\<open>Duration::from_millis(200 * u64::from(attempt.min(25)))\<close>\<close>

definition backoff_ms :: "u32 \<Rightarrow> u64" where
  "backoff_ms attempt = 200 * ucast (min attempt 25)"

text \<open>
  The retry loop.  An error is retried after a pause, without bound: \<open>None\<close> is a loop that never
  ends.  A panic ends the task, and so does the overflow of the counter.  The result carries the
  pauses taken.
\<close>

partial_function (option) retry ::
  "externals \<Rightarrow> script \<Rightarrow> uuid \<Rightarrow> uuid \<Rightarrow> BedStatus \<Rightarrow> BedStatusEvent \<Rightarrow> u32 \<Rightarrow> u64 list \<Rightarrow> AppState \<Rightarrow>
     ((string + u64 list) \<times> AppState) option" where
  "retry X s event_id bed status event attempt pauses st =
     (case apply_and_notify X s event_id bed status event st of
        (Inr _, st) \<Rightarrow> Some (Inr pauses, st)
      | (Inl (Panicked msg), st) \<Rightarrow> Some (Inl msg, st)
      | (Inl (Failed _), st) \<Rightarrow>
          if unat attempt = 2 ^ 32 - 1 then Some (Inl ''attempt to add with overflow'', st)
          else retry X s event_id bed status event (attempt + 1)
            (pauses @ [backoff_ms (attempt + 1)]) st)"

text \<open>
  A received message; the consumer's position is the highest offset committed so far.  The
  commit is asynchronous and may be refused, which is logged only.
\<close>

record kafka_message =
  msg_payload :: "8 word list option"
  msg_offset :: nat

record consumer =
  app :: AppState
  committed :: "nat list"

definition handle_payload ::
  "externals \<Rightarrow> script \<Rightarrow> 8 word list \<Rightarrow> AppState \<Rightarrow> ((string + u64 list) \<times> AppState) option" where
  "handle_payload X s payload st =
     (case decode_event X payload of
        None \<Rightarrow> Some (Inr [], st)
      | Some event \<Rightarrow>
        (case parse_ids X event of
           None \<Rightarrow> Some (Inr [], st)
         | Some (event_id, bed) \<Rightarrow>
             retry X s event_id bed (BedStatus_from_proto (event_status X (ev_status event)))
               event 0 [] st))"

definition handle_message ::
  "externals \<Rightarrow> script \<Rightarrow> (nat \<Rightarrow> bool) \<Rightarrow> kafka_message \<Rightarrow> consumer \<Rightarrow> (string + consumer) option" where
  "handle_message X s commit_ok msg c =
     (case (case msg_payload msg of
              None \<Rightarrow> Some (Inr [], app c)
            | Some payload \<Rightarrow> handle_payload X s payload (app c)) of
        None \<Rightarrow> None
      | Some (Inl panic, _) \<Rightarrow> Some (Inl panic)
      | Some (Inr _, st) \<Rightarrow>
          Some (Inr (c\<lparr>app := st,
            committed := (if commit_ok (msg_offset msg) then committed c @ [msg_offset msg]
                          else committed c)\<rparr>)))"

text \<open>
  The receive loop over a finite prefix of what \<open>recv\<close> yields: messages, or errors, which are
  logged only.
\<close>

fun run_consumer ::
  "externals \<Rightarrow> script \<Rightarrow> (nat \<Rightarrow> bool) \<Rightarrow> (unit + kafka_message) list \<Rightarrow> consumer \<Rightarrow>
     (string + consumer) option" where
  "run_consumer X s commit_ok [] c = Some (Inr c)"
| "run_consumer X s commit_ok (Inl _ # received) c = run_consumer X s commit_ok received c"
| "run_consumer X s commit_ok (Inr msg # received) c =
     (case handle_message X s commit_ok msg c of
        None \<Rightarrow> None
      | Some (Inl panic) \<Rightarrow> Some (Inl panic)
      | Some (Inr c') \<Rightarrow> run_consumer X s commit_ok received c')"

end
