(* ===== verification/Delivery.thy ===== *)
theory Delivery
  imports Consumer
begin

section \<open>Delivery of events\<close>

text \<open>
  At-least-once delivery: an event that was processed stays processed, and delivering it again has
  no effect.  The locale \<open>consumer_guarantee\<close> extends \<open>session_guarantee\<close> by the transaction of
  events.
\<close>

subsection \<open>Sequence numbers never go back\<close>

definition seq_at_least :: "db \<Rightarrow> uuid \<Rightarrow> int \<Rightarrow> bool" where
  "seq_at_least d bed n \<longleftrightarrow> (\<exists>b\<in>set (beds d). b_id b = bed \<and> n \<le> sint (b_last_event_sequence b))"

lemma update_status_seq:
  assumes "\<And>b. b_id (f b) = b_id b" "\<And>b. b_last_event_sequence (f b) = b_last_event_sequence b"
    and "beds d' = update_where P f (beds d)" and "seq_at_least d bed n"
  shows "seq_at_least d' bed n"
proof -
  obtain b where "b \<in> set (beds d)" "b_id b = bed" "n \<le> sint (b_last_event_sequence b)"
    using assms(4) by (auto simp: seq_at_least_def)
  with assms(1-3) show ?thesis
    unfolding seq_at_least_def
    by (intro bexI [of _ "if P b then f b else b"]) (auto simp: in_update_where)
qed

lemma award_seq: "seq_at_least d bed n \<Longrightarrow> seq_at_least (award v d) bed n"
  by (rule update_status_seq [OF _ _ award_tables(4)]) simp_all

lemma applied_seq:
  assumes ok: "schema_ok d" and b: "b \<in> set (beds d)" "b_id b = bed"
    and less: "sint (b_last_event_sequence b) < sint sq" and n: "seq_at_least d bed' n"
  shows "seq_at_least (applied_db e bed ns sq now d) bed' n"
proof -
  obtain c where c: "c \<in> set (beds d)" "b_id c = bed'" "n \<le> sint (b_last_event_sequence c)"
    using n by (auto simp: seq_at_least_def)
  let ?f = "\<lambda>b. b\<lparr>b_status := BedStatus_as_db_str ns, b_last_event_sequence := sq\<rparr>"
  have "n \<le> sint sq" if "bed' = bed"
    using distinct_key_eq [OF schema_ok_keys(2) [OF ok] c(1) b(1)] that b(2) c(2,3) less by simp
  with c show ?thesis
    unfolding seq_at_least_def applied_db_tables
    by (intro bexI [of _ "if b_id c = bed then ?f c else c"]) (auto simp: in_update_where)
qed

lemma db_step_seq:
  "db_step A d d' \<Longrightarrow> schema_ok d \<Longrightarrow> seq_at_least d bed' n \<Longrightarrow> seq_at_least d' bed' n"
proof (induction rule: db_step.induct)
  case (referral i caseworker region needs vulnerability family now d d')
  then obtain r where "insert_referral_row r d = Inr d'" by (blast elim: insert_referral_Inr_row)
  with referral insert_referral_Inr [of r d d'] show ?case by (simp add: seq_at_least_def)
next
  case (allocation locked i now bed d a d')
  from allocation(1) show ?case
    by (cases rule: allocate_tx_cases) (use allocation award_seq in auto)
next
  case (event e bed ns sq now d sh av d')
  from event(1) show ?case
    by (cases rule: apply_tx_cases) (use event applied_seq in auto)
next
  case (shelter s d d')
  then show ?case by (auto simp: seq_at_least_def insert_shelter_row_def split: if_splits)
next
  case (bed b d d')
  then show ?case by (auto simp: seq_at_least_def insert_bed_row_def split: if_splits)
next
  case (reorder d d')
  then show ?case by (simp add: seq_at_least_def reordered_sets)
qed

subsection \<open>Processed events stay processed\<close>

definition processed :: "db \<Rightarrow> uuid \<Rightarrow> uuid \<Rightarrow> i64 \<Rightarrow> bool" where
  "processed d event bed sequence \<longleftrightarrow>
     event \<in> e_event_id ` set (applied_events d) \<or> seq_at_least d bed (sint sequence)"

lemma db_steps_processed:
  assumes "(db_step A)\<^sup>*\<^sup>* d d'" and "booking_inv d" and "processed d event bed sq"
  shows "processed d' event bed sq"
  using assms(1)
proof (induction rule: rtranclp_induct)
  case base
  show ?case by (rule assms(3))
next
  case (step d1 d2)
  have "booking_inv d1"
    using step(1) assms(2) by (induction rule: rtranclp_induct) (blast intro: db_step_booking_inv)+
  then have "seq_at_least d1 bed (sint sq) \<Longrightarrow> seq_at_least d2 bed (sint sq)"
    using db_step_seq [OF step(2)] by (simp add: booking_inv_def)
  with step(3) db_step_extends [OF step(2)] show ?case
    unfolding processed_def extends_def by blast
qed

lemma db_steps_booking_inv: "(db_step A)\<^sup>*\<^sup>* d d' \<Longrightarrow> booking_inv d \<Longrightarrow> booking_inv d'"
  by (induction rule: rtranclp_induct) (blast intro: db_step_booking_inv)+

lemma apply_tx_processed:
  assumes "apply_tx event bed ns sq now d = (Inr out, d')" and "b \<in> set (beds d)" "b_id b = bed"
  shows "processed d' event bed sq" and "out \<noteq> UnknownBed"
proof -
  have "processed d' event bed sq \<and> out \<noteq> UnknownBed"
    using assms(1)
  proof (cases rule: apply_tx_cases)
    case (applied c)
    then show ?thesis by (simp add: processed_def applied_db_tables)
  next
    case (stale c)
    with fetch_filter_Some [OF stale(2)] show ?thesis
      by (auto simp: processed_def seq_at_least_def)
  qed (use assms(2,3) in \<open>auto simp: processed_def\<close>)
  then show "processed d' event bed sq" "out \<noteq> UnknownBed" by simp_all
qed

text \<open>A processed event changes nothing when it is delivered again, whatever it reports.\<close>

lemma apply_tx_again:
  assumes ok: "schema_ok d" and "processed d event bed sq"
  shows "\<exists>out\<in>{Duplicate, Stale}. apply_tx event bed ns sq now d = (Inr out, d)"
proof -
  obtain res d' where tx: "apply_tx event bed ns sq now d = (res, d')" by fastforce
  then show ?thesis
  proof (cases rule: apply_tx_cases)
    case unknown
    with assms(2) show ?thesis by (auto simp: processed_def seq_at_least_def)
  next
    case (applied b)
    then obtain c where "c \<in> set (beds d)" "b_id c = bed" "sint sq \<le> sint (b_last_event_sequence c)"
      using assms(2) by (auto simp: processed_def seq_at_least_def)
    with applied distinct_key_eq [OF schema_ok_keys(2) [OF ok], of c b] show ?thesis by auto
  qed (use tx in auto)
qed

subsection \<open>The consumer's accesses\<close>

lemma apply_event_by_program:
  assumes "ns \<in> A" and "apply_bed_status_event s e b ns sq st = (x, st')"
  shows "by_program A s st st'"
  using exec_by_program [OF _ assms(2) [unfolded apply_bed_status_event_def]]
    apply_tx_program [OF assms(1)] by blast

text \<open>
  A guarantee that also covers the events and the channel is one of the whole consumer.
\<close>

locale consumer_guarantee = session_guarantee +
  fixes A :: "BedStatus set"
  assumes event: "ns \<in> A \<Longrightarrow> apply_bed_status_event s e b ns sq st = (x7, st') \<Longrightarrow> R st st'"
    and send: "R st (st\<lparr>availability_tx := availability_tx st @ [u]\<rparr>)"
begin

lemma allocate_and_notify_R:
  "allocate_and_notify X s sh b ns ev st = (x, st') \<Longrightarrow> R st st'"
  unfolding allocate_and_notify_def
proof (erule try_bind_cases)
  fix a st1 assume a: "allocate_for_bed s b st = (Inr a, st1)"
    and k: "(case a of Some result \<Rightarrow>
           (Inr (), publish_bed_update X s (shelter_id result) (bed_id result) Reserved
                      (ev_occurred_at_ms ev) st1)
       | None \<Rightarrow> (case sh of
            Some shelter \<Rightarrow> (Inr (), publish_bed_update X s shelter b ns (ev_occurred_at_ms ev) st1)
          | None \<Rightarrow> (Inr (), st1))) = (x, st')"
  have "R st1 st'"
    using k publish_R [OF send] refl by (auto split: option.splits)
  with allocation [OF a] show "R st st'" by (rule trans)
qed (blast dest: allocation)

lemma apply_and_notify_R:
  assumes "ns \<in> A" and "apply_and_notify X s e b ns ev st = (x, st')"
  shows "R st st'"
  using assms(2) unfolding apply_and_notify_def
proof (rule try_bind_cases)
  fix out st1 assume a: "apply_bed_status_event s e b ns (ev_sequence ev) st = (Inr out, st1)"
    and k: "(case out of
         UnknownBed \<Rightarrow> (Inr (), st1)
       | Duplicate \<Rightarrow> allocate_and_notify X s None b ns ev st1
       | Stale \<Rightarrow> allocate_and_notify X s None b ns ev st1
       | Applied shelter _ \<Rightarrow> allocate_and_notify X s (Some shelter) b ns ev st1) = (x, st')"
  have "R st1 st'"
    using k allocate_and_notify_R refl by (auto split: ApplyOutcome.splits)
  with event [OF assms(1) a] show ?thesis by (rule trans)
qed (use event [OF assms(1)] in blast)

end

interpretation consumer_by_program: consumer_guarantee s "by_program A s" A for A s
  by (unfold_locales, erule (1) apply_event_by_program, simp add: by_program_def)

text \<open>The position only grows, and every attempt uses at least one move.\<close>

interpretation consumer_progress: consumer_guarantee s "\<lambda>st st'. pos st \<le> pos st'" UNIV for s
  by unfold_locales
     (auto simp: resolve_final_outcome_def allocate_for_bed_def region_of_shelter_def
       available_count_in_region_def apply_bed_status_event_def dest: exec_frame(2))

lemma apply_and_notify_pos:
  assumes "apply_and_notify X s e b ns ev st = (x, st')"
  shows "pos st < pos st'"
  using assms unfolding apply_and_notify_def
proof (rule try_bind_cases)
  fix err assume "apply_bed_status_event s e b ns (ev_sequence ev) st = (Inl err, st')"
  then show ?thesis by (auto simp: apply_bed_status_event_def dest: exec_frame(2))
next
  fix out st1 assume a: "apply_bed_status_event s e b ns (ev_sequence ev) st = (Inr out, st1)"
    and k: "(case out of
         UnknownBed \<Rightarrow> (Inr (), st1)
       | Duplicate \<Rightarrow> allocate_and_notify X s None b ns ev st1
       | Stale \<Rightarrow> allocate_and_notify X s None b ns ev st1
       | Applied shelter _ \<Rightarrow> allocate_and_notify X s (Some shelter) b ns ev st1) = (x, st')"
  have "pos st1 = Suc (pos st)" using a by (auto simp: apply_bed_status_event_def dest: exec_frame(2))
  moreover have "pos st1 \<le> pos st'"
    using k consumer_progress.allocate_and_notify_R by (auto split: ApplyOutcome.splits)
  ultimately show ?thesis by simp
qed

text \<open>When an attempt returns normally the event is processed.\<close>

lemma apply_and_notify_processed:
  assumes fair: "fair_script A s" and inv: "booking_inv (pool st)"
    and b: "b \<in> set (beds (pool st))" "b_id b = bed"
    and run: "apply_and_notify X s e bed ns ev st = (Inr u, st')"
  shows "processed (pool st') e bed (ev_sequence ev)"
proof -
  let ?d = "mv_interfere (s (pos st)) (pool st)"
  obtain out st1 where a: "apply_bed_status_event s e bed ns (ev_sequence ev) st = (Inr out, st1)"
    and k: "(case out of
         UnknownBed \<Rightarrow> (Inr (), st1)
       | Duplicate \<Rightarrow> allocate_and_notify X s None bed ns ev st1
       | Stale \<Rightarrow> allocate_and_notify X s None bed ns ev st1
       | Applied shelter _ \<Rightarrow> allocate_and_notify X s (Some shelter) bed ns ev st1) = (Inr u, st')"
    using run by (auto simp: apply_and_notify_def try_bind_Inr)
  have steps: "(db_step A)\<^sup>*\<^sup>* (pool st) ?d" using fair by (simp add: fair_script_def)
  obtain b' where b': "b' \<in> set (beds ?d)" "b_id b' = bed"
    using extendsD(1) [OF db_steps_extends [OF steps] b(1)] b(2) by (auto simp: bed_static_eq)
  have tx: "apply_tx e bed ns (ev_sequence ev) (mv_now (s (pos st))) ?d = (Inr out, pool st1)"
    using a by (auto simp: apply_bed_status_event_def exec_Inr)
  note p = apply_tx_processed [OF tx b']
  have inv1: "booking_inv (pool st1)"
    by (rule apply_tx_booking_inv [OF db_steps_booking_inv [OF steps inv] tx])
  have "by_program A s st1 st'"
    using k p(2) consumer_by_program.allocate_and_notify_R by (auto split: ApplyOutcome.splits)
  then have "(db_step A)\<^sup>*\<^sup>* (pool st1) (pool st')" using fair by (simp add: by_program_def)
  then show ?thesis by (rule db_steps_processed [OF _ inv1 p(1)])
qed

end
