(* ===== verification/Retry.thy ===== *)
theory Retry
  imports Delivery
begin

section \<open>Retrying in place\<close>

text \<open>
  The pauses of the retry loop, that no panic leaves it, that random identifiers stay unused
  until they are drawn, and that the loop returns once the faults are over.
\<close>

subsection \<open>Pauses\<close>

lemma backoff_unat: "unat (backoff_ms attempt) = 200 * min (unat attempt) 25"
proof -
  have m: "unat (min attempt 25) = min (unat attempt) 25"
    by (simp add: min_def word_le_nat_alt)
  have "unat (ucast (min attempt 25) :: u64) = min (unat attempt) 25"
    by (simp add: m unsigned_ucast_eq take_bit_nat_eq_self)
  then show ?thesis
    by (simp add: backoff_ms_def unat_word_ariths)
qed

text \<open>The pauses of the first \<open>n\<close> retries, before the counter can wrap around.\<close>

definition pauses_upto :: "u32 \<Rightarrow> nat \<Rightarrow> u64 list" where
  "pauses_upto attempt n = map (\<lambda>k. backoff_ms (attempt + of_nat (Suc k))) [0..<n]"

lemma pauses_upto_Suc:
  "pauses_upto attempt (Suc n) = backoff_ms (attempt + 1) # pauses_upto (attempt + 1) n"
proof -
  have "[0..<Suc n] = 0 # map Suc [0..<n]" by (simp add: map_Suc_upt upt_conv_Cons)
  then show ?thesis
    by (simp add: pauses_upto_def o_def add.assoc del: upt_Suc)
qed

lemma pauses_upto_ms:
  assumes "n < 2 ^ 32"
  shows "map unat (pauses_upto 0 n) = map (\<lambda>k. 200 * min (Suc k) 25) [0..<n]"
proof -
  have "unat (of_nat (Suc k) :: u32) = Suc k" if "k < n" for k
    using that assms by (simp add: unat_of_nat take_bit_nat_eq_self del: of_nat_Suc)
  then show ?thesis by (auto simp: pauses_upto_def backoff_unat simp del: of_nat_Suc)
qed

subsection \<open>No panic in the consumer\<close>

lemma allocate_tx_no_panic: "fst (allocate_tx locked i now bed d) \<noteq> Inl (Panicked msg)"
proof -
  obtain res d' where tx: "allocate_tx locked i now bed d = (res, d')" by fastforce
  then show ?thesis by (cases rule: allocate_tx_cases) (simp_all add: tx)
qed

lemma apply_tx_no_error: "\<exists>out d'. apply_tx e bed ns sq now d = (Inr out, d')"
proof -
  obtain res d' where tx: "apply_tx e bed ns sq now d = (res, d')" by fastforce
  then show ?thesis by (cases rule: apply_tx_cases) (auto simp: tx)
qed

lemma exec_no_panic:
  assumes "\<And>m d. fst (q m d) \<noteq> Inl (Panicked msg)"
  shows "fst (exec s q st) \<noteq> Inl (Panicked msg)"
proof -
  have "fst (exec s q st) =
      fst (run_tx (s (pos st)) (q (s (pos st))) (mv_interfere (s (pos st)) (pool st)))"
    by (simp add: exec_def Let_def case_prod_unfold)
  then show ?thesis by (simp add: run_tx_def assms split: option.split fault.split)
qed

lemma allocate_for_bed_no_panic: "allocate_for_bed s b st \<noteq> (Inl (Panicked msg), st')"
proof -
  have "fst (allocate_for_bed s b st) \<noteq> Inl (Panicked msg)"
    unfolding allocate_for_bed_def by (rule exec_no_panic) (rule allocate_tx_no_panic)
  then show ?thesis by auto
qed

lemma apply_event_no_panic: "apply_bed_status_event s e b ns sq st \<noteq> (Inl (Panicked msg), st')"
proof -
  have "fst (apply_tx e b ns sq now d) \<noteq> Inl (Panicked msg)" for now d
    using apply_tx_no_error [of e b ns sq now d] by auto
  then have "fst (apply_bed_status_event s e b ns sq st) \<noteq> Inl (Panicked msg)"
    unfolding apply_bed_status_event_def by (intro exec_no_panic)
  then show ?thesis by auto
qed

lemma allocate_and_notify_no_panic:
  "allocate_and_notify X s sh b ns ev st \<noteq> (Inl (Panicked msg), st')"
  unfolding allocate_and_notify_def
  by (rule notI, erule try_bind_cases)
     (auto simp: allocate_for_bed_no_panic split: option.splits)

lemma apply_and_notify_no_panic:
  "apply_and_notify X s e b ns ev st \<noteq> (Inl (Panicked msg), st')"
  unfolding apply_and_notify_def
  by (rule notI, erule try_bind_cases)
     (auto simp: apply_event_no_panic allocate_and_notify_no_panic split: ApplyOutcome.splits)

subsection \<open>Random identifiers\<close>

text \<open>
  The identifiers that a session draws for its first \<open>H\<close> moves are distinct, and no other session
  creates a reservation with one of them.
\<close>

definition distinct_ids :: "nat \<Rightarrow> script \<Rightarrow> bool" where
  "distinct_ids H s \<longleftrightarrow> inj_on (\<lambda>k. mv_uuid (s k)) {..<H} \<and>
     (\<forall>k d. \<forall>j<H. mv_uuid (s j) \<in> v_id ` set (reservations (mv_interfere (s k) d)) \<longrightarrow>
        mv_uuid (s j) \<in> v_id ` set (reservations d))"

definition ids_unused :: "nat \<Rightarrow> script \<Rightarrow> AppState \<Rightarrow> bool" where
  "ids_unused H s st \<longleftrightarrow> (\<forall>k. pos st \<le> k \<longrightarrow> k < H \<longrightarrow> mv_uuid (s k) \<notin> v_id ` set (reservations (pool st)))"

lemma ids_unused_exec:
  assumes "distinct_ids H s" and "ids_unused H s st" and "exec s q st = (x, st')"
    and q: "\<And>m d. v_id ` set (reservations (snd (q m d))) \<subseteq> insert (mv_uuid m) (v_id ` set (reservations d))"
  shows "ids_unused H s st'"
  unfolding ids_unused_def
proof (intro allI impI notI)
  fix k assume k: "pos st' \<le> k" and H: "k < H" and bad: "mv_uuid (s k) \<in> v_id ` set (reservations (pool st'))"
  let ?m = "s (pos st)" and ?d = "mv_interfere (s (pos st)) (pool st)"
  have less: "pos st < k" using exec_frame(2) [OF assms(3)] k by simp
  then have ne: "mv_uuid (s k) \<noteq> mv_uuid ?m"
    using assms(1) H unfolding distinct_ids_def inj_on_def by (metis lessThan_iff less_irrefl less_trans)
  from exec_pool [OF assms(3)] have "mv_uuid (s k) \<in> v_id ` set (reservations ?d)"
  proof
    assume "pool st' = snd (q ?m ?d)"
    with bad q [of ?m ?d] have "mv_uuid (s k) \<in> insert (mv_uuid ?m) (v_id ` set (reservations ?d))"
      by (simp only: subset_iff)
    with ne show ?thesis by simp
  qed (use bad in simp)
  with assms(1) have "mv_uuid (s k) \<in> v_id ` set (reservations (pool st))"
    using H unfolding distinct_ids_def by blast
  with assms(2) less H show False by (simp add: ids_unused_def)
qed

lemma allocate_tx_ids:
  "v_id ` set (reservations (snd (allocate_tx locked i now b d))) \<subseteq>
     insert i (v_id ` set (reservations d))"
proof -
  obtain res d' where tx: "allocate_tx locked i now b d = (res, d')" by fastforce
  then show ?thesis
    by (cases rule: allocate_tx_cases) (auto simp: tx award_tables)
qed

lemma apply_tx_ids:
  "v_id ` set (reservations (snd (apply_tx e b ns sq now d))) = v_id ` set (reservations d)"
proof -
  obtain res d' where tx: "apply_tx e b ns sq now d = (res, d')" by fastforce
  then show ?thesis
    by (cases rule: apply_tx_cases) (simp_all add: tx applied_db_tables image_image)
qed

lemma other_tx_ids:
  "reservations (snd (insert_referral i cw rg nd vu fa now d)) = reservations d"
  "reservations (snd (candidate_bed rg nd d)) = reservations d"
  "reservations (snd (final_outcome i d)) = reservations d"
  "reservations (snd (region_of_shelter_tx sh d)) = reservations d"
  "reservations (snd (available_count_tx rg d)) = reservations d"
  by (auto simp: insert_referral_def insert_referral_row_def candidate_bed_def final_outcome_def
      region_of_shelter_tx_def available_count_tx_def lift_insert_def lift_sqlx_def split: sum.split)

definition keeps_ids :: "nat \<Rightarrow> script \<Rightarrow> AppState \<Rightarrow> AppState \<Rightarrow> bool" where
  "keeps_ids H s st st' \<longleftrightarrow> (distinct_ids H s \<longrightarrow> ids_unused H s st \<longrightarrow> ids_unused H s st')"

lemma exec_keeps_ids:
  assumes "exec s q st = (x, st')"
    and "\<And>m d. v_id ` set (reservations (snd (q m d))) \<subseteq> insert (mv_uuid m) (v_id ` set (reservations d))"
  shows "keeps_ids H s st st'"
  using ids_unused_exec [OF _ _ assms] by (simp add: keeps_ids_def)

interpretation keeps_ids: consumer_guarantee s "keeps_ids H s" UNIV for H s
proof unfold_locales
  show "keeps_ids H s st st'" if "exec s (\<lambda>m. insert_referral i cw rg nd vu fa (mv_now m)) st = (x1, st')"
    for i cw rg nd vu fa st x1 st'
    by (rule exec_keeps_ids [OF that]) (auto simp: other_tx_ids)
  show "keeps_ids H s st st'" if "exec s (\<lambda>_. candidate_bed rg nd) st = (x2, st')" for rg nd st x2 st'
    by (rule exec_keeps_ids [OF that]) (auto simp: other_tx_ids)
  show "keeps_ids H s st st'" if "resolve_final_outcome s i st = (x3, st')" for i st x3 st'
    by (rule exec_keeps_ids [OF that [unfolded resolve_final_outcome_def]]) (auto simp: other_tx_ids)
  show "keeps_ids H s st st'" if "allocate_for_bed s b st = (x4, st')" for b st x4 st'
    by (rule exec_keeps_ids [OF that [unfolded allocate_for_bed_def]]) (rule allocate_tx_ids)
  show "keeps_ids H s st st'" if "region_of_shelter s sh st = (x5, st')" for sh st x5 st'
    by (rule exec_keeps_ids [OF that [unfolded region_of_shelter_def]]) (auto simp: other_tx_ids)
  show "keeps_ids H s st st'" if "available_count_in_region s rg st = (x6, st')" for rg st x6 st'
    by (rule exec_keeps_ids [OF that [unfolded available_count_in_region_def]]) (auto simp: other_tx_ids)
  show "keeps_ids H s st st'" if "apply_bed_status_event s e b ns sq st = (x7, st')" for e b ns sq st x7 st'
    by (rule exec_keeps_ids [OF that [unfolded apply_bed_status_event_def]]) (auto simp: apply_tx_ids)
qed (auto simp: keeps_ids_def ids_unused_def)

subsection \<open>The retry loop ends once the faults are over\<close>

text \<open>One round of the loop uses at most four moves.\<close>

lemma publish_pos_le: "pos (publish_bed_update X s sh b ns ts st) \<le> pos st + 2"
proof -
  obtain r1 st1 where 1: "region_of_shelter s sh st = (r1, st1)" by fastforce
  then have p1: "pos st1 = Suc (pos st)"
    unfolding region_of_shelter_def by (rule exec_frame(2))
  have p2: "pos st2 = Suc (Suc (pos st))" if "available_count_in_region s rg st1 = (r2, st2)" for rg r2 st2
    using exec_frame(2) [OF that [unfolded available_count_in_region_def]] p1 by simp
  then show ?thesis
    by (cases r1) (auto simp: publish_bed_update_def 1 p1 split: sum.split prod.split)
qed

lemma allocate_and_notify_pos_le:
  assumes "allocate_and_notify X s sh b ns ev st = (x, st')"
  shows "pos st' \<le> pos st + 3"
  using assms unfolding allocate_and_notify_def
proof (rule try_bind_cases)
  fix e assume "allocate_for_bed s b st = (Inl e, st')"
  then show ?thesis using exec_frame(2) unfolding allocate_for_bed_def by fastforce
next
  fix a st1 assume a: "allocate_for_bed s b st = (Inr a, st1)"
    and k: "(case a of Some result \<Rightarrow>
           (Inr (), publish_bed_update X s (shelter_id result) (bed_id result) Reserved
                      (ev_occurred_at_ms ev) st1)
       | None \<Rightarrow> (case sh of
            Some shelter \<Rightarrow> (Inr (), publish_bed_update X s shelter b ns (ev_occurred_at_ms ev) st1)
          | None \<Rightarrow> (Inr (), st1))) = (x, st')"
  have "pos st1 = Suc (pos st)" using a unfolding allocate_for_bed_def by (rule exec_frame(2))
  moreover have "pos st' \<le> pos st1 + 2" using k publish_pos_le by (auto split: option.splits)
  ultimately show ?thesis by simp
qed

lemma apply_and_notify_pos_le:
  assumes "apply_and_notify X s e b ns ev st = (x, st')"
  shows "pos st' \<le> pos st + 4"
  using assms unfolding apply_and_notify_def
proof (rule try_bind_cases)
  fix err assume "apply_bed_status_event s e b ns (ev_sequence ev) st = (Inl err, st')"
  then show ?thesis using exec_frame(2) unfolding apply_bed_status_event_def by fastforce
next
  fix out st1 assume a: "apply_bed_status_event s e b ns (ev_sequence ev) st = (Inr out, st1)"
    and k: "(case out of
         UnknownBed \<Rightarrow> (Inr (), st1)
       | Duplicate \<Rightarrow> allocate_and_notify X s None b ns ev st1
       | Stale \<Rightarrow> allocate_and_notify X s None b ns ev st1
       | Applied shelter _ \<Rightarrow> allocate_and_notify X s (Some shelter) b ns ev st1) = (x, st')"
  have "pos st1 = Suc (pos st)" using a unfolding apply_bed_status_event_def by (rule exec_frame(2))
  moreover have "pos st' \<le> pos st1 + 3"
    using k allocate_and_notify_pos_le by (auto split: ApplyOutcome.splits)
  ultimately show ?thesis by simp
qed

lemma apply_and_notify_healthy:
  assumes fair: "fair_script A s" and ns: "ns \<in> A" and inv: "booking_inv (pool st)"
    and ids: "distinct_ids H s" "ids_unused H s st" and H: "pos st + 2 \<le> H"
    and ok: "\<forall>k\<ge>pos st. mv_fault (s k) = None"
  shows "\<exists>st'. apply_and_notify X s e b ns ev st = (Inr (), st')"
proof -
  let ?d = "mv_interfere (s (pos st)) (pool st)"
  obtain out d1 where tx: "apply_tx e b ns (ev_sequence ev) (mv_now (s (pos st))) ?d = (Inr out, d1)"
    using apply_tx_no_error by blast
  let ?st1 = "st\<lparr>pool := d1, availability_tx := availability_tx st @ mv_sends (s (pos st)),
    pos := Suc (pos st)\<rparr>"
  have a: "apply_bed_status_event s e b ns (ev_sequence ev) st = (Inr out, ?st1)"
    using tx ok by (auto simp: apply_bed_status_event_def exec_Inr)
  have inv1: "booking_inv d1"
    using apply_tx_booking_inv [OF db_steps_booking_inv [of A, OF _ inv] tx] fair
    by (simp add: fair_script_def)
  let ?d2 = "mv_interfere (s (Suc (pos st))) d1"
  have inv2: "booking_inv ?d2"
    using db_steps_booking_inv [of A, OF _ inv1] fair by (simp add: fair_script_def)
  have "ids_unused H s ?st1"
    using keeps_ids.event [OF UNIV_I a] ids by (simp add: keeps_ids_def)
  then have "mv_uuid (s (Suc (pos st))) \<notin> v_id ` set (reservations d1)"
    using H unfolding ids_unused_def by simp
  moreover have "Suc (pos st) < H" using H by simp
  ultimately have "mv_uuid (s (Suc (pos st))) \<notin> v_id ` set (reservations ?d2)"
    using ids(1) unfolding distinct_ids_def by blast
  from allocate_tx_total [OF inv2 this] obtain r d3 where
    al: "allocate_tx (mv_locked (s (Suc (pos st)))) (mv_uuid (s (Suc (pos st))))
      (mv_now (s (Suc (pos st)))) b ?d2 = (Inr r, d3)" by blast
  have "\<exists>st2. allocate_for_bed s b ?st1 = (Inr r, st2)"
    using al ok by (simp add: allocate_for_bed_def exec_Inr)
  then have "\<exists>st'. allocate_and_notify X s sh b ns ev ?st1 = (Inr (), st')" for sh
    by (auto simp: allocate_and_notify_def split: option.split)
  then show ?thesis
    by (auto simp: apply_and_notify_def a split: ApplyOutcome.split)
qed

text \<open>An attempt that failed.\<close>

definition attempt ::
  "externals \<Rightarrow> script \<Rightarrow> uuid \<Rightarrow> uuid \<Rightarrow> BedStatus \<Rightarrow> BedStatusEvent \<Rightarrow> AppState \<Rightarrow> AppState \<Rightarrow> bool"
where
  "attempt X s e b ns ev st st' \<longleftrightarrow> (\<exists>f. apply_and_notify X s e b ns ev st = (Inl f, st'))"

text \<open>The loop makes some failing attempts, with a pause after each, and then one that succeeds.\<close>

lemma retry_ends:
  assumes fair: "fair_script A s" and ns: "ns \<in> A" and ids: "distinct_ids H s"
    and ok: "\<forall>k\<ge>N. mv_fault (s k) = None" and N: "N + 5 \<le> H"
    and "booking_inv (pool st)" and "ids_unused H s st" and "pos st + 2 \<le> H"
    and "unat k0 + (N - pos st) < 2 ^ 32"
  shows "\<exists>n st1 st'. retry X s e b ns ev k0 pauses st =
    Some (Inr (pauses @ pauses_upto k0 n), st') \<and> n \<le> N - pos st \<and>
    pos st' \<le> max (pos st) (N + 3) + 4 \<and>
    (attempt X s e b ns ev ^^ n) st st1 \<and> apply_and_notify X s e b ns ev st1 = (Inr (), st')"
  using assms(6-9)
proof (induction "N - pos st" arbitrary: st k0 pauses rule: less_induct)
  case less
  obtain x st1 where x: "apply_and_notify X s e b ns ev st = (x, st1)" by fastforce
  note used = apply_and_notify_pos_le [OF x]
  show ?case
  proof (cases x)
    case (Inr u)
    then show ?thesis using x used
      by (intro exI [of _ 0] exI [of _ st] exI [of _ st1])
         (simp add: retry.simps [of X s e b ns ev k0] pauses_upto_def)
  next
    case (Inl f)
    obtain er where f: "f = Failed er"
      using apply_and_notify_no_panic x Inl by (cases f) auto
    have failed: "attempt X s e b ns ev st st1" using x Inl by (auto simp: attempt_def)
    have early: "\<not> N \<le> pos st"
      using apply_and_notify_healthy [OF fair ns less.prems(1) ids less.prems(2,3), of X e b ev]
        ok x Inl by auto
    moreover have "pos st < pos st1" by (rule apply_and_notify_pos [OF x])
    ultimately have less': "N - pos st1 < N - pos st" by simp
    have "(db_step A)\<^sup>*\<^sup>* (pool st) (pool st1)"
      using consumer_by_program.apply_and_notify_R [OF ns x] fair by (simp add: by_program_def)
    then have inv1: "booking_inv (pool st1)" by (rule db_steps_booking_inv [OF _ less.prems(1)])
    have ids1: "ids_unused H s st1"
      using keeps_ids.apply_and_notify_R [OF UNIV_I x] ids less.prems(2) by (simp add: keeps_ids_def)
    have "pos st1 \<le> N + 3" using used early by simp
    then have "pos st1 + 2 \<le> H" using N by simp
    moreover have small: "unat k0 + 1 < 2 ^ 32" using less.prems(4) early by simp
    then have next_attempt: "unat (k0 + 1) = unat k0 + 1" by (simp add: unat_add_lem [THEN iffD1])
    then have "unat (k0 + 1) + (N - pos st1) < 2 ^ 32" using less.prems(4) less' by simp
    ultimately obtain n st2 st' where
      n: "retry X s e b ns ev (k0 + 1) (pauses @ [backoff_ms (k0 + 1)]) st1 =
        Some (Inr ((pauses @ [backoff_ms (k0 + 1)]) @ pauses_upto (k0 + 1) n), st')"
      "n \<le> N - pos st1" "pos st' \<le> max (pos st1) (N + 3) + 4"
      "(attempt X s e b ns ev ^^ n) st1 st2" "apply_and_notify X s e b ns ev st2 = (Inr (), st')"
      using less.hyps [OF less' inv1 ids1] by blast
    have "(attempt X s e b ns ev ^^ Suc n) st st2" by (rule relpowp_Suc_I2 [OF failed n(4)])
    moreover have "unat k0 \<noteq> 2 ^ 32 - 1" using small by simp
    ultimately
    show ?thesis using less' \<open>pos st1 \<le> N + 3\<close> early n
      by (intro exI [of _ "Suc n"] exI [of _ st2] exI [of _ st'])
         (simp add: retry.simps [of X s e b ns ev k0] x Inl f pauses_upto_Suc del: relpowp.simps)
  qed
qed

end
