(* ===== verification/Matching_Grpc.thy ===== *)
theory Matching_Grpc
  imports Retry
begin

section \<open>The gRPC service of the matching engine (crates/matching-engine/src/grpc.rs)\<close>

text \<open>
  \<open>match_referral\<close> checks the request, submits the referral, publishes every allocation the
  submission caused and answers; \<open>stream_availability\<close> filters the broadcast channel for one
  subscriber.  The messages are those of proto/shelterbed.proto; what the generated code and the
  channel do is a parameter.
\<close>

record ReferralCriteria =
  c_family_size :: i32
  c_unit_type_required :: i32
  c_needs_pet_friendly :: bool
  c_needs_sobriety_free_environment :: bool
  c_needs_ada_accessible :: bool
  c_vulnerability_score :: i32

record SubmitReferralRequest =
  rq_caseworker_id :: string
  rq_region :: string
  rq_criteria :: "ReferralCriteria option"

record BedRef =
  ref_bed_id :: string
  ref_shelter_id :: string

record SubmitReferralResponse =
  rs_referral_id :: string
  rs_status :: i32
  rs_matched_bed :: "BedRef option"

text \<open>A call ends with a response, with a status, or because the task that serves it panicked.\<close>

datatype grpc_failure = Status grpc_status | Task_panicked string

fun failure_to_grpc :: "externals \<Rightarrow> failure \<Rightarrow> grpc_failure" where
  "failure_to_grpc X (Failed e) = Status (app_error_to_status (show_sqlx X) e)"
| "failure_to_grpc X (Panicked msg) = Task_panicked msg"

definition needs_of_criteria :: "externals \<Rightarrow> ReferralCriteria \<Rightarrow> ReferralNeeds" where
  "needs_of_criteria X criteria =
     \<lparr>unit_type_required =
        UnitType_from_proto (criteria_unit_type X (c_unit_type_required criteria)),
      needs_pet_friendly = c_needs_pet_friendly criteria,
      needs_sobriety_free = c_needs_sobriety_free_environment criteria,
      needs_ada_accessible = c_needs_ada_accessible criteria\<rparr>"

fun publish_reserved ::
  "externals \<Rightarrow> script \<Rightarrow> AllocationResult list \<Rightarrow> AppState \<Rightarrow> AppState" where
  "publish_reserved X s [] st = st"
| "publish_reserved X s (result # results) st =
     publish_reserved X s results
       (publish_bed_update X s (shelter_id result) (bed_id result) Reserved (utc_now_ms s st) st)"

definition match_referral ::
  "externals \<Rightarrow> script \<Rightarrow> SubmitReferralRequest \<Rightarrow> AppState \<Rightarrow>
     (grpc_failure + SubmitReferralResponse) \<times> AppState" where
  "match_referral X s req st =
     (case rq_criteria req of
        None \<Rightarrow> (Inl (Status (Invalid_argument_status ''criteria is required'')), st)
      | Some criteria \<Rightarrow>
        (case submit_referral s (rq_caseworker_id req) (rq_region req)
                (needs_of_criteria X criteria) (c_vulnerability_score criteria)
                (c_family_size criteria) st of
           (Inl e, st) \<Rightarrow> (Inl (failure_to_grpc X e), st)
         | (Inr (outcome, side_allocations), st) \<Rightarrow>
             let st = publish_reserved X s side_allocations st
             in case outcome of
                  Matched result \<Rightarrow>
                    (Inr \<lparr>rs_referral_id = show_uuid X (referral_id result),
                          rs_status = proto_ReferralStatus_as_i32 Proto_MATCHED,
                          rs_matched_bed = Some \<lparr>ref_bed_id = show_uuid X (bed_id result),
                            ref_shelter_id = show_uuid X (shelter_id result)\<rparr>\<rparr>,
                     publish_bed_update X s (shelter_id result) (bed_id result) Reserved
                       (utc_now_ms s st) st)
                | Pending referral \<Rightarrow>
                    (Inr \<lparr>rs_referral_id = show_uuid X referral,
                          rs_status = proto_ReferralStatus_as_i32 Proto_PENDING,
                          rs_matched_bed = None\<rparr>, st)))"

text \<open>
  One item of a subscriber's receiver is an update or the report that it missed some; the items
  the subscriber sees are given in order.
\<close>

definition stream_availability ::
  "string \<Rightarrow> (u64 + BedAvailabilityUpdate) list \<Rightarrow> (grpc_status + BedAvailabilityUpdate) list"
where
  "stream_availability region_filter items =
     List.map_filter (\<lambda>item. case item of
         Inr update \<Rightarrow>
           if region_filter = [] \<or> up_region update = region_filter then Some (Inr update)
           else None
       | Inl lagged \<Rightarrow> None) items"

subsection \<open>The answer as a function of the outcome\<close>

text \<open>What is published for an outcome, and what is answered.\<close>

definition to_publish :: "SubmitOutcome \<Rightarrow> AllocationResult list \<Rightarrow> AllocationResult list" where
  "to_publish outcome side =
     side @ (case outcome of Matched result \<Rightarrow> [result] | Pending _ \<Rightarrow> [])"

definition response_of :: "externals \<Rightarrow> SubmitOutcome \<Rightarrow> SubmitReferralResponse" where
  "response_of X outcome = (case outcome of
      Matched result \<Rightarrow> \<lparr>rs_referral_id = show_uuid X (referral_id result), rs_status = 2,
        rs_matched_bed = Some \<lparr>ref_bed_id = show_uuid X (bed_id result),
          ref_shelter_id = show_uuid X (shelter_id result)\<rparr>\<rparr>
    | Pending referral \<Rightarrow> \<lparr>rs_referral_id = show_uuid X referral, rs_status = 1,
        rs_matched_bed = None\<rparr>)"

lemma publish_reserved_append:
  "publish_reserved X s (xs @ ys) st = publish_reserved X s ys (publish_reserved X s xs st)"
  by (induction xs arbitrary: st) simp_all

lemma match_referral_eq:
  "match_referral X s req st =
     (case rq_criteria req of
        None \<Rightarrow> (Inl (Status (Invalid_argument_status ''criteria is required'')), st)
      | Some criteria \<Rightarrow>
        (case submit_referral s (rq_caseworker_id req) (rq_region req)
                (needs_of_criteria X criteria) (c_vulnerability_score criteria)
                (c_family_size criteria) st of
           (Inl e, st) \<Rightarrow> (Inl (failure_to_grpc X e), st)
         | (Inr (outcome, side), st) \<Rightarrow>
             (Inr (response_of X outcome), publish_reserved X s (to_publish outcome side) st)))"
  by (auto simp: match_referral_def response_of_def to_publish_def publish_reserved_append Let_def
      split: option.split sum.split prod.split SubmitOutcome.split)

lemma match_referral_cases:
  assumes "match_referral X s req st = (x, st')"
  obtains (no_criteria) "rq_criteria req = None" "st' = st"
      "x = Inl (Status (Invalid_argument_status ''criteria is required''))"
  | (failed) criteria e where "rq_criteria req = Some criteria"
      "submit_referral s (rq_caseworker_id req) (rq_region req) (needs_of_criteria X criteria)
        (c_vulnerability_score criteria) (c_family_size criteria) st = (Inl e, st')"
      "x = Inl (failure_to_grpc X e)"
  | (answered) criteria outcome side st1 where "rq_criteria req = Some criteria"
      "submit_referral s (rq_caseworker_id req) (rq_region req) (needs_of_criteria X criteria)
        (c_vulnerability_score criteria) (c_family_size criteria) st = (Inr (outcome, side), st1)"
      "x = Inr (response_of X outcome)"
      "st' = publish_reserved X s (to_publish outcome side) st1"
proof (cases "rq_criteria req")
  case None
  with assms show ?thesis by (intro no_criteria) (auto simp: match_referral_def)
next
  case (Some criteria)
  obtain r st1 where r: "submit_referral s (rq_caseworker_id req) (rq_region req)
      (needs_of_criteria X criteria) (c_vulnerability_score criteria) (c_family_size criteria) st
      = (r, st1)" by fastforce
  show ?thesis
  proof (cases r)
    case (Inl e)
    with assms r Some show ?thesis
      by (intro failed [of criteria e]) (auto simp: match_referral_eq)
  next
    case (Inr os)
    with assms r Some show ?thesis
      by (cases os, intro answered [of criteria "fst os" "snd os" st1]) (auto simp: match_referral_eq)
  qed
qed

subsection \<open>What a call does to the database and to the channel\<close>

context session_guarantee
begin

lemma publish_reserved_R:
  assumes "\<And>st u. R st (st\<lparr>availability_tx := availability_tx st @ [u]\<rparr>)"
  shows "R st (publish_reserved X s results st)"
proof (induction results arbitrary: st)
  case Nil
  then show ?case by (simp add: refl)
next
  case (Cons result results)
  then show ?case by (auto intro: trans [OF publish_R [OF assms]])
qed

lemma match_referral_R:
  assumes send: "\<And>st u. R st (st\<lparr>availability_tx := availability_tx st @ [u]\<rparr>)"
    and run: "match_referral X s req st = (x, st')"
  shows "R st st'"
  using run
proof (cases rule: match_referral_cases)
  case (answered criteria outcome side st1)
  then show ?thesis
    using trans [OF submit_referral_R [OF answered(2)] publish_reserved_R [OF send]] by simp
qed (simp add: refl, blast dest: submit_referral_R)

end

lemma match_referral_by_program:
  "match_referral X s req st = (x, st') \<Longrightarrow> by_program A s st st'"
  by (rule by_program.match_referral_R) (simp_all add: by_program_def)

lemma publish_reserved_by_program: "by_program A s st (publish_reserved X s results st)"
  by (rule by_program.publish_reserved_R) (simp add: by_program_def)

text \<open>No panic reaches the caller.\<close>

lemma read_no_panic:
  "fst (exec s (\<lambda>m. insert_referral i cw rg nd vu fa (mv_now m)) st) \<noteq> Inl (Panicked msg)"
  "fst (exec s (\<lambda>_. candidate_bed rg nd) st) \<noteq> Inl (Panicked msg)"
  "fst (resolve_final_outcome s i st) \<noteq> Inl (Panicked msg)"
  unfolding resolve_final_outcome_def
  by (rule exec_no_panic; simp add: insert_referral_def candidate_bed_def final_outcome_def
      lift_insert_def split: sum.split)+

lemma submit_loop_no_panic: "fst (submit_loop n s i rg nd side st) \<noteq> Inl (Panicked msg)"
proof (induction n arbitrary: side st)
  case 0
  show ?case
    using read_no_panic(3) [of s i st msg]
    by (cases "resolve_final_outcome s i st") (auto simp: try_bind_def split: sum.split)
next
  case (Suc n)
  have final: "fst (try_bind (resolve_final_outcome s i st1) (\<lambda>outcome st. (Inr (outcome, side), st)))
      \<noteq> Inl (Panicked msg)" for st1
    using read_no_panic(3) [of s i st1 msg]
    by (cases "resolve_final_outcome s i st1") (auto simp: try_bind_def split: sum.split)
  have alloc: "fst (try_bind (allocate_for_bed s bed st1) (\<lambda>allocation st. case allocation of
      Some result \<Rightarrow> if referral_id result = i then (Inr (Matched result, side), st)
        else submit_loop n s i rg nd (side @ [result]) st
    | None \<Rightarrow> submit_loop n s i rg nd side st)) \<noteq> Inl (Panicked msg)" for bed st1
    using allocate_for_bed_no_panic [of s bed st1 msg] Suc.IH
    by (cases "allocate_for_bed s bed st1") (auto simp: try_bind_def split: sum.split option.split)
  obtain c st1 where c: "exec s (\<lambda>_. candidate_bed rg nd) st = (c, st1)" by fastforce
  with read_no_panic(2) [of s rg nd st msg] final [of st1] alloc [of _ st1] show ?case
    by (cases c) (auto split: option.split)
qed

lemma submit_referral_no_panic: "submit_referral s cw rg nd vu fa st \<noteq> (Inl (Panicked msg), st')"
proof
  assume "submit_referral s cw rg nd vu fa st = (Inl (Panicked msg), st')"
  then show False
    unfolding submit_referral_def Let_def
  proof (rule try_bind_cases)
    fix e assume e: "exec s (\<lambda>m. insert_referral (mv_uuid (s (pos st))) cw rg nd vu fa (mv_now m)) st
        = (Inl e, st')" "Inl (Panicked msg) = Inl e"
    show False using read_no_panic(1) [of s "mv_uuid (s (pos st))" cw rg nd vu fa st msg] e by simp
  next
    fix st1 assume "submit_loop 500 s (mv_uuid (s (pos st))) rg nd [] st1 = (Inl (Panicked msg), st')"
    with submit_loop_no_panic [of 500 s "mv_uuid (s (pos st))" rg nd "[]" st1 msg] show False
      by simp
  qed
qed

end
