(* ===== verification/Publication.thy ===== *)
theory Publication
  imports Matching_Grpc
begin

section \<open>Every allocation of a call is published\<close>

text \<open>
  A result of the matcher names a bed of the database with its shelter, so a publication finds
  the region it needs.
\<close>

definition names_bed :: "db \<Rightarrow> AllocationResult \<Rightarrow> bool" where
  "names_bed d a \<longleftrightarrow> (\<exists>b\<in>set (beds d). b_id b = bed_id a \<and> b_shelter_id b = shelter_id a)"

lemma names_bed_steps:
  assumes "(db_step A)\<^sup>*\<^sup>* d d'" and "names_bed d a"
  shows "names_bed d' a"
proof -
  obtain b where "b \<in> set (beds d)" "b_id b = bed_id a" "b_shelter_id b = shelter_id a"
    using assms(2) by (auto simp: names_bed_def)
  moreover then obtain b' where "b' \<in> set (beds d')" "bed_static b' = bed_static b"
    using extendsD(1) [OF db_steps_extends [OF assms(1)]] by blast
  ultimately show ?thesis by (auto simp: names_bed_def bed_static_eq intro!: bexI [of _ b'])
qed

lemma names_bed_by_program:
  "fair_script A s \<Longrightarrow> by_program A s st st' \<Longrightarrow> names_bed (pool st) a \<Longrightarrow> names_bed (pool st') a"
  unfolding by_program_def using names_bed_steps by blast

lemma outcome_names_bed: "outcome_true d i (Matched a) \<Longrightarrow> names_bed d a"
  by (simp add: names_bed_def holds_def)

text \<open>
  What holds of a side allocation when it is made, and stays true, holds of every side allocation
  at the end.
\<close>

lemma submit_loop_side:
  assumes keep: "\<And>st st' a. by_program A s st st' \<Longrightarrow> Q (pool st) a \<Longrightarrow> Q (pool st') a"
    and won: "\<And>c st st1 st2 result. exec s (\<lambda>_. candidate_bed rg nd) st = (Inr (Some c), st1) \<Longrightarrow>
      booking_inv (pool st1) \<Longrightarrow> allocate_for_bed s c st1 = (Inr (Some result), st2) \<Longrightarrow>
      Q (pool st2) result"
    and fair: "fair_script A s"
  shows "submit_loop n s i rg nd side st = (Inr (out, side'), st') \<Longrightarrow> booking_inv (pool st) \<Longrightarrow>
    \<forall>a\<in>set side. Q (pool st) a \<Longrightarrow> \<forall>a\<in>set side'. Q (pool st') a"
proof (induction n arbitrary: side st)
  case 0
  then show ?case
    by (auto simp: try_bind_Inr dest: by_program.resolution [THEN keep])
next
  case (Suc n)
  have inv: "booking_inv (pool st')" if "by_program A s st st'" "booking_inv (pool st)" for st st'
    using that fair db_steps_booking_inv unfolding by_program_def by blast
  from Suc.prems(1) obtain c st1 where c: "exec s (\<lambda>_. candidate_bed rg nd) st = (Inr c, st1)"
    and k: "(case c of
         None \<Rightarrow> try_bind (resolve_final_outcome s i st1) (\<lambda>outcome st. (Inr (outcome, side), st))
       | Some bed \<Rightarrow> try_bind (allocate_for_bed s bed st1) (\<lambda>allocation st. case allocation of
             Some result \<Rightarrow> if referral_id result = i then (Inr (Matched result, side), st)
               else submit_loop n s i rg nd (side @ [result]) st
           | None \<Rightarrow> submit_loop n s i rg nd side st)) = (Inr (out, side'), st')"
    by (auto simp: try_bind_Inr)
  note p1 = by_program.candidate [OF c]
  have side1: "\<forall>a\<in>set side. Q (pool st1) a" using Suc.prems(3) keep [OF p1] by blast
  have inv1: "booking_inv (pool st1)" by (rule inv [OF p1 Suc.prems(2)])
  show ?case
  proof (cases c)
    case None
    with k obtain st2 where "resolve_final_outcome s i st1 = (Inr out, st2)" "side' = side" "st' = st2"
      by (auto simp: try_bind_Inr)
    with side1 keep [OF by_program.resolution] show ?thesis by blast
  next
    case (Some bed)
    with k obtain a st2 where a: "allocate_for_bed s bed st1 = (Inr a, st2)"
      and k2: "(case a of Some result \<Rightarrow> if referral_id result = i then (Inr (Matched result, side), st2)
               else submit_loop n s i rg nd (side @ [result]) st2
           | None \<Rightarrow> submit_loop n s i rg nd side st2) = (Inr (out, side'), st')"
      by (auto simp: try_bind_Inr)
    note p2 = by_program.allocation [OF a]
    have side2: "\<forall>a\<in>set side. Q (pool st2) a" using side1 keep [OF p2] by blast
    note IH = Suc.IH [OF _ inv [OF p2 inv1]]
    show ?thesis
    proof (cases a)
      case None
      with k2 IH side2 show ?thesis by simp
    next
      case won': (Some result)
      have "Q (pool st2) result"
        by (rule won [OF _ inv1]) (use c a Some won' in simp_all)
      with side2 IH [of "side @ [result]"] k2 won' show ?thesis by (auto split: if_splits)
    qed
  qed
qed

lemma submit_referral_side:
  assumes keep: "\<And>st st' a. by_program A s st st' \<Longrightarrow> Q (pool st) a \<Longrightarrow> Q (pool st') a"
    and won: "\<And>c st st1 st2 result. exec s (\<lambda>_. candidate_bed rg nd) st = (Inr (Some c), st1) \<Longrightarrow>
      booking_inv (pool st1) \<Longrightarrow> allocate_for_bed s c st1 = (Inr (Some result), st2) \<Longrightarrow>
      Q (pool st2) result"
    and fair: "fair_script A s" and inv: "booking_inv (pool st)"
    and run: "submit_referral s cw rg nd vu fa st = (Inr (out, side), st')"
  shows "\<forall>a\<in>set side. Q (pool st') a"
proof -
  let ?i = "mv_uuid (s (pos st))"
  obtain u st1 where ins: "exec s (\<lambda>m. insert_referral ?i cw rg nd vu fa (mv_now m)) st = (Inr u, st1)"
    and loop: "submit_loop 500 s ?i rg nd [] st1 = (Inr (out, side), st')"
    using run by (auto simp: submit_referral_def Let_def try_bind_Inr)
  have "booking_inv (pool st1)"
    using by_program.insertion [OF ins, of A] fair inv db_steps_booking_inv
    unfolding by_program_def by blast
  from submit_loop_side [where Q = Q, OF keep won fair loop this] show ?thesis by simp
qed

text \<open>The bed of a result is in the region that the request names.\<close>

definition bed_in_region :: "db \<Rightarrow> string \<Rightarrow> uuid \<Rightarrow> bool" where
  "bed_in_region d region bed \<longleftrightarrow> (\<exists>b\<in>set (beds d). \<exists>sr\<in>set (shelters d).
     b_id b = bed \<and> s_id sr = b_shelter_id b \<and> s_region sr = region)"

lemma bed_in_region_by_program:
  assumes "fair_script A s" and "by_program A s st st'" and "bed_in_region (pool st) region bed"
  shows "bed_in_region (pool st') region bed"
proof -
  have ext: "extends (pool st) (pool st')"
    using assms(1,2) db_steps_extends unfolding by_program_def by blast
  obtain b sr where b: "b \<in> set (beds (pool st))" "b_id b = bed"
    and sr: "sr \<in> set (shelters (pool st))" "s_id sr = b_shelter_id b" "s_region sr = region"
    using assms(3) by (auto simp: bed_in_region_def)
  obtain b' where "b' \<in> set (beds (pool st'))" "bed_static b' = bed_static b"
    using extendsD(1) [OF ext b(1)] by blast
  with b sr extendsD(3) [OF ext sr(1)] show ?thesis
    unfolding bed_in_region_def bed_static_eq by (intro bexI [of _ b'] bexI [of _ sr]) simp_all
qed

lemma candidate_in_region:
  assumes "exec s (\<lambda>_. candidate_bed rg nd) st = (Inr (Some c), st1)"
  shows "bed_in_region (pool st1) rg c"
proof -
  obtain d d' where d: "candidate_bed rg nd d = (Inr (Some c), d')" "pool st1 = d'"
    using assms by (auto simp: exec_Inr)
  obtain b where "offers d rg nd b" "b_id b = c" using candidate_bed_Some(2) [OF d(1)] by blast
  with candidate_bed_Some(1) [OF d(1)] d(2) show ?thesis
    by (auto simp: bed_in_region_def offers_def candidate_filter_def)
qed

text \<open>Every result of a submission names its bed and the bed is in the region of the request.\<close>

definition published_in :: "string \<Rightarrow> db \<Rightarrow> AllocationResult \<Rightarrow> bool" where
  "published_in region d a \<longleftrightarrow> names_bed d a \<and> bed_in_region d region (bed_id a)"

lemma published_in_by_program:
  "fair_script A s \<Longrightarrow> by_program A s st st' \<Longrightarrow> published_in rg (pool st) a \<Longrightarrow>
     published_in rg (pool st') a"
  unfolding published_in_def using names_bed_by_program bed_in_region_by_program by blast

lemma published_in_shelter:
  assumes "schema_ok d" and "published_in rg d a"
  obtains sr where "sr \<in> set (shelters d)" "s_id sr = shelter_id a" "s_region sr = rg"
proof -
  obtain b where b: "b \<in> set (beds d)" "b_id b = bed_id a" "b_shelter_id b = shelter_id a"
    using assms(2) by (auto simp: published_in_def names_bed_def)
  obtain c sr where c: "c \<in> set (beds d)" "b_id c = bed_id a" "sr \<in> set (shelters d)"
    "s_id sr = b_shelter_id c" "s_region sr = rg"
    using assms(2) by (auto simp: published_in_def bed_in_region_def)
  have "c = b" using distinct_key_eq [OF schema_ok_keys(2) [OF assms(1)] c(1) b(1)] b(2) c(2) by simp
  with b c show thesis by (intro that) simp_all
qed

text \<open>The region of a referral never changes, and a live booking is in the region of its referral.\<close>

lemma live_in_region:
  assumes inv: "booking_inv d" and r: "r \<in> set (referrals d)" "r_id r = i" "r_region r = rg"
    and v: "v \<in> set (reservations d)" "v_referral_id v = i"
  shows "bed_in_region d rg (v_bed_id v)"
proof -
  have "booking_suits d v" using inv v(1) by (simp add: booking_inv_def)
  then obtain b sr q where q: "b \<in> set (beds d)" "sr \<in> set (shelters d)" "q \<in> set (referrals d)"
    "b_id b = v_bed_id v" "s_id sr = b_shelter_id b" "r_id q = v_referral_id v"
    "suits b (s_region sr) q" by (auto simp: booking_suits_def)
  have "q = r"
    using distinct_key_eq [OF schema_ok_keys(3) [OF booking_inv_parts(1) [OF inv]] q(3) r(1)]
      q(6) v(2) r(2) by simp
  with q r(3) show ?thesis by (auto simp: bed_in_region_def suits_def)
qed

lemma submission_keeps_region:
  assumes fair: "fair_script A s"
    and run: "submit_referral s cw rg nd vu fa st = (Inr (out, side), st')"
  obtains r where "r \<in> set (referrals (pool st'))" "r_id r = mv_uuid (s (pos st))" "r_region r = rg"
proof -
  let ?i = "mv_uuid (s (pos st))"
  obtain u st1 where ins: "exec s (\<lambda>m. insert_referral ?i cw rg nd vu fa (mv_now m)) st = (Inr u, st1)"
    and loop: "submit_loop 500 s ?i rg nd [] st1 = (Inr (out, side), st')"
    using run by (auto simp: submit_referral_def Let_def try_bind_Inr)
  obtain d where "insert_referral ?i cw rg nd vu fa (mv_now (s (pos st))) d = (Inr (), pool st1)"
    using ins by (auto simp: exec_Inr)
  then obtain r where r: "insert_referral_row r d = Inr (pool st1)" "r_id r = ?i" "r_region r = rg"
    by (rule insert_referral_Inr_row) blast
  have "r \<in> set (referrals (pool st1))" using insert_referral_Inr [OF r(1)] by simp
  moreover have "extends (pool st1) (pool st')"
    using by_program.submit_loop_R [OF loop, of A] fair db_steps_extends
    unfolding by_program_def by blast
  ultimately obtain r' where "r' \<in> set (referrals (pool st'))" "referral_static r' = referral_static r"
    using extendsD(2) by blast
  with r show thesis by (intro that [of r']) (simp_all add: referral_static_eq)
qed

lemma submit_referral_published_in:
  assumes fair: "fair_script A s" and inv: "booking_inv (pool st)"
    and run: "submit_referral s cw rg nd vu fa st = (Inr (out, side), st')"
  shows "\<forall>a\<in>set (to_publish out side). published_in rg (pool st') a"
proof -
  have won: "published_in rg (pool st2) result"
    if c: "exec s (\<lambda>_. candidate_bed rg nd) st0 = (Inr (Some c), st1)"
      and a: "allocate_for_bed s c st1 = (Inr (Some result), st2)" for c st0 st1 st2 result
    using bed_in_region_by_program [OF fair by_program.allocation [OF a] candidate_in_region [OF c]]
      allocate_for_bed_holds [OF a] by (auto simp: published_in_def names_bed_def holds_def)
  have side: "\<forall>a\<in>set side. published_in rg (pool st') a"
  proof (rule submit_referral_side [OF _ _ fair inv run])
    fix st0 st1 a assume "by_program A s st0 st1" "published_in rg (pool st0) a"
    then show "published_in rg (pool st1) a" by (rule published_in_by_program [OF fair])
  next
    fix c st0 st1 st2 result
    assume "exec s (\<lambda>_. candidate_bed rg nd) st0 = (Inr (Some c), st1)"
      "allocate_for_bed s c st1 = (Inr (Some result), st2)"
    then show "published_in rg (pool st2) result" by (rule won)
  qed
  have inv': "booking_inv (pool st')"
    using by_program.submit_referral_R [OF run] fair inv db_steps_booking_inv
    unfolding by_program_def by blast
  have out: "outcome_true (pool st') (mv_uuid (s (pos st))) out"
    using submit_referral_outcome [OF run booking_inv_parts(1) [OF inv']] by blast
  obtain r where r: "r \<in> set (referrals (pool st'))" "r_id r = mv_uuid (s (pos st))" "r_region r = rg"
    by (rule submission_keeps_region [OF fair run])
  show ?thesis
  proof (cases out)
    case (Matched a)
    with out have "names_bed (pool st') a" using outcome_names_bed by blast
    moreover have "bed_in_region (pool st') rg (bed_id a)"
    proof -
      obtain v where "v \<in> set (reservations (pool st'))" "v_referral_id v = mv_uuid (s (pos st))"
        "v_bed_id v = bed_id a" using out Matched by (auto simp: holds_def)
      with live_in_region [OF inv' r, of v] show ?thesis by simp
    qed
    ultimately show ?thesis using side Matched by (simp add: to_publish_def published_in_def)
  qed (use side in \<open>simp add: to_publish_def\<close>)
qed

subsection \<open>Publications while the connection is healthy\<close>

text \<open>
  Without a fault a publication sends one update, whatever others do and send meanwhile; its
  count was true of the database at the moment it was read.
\<close>

definition update_of ::
  "externals \<Rightarrow> AllocationResult \<Rightarrow> string \<Rightarrow> BedStatus \<Rightarrow> BedAvailabilityUpdate \<Rightarrow> bool" where
  "update_of X a region status u \<longleftrightarrow> up_shelter_id u = show_uuid X (shelter_id a) \<and>
     up_bed_id u = show_uuid X (bed_id a) \<and> up_region u = region \<and>
     up_status u = proto_BedStatus_as_i32 (BedStatus_to_proto status)"

definition available_in :: "db \<Rightarrow> string \<Rightarrow> int" where
  "available_in d region = int (length (filter (\<lambda>(b, s). s_region s = region \<and> b_status b = ''available'')
     (beds_join_shelters d)))"

lemma publish_healthy:
  assumes fair: "fair_script A s" and inv: "booking_inv (pool st)"
    and ok: "mv_fault (s (pos st)) = None" "mv_fault (s (Suc (pos st))) = None"
    and sh: "sr \<in> set (shelters (pool st))" "s_id sr = sh"
  obtains d u where "(db_step A)\<^sup>*\<^sup>* (pool st) d"
    "publish_bed_update X s sh b status ts st =
       st\<lparr>pool := d, pos := pos st + 2,
         availability_tx := availability_tx st @ sent_by_others s (pos st) (pos st + 2) @ [u]\<rparr>"
    "up_shelter_id u = show_uuid X sh" "up_bed_id u = show_uuid X b" "up_region u = s_region sr"
    "up_status u = proto_BedStatus_as_i32 (BedStatus_to_proto status)"
    "up_event_timestamp_ms u = ts" "up_available_count_in_region u = available_in d (s_region sr)"
    "up_delivered_timestamp_ms u = mv_utc_ms (s (pos st + 2))"
proof -
  let ?d1 = "mv_interfere (s (pos st)) (pool st)"
  let ?d2 = "mv_interfere (s (Suc (pos st))) ?d1"
  have steps: "(db_step A)\<^sup>*\<^sup>* (pool st) ?d1" "(db_step A)\<^sup>*\<^sup>* ?d1 ?d2"
    using fair by (simp_all add: fair_script_def)
  have sr: "sr \<in> set (shelters ?d1)" using extendsD(3) [OF db_steps_extends [OF steps(1)] sh(1)] .
  have "schema_ok ?d1" using db_steps_booking_inv [OF steps(1) inv] by (simp add: booking_inv_def)
  then have "fetch_optional (filter (\<lambda>x. s_id x = s_id sr) (shelters ?d1)) = Some sr"
    by (intro fetch_by_key [OF schema_ok_keys(1) sr])
  then obtain more where row: "filter (\<lambda>x. s_id x = sh) (shelters ?d1) = sr # more"
    using sh(2) by (cases "filter (\<lambda>x. s_id x = sh) (shelters ?d1)") auto
  let ?st1 = "st\<lparr>pool := ?d1, availability_tx := availability_tx st @ mv_sends (s (pos st)), pos := Suc (pos st)\<rparr>"
  from row have 1: "region_of_shelter s sh st = (Inr (s_region sr), ?st1)"
    by (simp add: region_of_shelter_def exec_Inr ok(1) region_of_shelter_tx_def)
  have 2: "available_count_in_region s (s_region sr) ?st1 =
      (Inr (available_in ?d2 (s_region sr)), ?st1\<lparr>pool := ?d2,
        availability_tx := availability_tx ?st1 @ mv_sends (s (Suc (pos st))), pos := Suc (Suc (pos st))\<rparr>)"
    by (simp add: available_count_in_region_def exec_Inr ok(2) available_count_tx_def available_in_def)
  show thesis
    by (rule that [where d = ?d2]) (use steps in \<open>auto simp: publish_bed_update_def 1 2 utc_now_ms_def sent_by_others_step\<close>)
qed

lemma publish_reserved_healthy:
  assumes fair: "fair_script A s"
  shows "booking_inv (pool st) \<Longrightarrow> \<forall>a\<in>set results. published_in rg (pool st) a \<Longrightarrow>
    \<forall>k. pos st \<le> k \<longrightarrow> mv_fault (s k) = None \<Longrightarrow>
    \<exists>updates sent. pos st \<le> pos (publish_reserved X s results st) \<and>
      availability_tx (publish_reserved X s results st) = availability_tx st @ sent \<and>
      sent \<in> shuffles updates (sent_by_others s (pos st) (pos (publish_reserved X s results st))) \<and>
      list_all2 (\<lambda>a. update_of X a rg Reserved) results updates"
proof (induction results arbitrary: st)
  case Nil
  then show ?case by simp
next
  case (Cons a results)
  let ?st1 = "publish_bed_update X s (shelter_id a) (bed_id a) Reserved (utc_now_ms s st) st"
  obtain sr where sr: "sr \<in> set (shelters (pool st))" "s_id sr = shelter_id a" "s_region sr = rg"
    using published_in_shelter booking_inv_parts(1) [OF Cons.prems(1)] Cons.prems(2)
    by (metis list.set_intros(1))
  have ok: "mv_fault (s (pos st)) = None" "mv_fault (s (Suc (pos st))) = None"
    using Cons.prems(3) by simp_all
  obtain d u where u: "?st1 = st\<lparr>pool := d, pos := pos st + 2,
      availability_tx := availability_tx st @ sent_by_others s (pos st) (pos st + 2) @ [u]\<rparr>"
    "(db_step A)\<^sup>*\<^sup>* (pool st) d" "update_of X a rg Reserved u"
    by (rule publish_healthy [OF fair Cons.prems(1) ok sr(1,2), of X "bed_id a" Reserved "utc_now_ms s st"])
       (auto simp: update_of_def sr(3) intro: that)
  have "by_program A s st ?st1" by (rule publish_by_program)
  then have "\<forall>a\<in>set results. published_in rg (pool ?st1) a"
    using Cons.prems(2) published_in_by_program [OF fair] by auto
  moreover have "booking_inv (pool ?st1)"
    using db_steps_booking_inv [OF u(2) Cons.prems(1)] u(1) by simp
  moreover have "\<forall>k. pos ?st1 \<le> k \<longrightarrow> mv_fault (s k) = None" using Cons.prems(3) u(1) by simp
  ultimately obtain us sent where more: "pos ?st1 \<le> pos (publish_reserved X s results ?st1)"
    "availability_tx (publish_reserved X s results ?st1) = availability_tx ?st1 @ sent"
    "sent \<in> shuffles us (sent_by_others s (pos ?st1) (pos (publish_reserved X s results ?st1)))"
    "list_all2 (\<lambda>a. update_of X a rg Reserved) results us" using Cons.IH by blast
  have "sent_by_others s (pos st) (pos st + 2) @ [u] \<in>
      shuffles [u] (sent_by_others s (pos st) (pos st + 2))"
    using shuffles_append_right [of "[u]" "[u]" "[]"] by simp
  from shuffles_append [OF this more(3)] more(1)
  have "(sent_by_others s (pos st) (pos st + 2) @ [u]) @ sent \<in>
      shuffles (u # us) (sent_by_others s (pos st) (pos (publish_reserved X s results ?st1)))"
    using sent_by_others_append [of "pos st" "pos st + 2"] by (simp add: u(1))
  with u(1,3) more(1,2,4) show ?case
    by (intro exI [of _ "u # us"] exI [of _ "(sent_by_others s (pos st) (pos st + 2) @ [u]) @ sent"]) simp
qed

lemma match_referral_publishes:
  assumes fair: "fair_script A s" and inv: "booking_inv (pool st)"
    and ok: "\<forall>k. pos st \<le> k \<longrightarrow> mv_fault (s k) = None"
    and run: "match_referral X s req st = (Inr resp, st')"
  obtains criteria out side st1 updates sent where "rq_criteria req = Some criteria"
    "submit_referral s (rq_caseworker_id req) (rq_region req) (needs_of_criteria X criteria)
      (c_vulnerability_score criteria) (c_family_size criteria) st = (Inr (out, side), st1)"
    "availability_tx st' = availability_tx st @ sent" "pos st \<le> pos st'"
    "sent \<in> shuffles updates (sent_by_others s (pos st) (pos st'))"
    "list_all2 (\<lambda>a. update_of X a (rq_region req) Reserved) (to_publish out side) updates"
  using run
proof (cases rule: match_referral_cases)
  case (answered criteria out side st1)
  have "booking_inv (pool st1)"
    using by_program.submit_referral_R [OF answered(2)] fair inv db_steps_booking_inv
    unfolding by_program_def by blast
  moreover have "\<forall>k. pos st1 \<le> k \<longrightarrow> mv_fault (s k) = None"
    using consumer_progress.submit_referral_R [OF answered(2)] ok order.trans by blast
  ultimately obtain updates sent where tx: "availability_tx st' = availability_tx st1 @ sent"
    "pos st1 \<le> pos st'" "sent \<in> shuffles updates (sent_by_others s (pos st1) (pos st'))"
    "list_all2 (\<lambda>a. update_of X a (rq_region req) Reserved) (to_publish out side) updates"
    using publish_reserved_healthy [OF fair _ submit_referral_published_in [OF fair inv answered(2)]]
      answered(4) by blast
  have quiet: "pos st \<le> pos st1" "availability_tx st1 = availability_tx st @ sent_by_others s (pos st) (pos st1)"
    using silent.submit_referral_R [OF answered(2)] by (simp_all add: silently_def)
  have "sent_by_others s (pos st) (pos st1) @ sent \<in> shuffles updates (sent_by_others s (pos st) (pos st'))"
    using shuffles_append_right [OF tx(3), of "sent_by_others s (pos st) (pos st1)"]
      sent_by_others_append [OF quiet(1) tx(2)] by simp
  with answered(1,2) tx quiet show thesis
    by (intro that [of criteria out side st1 "sent_by_others s (pos st) (pos st1) @ sent" updates]) simp_all
qed simp_all

subsection \<open>Submissions succeed while the connection is healthy\<close>

definition healthy :: "nat \<Rightarrow> script \<Rightarrow> AppState \<Rightarrow> bool" where
  "healthy H s st \<longleftrightarrow> booking_inv (pool st) \<and> ids_unused H s st \<and>
     (\<forall>k\<ge>pos st. mv_fault (s k) = None)"

lemma healthy_after:
  assumes "fair_script A s" and "distinct_ids H s" and "by_program A s st st'" and "keeps_ids H s st st'"
    and "pos st \<le> pos st'" and "healthy H s st"
  shows "healthy H s st'"
  using assms db_steps_booking_inv [of A "pool st" "pool st'"]
  by (simp add: healthy_def by_program_def keeps_ids_def)

lemma exec_total:
  assumes "healthy H s st" and "\<And>m d. \<exists>x. fst (q m d) = Inr x"
  shows "\<exists>x st'. exec s q st = (Inr x, st')"
proof -
  let ?m = "s (pos st)"
  obtain x where "fst (q ?m (mv_interfere ?m (pool st))) = Inr x" using assms(2) by blast
  then obtain d where "q ?m (mv_interfere ?m (pool st)) = (Inr x, d)" by (metis prod.collapse)
  then show ?thesis using assms(1) by (intro exI) (simp add: exec_Inr healthy_def)
qed

lemma allocate_for_bed_total:
  assumes fair: "fair_script A s" and ids: "distinct_ids H s" and st: "healthy H s st"
    and H: "pos st < H"
  shows "\<exists>a st'. allocate_for_bed s b st = (Inr a, st')"
proof -
  let ?m = "s (pos st)" and ?d = "mv_interfere (s (pos st)) (pool st)"
  have "booking_inv ?d"
    using db_steps_booking_inv [of A "pool st" ?d] fair st by (simp add: fair_script_def healthy_def)
  moreover have "mv_uuid ?m \<notin> v_id ` set (reservations (pool st))"
    using st H by (simp add: healthy_def ids_unused_def)
  then have "mv_uuid ?m \<notin> v_id ` set (reservations ?d)"
    using ids H unfolding distinct_ids_def by blast
  ultimately obtain a d' where "allocate_tx (mv_locked ?m) (mv_uuid ?m) (mv_now ?m) b ?d = (Inr a, d')"
    using allocate_tx_total by blast
  then show ?thesis using st by (intro exI) (simp add: allocate_for_bed_def exec_Inr healthy_def)
qed

lemma resolve_total:
  "healthy H s st \<Longrightarrow> \<exists>out st'. resolve_final_outcome s i st = (Inr out, st')"
  unfolding resolve_final_outcome_def by (rule exec_total) (simp_all add: final_outcome_def)

lemma candidate_total:
  "healthy H s st \<Longrightarrow> \<exists>c st'. exec s (\<lambda>_. candidate_bed rg nd) st = (Inr c, st')"
  by (rule exec_total) (simp_all add: candidate_bed_def)

lemma submit_loop_succeeds:
  assumes fair: "fair_script A s" and ids: "distinct_ids H s"
  shows "healthy H s st \<Longrightarrow> pos st + 2 * n \<le> H \<Longrightarrow>
    \<exists>r st'. submit_loop n s i rg nd side st = (Inr r, st')"
proof (induction n arbitrary: side st)
  case 0
  obtain out st1 where "resolve_final_outcome s i st = (Inr out, st1)"
    using resolve_total [OF 0(1)] by blast
  then show ?case by simp
next
  case (Suc n)
  obtain c st1 where c: "exec s (\<lambda>_. candidate_bed rg nd) st = (Inr c, st1)"
    using candidate_total [OF Suc.prems(1)] by blast
  have p1: "pos st1 = Suc (pos st)" by (rule exec_frame(2) [OF c])
  have h1: "healthy H s st1"
    by (rule healthy_after [OF fair ids by_program.candidate [OF c] keeps_ids.candidate [OF c] _ Suc.prems(1)])
       (simp add: p1)
  obtain out st2 where out: "resolve_final_outcome s i st1 = (Inr out, st2)"
    using resolve_total [OF h1] by blast
  show ?case
  proof (cases c)
    case None
    with c out show ?thesis by simp
  next
    case (Some bed)
    obtain a st3 where a: "allocate_for_bed s bed st1 = (Inr a, st3)"
      using allocate_for_bed_total [OF fair ids h1] p1 Suc.prems(2) by fastforce
    have p3: "pos st3 = Suc (pos st1)" using a unfolding allocate_for_bed_def by (rule exec_frame(2))
    have "healthy H s st3"
      by (rule healthy_after [OF fair ids by_program.allocation [OF a] keeps_ids.allocation [OF a] _ h1])
         (simp add: p3)
    then have "\<exists>r st'. submit_loop n s i rg nd sd st3 = (Inr r, st')" for sd
      using Suc.IH p1 p3 Suc.prems(2) by simp
    with c Some a show ?thesis by (cases a) auto
  qed
qed

lemma submit_referral_total:
  assumes fair: "fair_script A s" and ids: "distinct_ids H s" and st: "healthy H s st"
    and fresh: "mv_uuid (s (pos st)) \<notin> r_id ` set (referrals (mv_interfere (s (pos st)) (pool st)))"
    and H: "pos st + 1002 \<le> H"
  shows "\<exists>out side st'. submit_referral s cw rg nd vu fa st = (Inr (out, side), st')"
proof -
  let ?i = "mv_uuid (s (pos st))" and ?d = "mv_interfere (s (pos st)) (pool st)"
  obtain d1 where d1: "insert_referral ?i cw rg nd vu fa (mv_now (s (pos st))) ?d = (Inr (), d1)"
    using fresh by (simp add: insert_referral_def insert_referral_row_def referral_check_def
        referral_status_check_def)
  let ?st1 = "st\<lparr>pool := d1, availability_tx := availability_tx st @ mv_sends (s (pos st)),
    pos := Suc (pos st)\<rparr>"
  from d1 have ins: "exec s (\<lambda>m. insert_referral ?i cw rg nd vu fa (mv_now m)) st =
      (Inr (), ?st1)"
    using st by (simp add: exec_Inr healthy_def)
  have "healthy H s ?st1"
    by (rule healthy_after [OF fair ids by_program.insertion [OF ins] keeps_ids.insertion [OF ins] _ st])
       simp
  from submit_loop_succeeds [OF fair ids this, of 500] H ins show ?thesis
    by (auto simp: submit_referral_def Let_def)
qed

end
