(* ===== verification/Intake.thy ===== *)
theory Intake
  imports Publication
begin

section \<open>Intake and gateway (crates/intake-ingestion, crates/caseworker-gateway)\<close>

text \<open>
  The intake service validates an event and publishes it to Kafka, keyed by its shelter; the
  gateway forwards the calls of caseworkers.
\<close>

subsection \<open>The intake service (crates/intake-ingestion/src/grpc.rs)\<close>

text \<open>
  The Kafka producer is a parameter: what it answers to a record and what it leaves in the topic.
  \<open>producer_ok\<close> states the documented behaviour: a send adds nothing but its own record, and an
  acknowledged one is in the topic; a send that fails may have been delivered or not.
\<close>

record FutureRecord =
  rec_topic :: string
  rec_key :: string
  rec_payload :: "8 word list"

record SubmitBedStatusResponse =
  accepted :: bool
  response_message :: string

type_synonym producer = "FutureRecord \<Rightarrow> FutureRecord list \<Rightarrow> (string + unit) \<times> FutureRecord list"

definition producer_ok :: "producer \<Rightarrow> bool" where
  "producer_ok send \<longleftrightarrow>
     (\<forall>rec log r log'. send rec log = (r, log') \<longrightarrow>
        log' = log @ [rec] \<or> log' = log \<and> r \<noteq> Inr ())"

definition submit_bed_status ::
  "externals \<Rightarrow> producer \<Rightarrow> string \<Rightarrow> BedStatusEvent option \<Rightarrow> FutureRecord list \<Rightarrow>
     (grpc_status + SubmitBedStatusResponse) \<times> FutureRecord list" where
  "submit_bed_status X send topic request log =
     (case request of
        None \<Rightarrow> (Inl (Invalid_argument_status ''event is required''), log)
      | Some event \<Rightarrow>
        if ev_event_id event = [] \<or> ev_shelter_id event = [] \<or> ev_bed_id event = []
        then (Inl (Invalid_argument_status ''event_id, shelter_id, and bed_id are all required''), log)
        else if event_status X (ev_status event) \<in> {BED_STATUS_UNSPECIFIED, Proto_RESERVED}
        then (Inl (Invalid_argument_status
               ''status must be one of AVAILABLE, OCCUPIED, or MAINTENANCE''), log)
        else (case send \<lparr>rec_topic = topic, rec_key = ev_shelter_id event,
                         rec_payload = encode_event X event\<rparr> log of
                (Inl err, log) \<Rightarrow>
                  (Inl (Internal_status (''failed to publish to kafka: '' @ err)), log)
              | (Inr _, log) \<Rightarrow>
                  (Inr \<lparr>accepted = True, response_message = ''accepted''\<rparr>, log)))"

text \<open>What intake lets through.\<close>

definition intake_event :: "externals \<Rightarrow> BedStatusEvent \<Rightarrow> bool" where
  "intake_event X event \<longleftrightarrow>
     ev_event_id event \<noteq> [] \<and> ev_shelter_id event \<noteq> [] \<and> ev_bed_id event \<noteq> [] \<and>
     BedStatus_from_proto (event_status X (ev_status event)) \<in> terminal_statuses \<and>
     event_status X (ev_status event) \<noteq> BED_STATUS_UNSPECIFIED"

definition intake_record :: "externals \<Rightarrow> string \<Rightarrow> FutureRecord \<Rightarrow> bool" where
  "intake_record X topic r \<longleftrightarrow> rec_topic r = topic \<and>
     (\<exists>event. decode_event X (rec_payload r) = Some event \<and> intake_event X event \<and>
        rec_key r = ev_shelter_id event)"

lemma terminal_status_iff:
  "st \<notin> {BED_STATUS_UNSPECIFIED, Proto_RESERVED} \<longleftrightarrow>
     BedStatus_from_proto st \<in> terminal_statuses \<and> st \<noteq> BED_STATUS_UNSPECIFIED"
  by (cases st) (simp_all add: terminal_statuses_def)

lemma submit_bed_status_cases:
  assumes "submit_bed_status X send topic request log = (x, log')"
  obtains (rejected) msg where "x = Inl (Invalid_argument_status msg)" "log' = log"
      "\<forall>event. request = Some event \<longrightarrow> \<not> intake_event X event"
  | (sent) event r where "request = Some event" "intake_event X event"
      "send \<lparr>rec_topic = topic, rec_key = ev_shelter_id event,
             rec_payload = encode_event X event\<rparr> log = (r, log')"
      "x = (case r of Inl err \<Rightarrow> Inl (Internal_status (''failed to publish to kafka: '' @ err))
            | Inr _ \<Rightarrow> Inr \<lparr>accepted = True, response_message = ''accepted''\<rparr>)"
proof (cases request)
  case None
  with assms show ?thesis
    by (intro rejected [of "''event is required''"]) (simp_all add: submit_bed_status_def)
next
  case (Some event)
  note run = assms [unfolded submit_bed_status_def Some option.case]
  show ?thesis
  proof (cases "ev_event_id event = [] \<or> ev_shelter_id event = [] \<or> ev_bed_id event = []")
    case True
    with run have "x = Inl (Invalid_argument_status ''event_id, shelter_id, and bed_id are all required'')"
      "log' = log" by simp_all
    then show ?thesis by (rule rejected) (use True Some in \<open>auto simp: intake_event_def\<close>)
  next
    case ids: False
    show ?thesis
    proof (cases "event_status X (ev_status event) \<in> {BED_STATUS_UNSPECIFIED, Proto_RESERVED}")
      case True
      with run ids have "x = Inl (Invalid_argument_status
          ''status must be one of AVAILABLE, OCCUPIED, or MAINTENANCE'')" "log' = log" by simp_all
      then show ?thesis
        by (rule rejected)
           (use True Some terminal_status_iff [of "event_status X (ev_status event)"] in
             \<open>auto simp: intake_event_def\<close>)
    next
      case False
      obtain r l where r: "send \<lparr>rec_topic = topic, rec_key = ev_shelter_id event,
             rec_payload = encode_event X event\<rparr> log = (r, l)" by fastforce
      show ?thesis
      proof (rule sent [OF Some, of r])
        show "intake_event X event"
          using ids False terminal_status_iff by (simp add: intake_event_def)
      qed (use run ids False r in \<open>auto split: sum.splits\<close>)
    qed
  qed
qed

lemma submit_bed_status_log:
  assumes X: "\<And>event. request = Some event \<Longrightarrow> decode_event X (encode_event X event) = Some event"
    and send: "producer_ok send"
    and run: "submit_bed_status X send topic request log = (x, log')"
  shows "\<exists>more. log' = log @ more \<and> (\<forall>r\<in>set more. intake_record X topic r) \<and>
    (\<forall>resp. x = Inr resp \<longrightarrow> length more = 1)"
  using run
proof (cases rule: submit_bed_status_cases)
  case (rejected msg)
  then show ?thesis by simp
next
  case (sent event r)
  let ?r = "\<lparr>rec_topic = topic, rec_key = ev_shelter_id event, rec_payload = encode_event X event\<rparr>"
  have rec: "intake_record X topic ?r"
    using X [OF sent(1)] sent(2) by (simp add: intake_record_def)
  from send sent(3) have "log' = log @ [?r] \<or> log' = log \<and> r \<noteq> Inr ()"
    unfolding producer_ok_def by blast
  then show ?thesis
  proof
    assume "log' = log @ [?r]"
    with rec show ?thesis by (intro exI [of _ "[?r]"]) simp
  next
    assume "log' = log \<and> r \<noteq> Inr ()"
    with sent(4) show ?thesis by (cases r) auto
  qed
qed

text \<open>
  The topic after a sequence of calls to intake.  How each is published is the producer's matter:
  it may be delivered or not, whatever happened to the calls before.
\<close>

fun intake_log ::
  "externals \<Rightarrow> string \<Rightarrow> (producer \<times> BedStatusEvent option) list \<Rightarrow> FutureRecord list \<Rightarrow> FutureRecord list"
where
  "intake_log X topic [] log = log"
| "intake_log X topic ((send, request) # calls) log =
     intake_log X topic calls (snd (submit_bed_status X send topic request log))"

lemma intake_log_records:
  assumes "\<forall>(send, request)\<in>set calls. producer_ok send \<and>
      (\<forall>event. request = Some event \<longrightarrow> decode_event X (encode_event X event) = Some event)"
    and "\<forall>r\<in>set log. intake_record X topic r"
  shows "\<forall>r\<in>set (intake_log X topic calls log). intake_record X topic r"
  using assms
proof (induction calls arbitrary: log)
  case (Cons call calls)
  obtain send request where call: "call = (send, request)" by (cases call)
  obtain x log1 where x: "submit_bed_status X send topic request log = (x, log1)" by fastforce
  from submit_bed_status_log [OF _ _ x] Cons.prems obtain more where
    "log1 = log @ more" "\<forall>r\<in>set more. intake_record X topic r" by (auto simp: call)
  with Cons.prems have "\<forall>r\<in>set log1. intake_record X topic r" by auto
  with Cons show ?case by (simp add: call x)
qed simp

subsection \<open>The gateway (crates/caseworker-gateway/src/grpc.rs)\<close>

text \<open>
  The gateway forwards each request on a clone of its client and returns what the client
  returns.  The client is a parameter: the generated stub over the network channel.
\<close>

record 'w matching_client =
  client_match_referral ::
    "SubmitReferralRequest \<Rightarrow> 'w \<Rightarrow> (grpc_status + SubmitReferralResponse) \<times> 'w"
  client_stream_availability ::
    "string \<Rightarrow> 'w \<Rightarrow> (grpc_status + (grpc_status + BedAvailabilityUpdate) list) \<times> 'w"

definition gateway_submit_referral ::
  "'w matching_client \<Rightarrow> SubmitReferralRequest \<Rightarrow> 'w \<Rightarrow>
     (grpc_status + SubmitReferralResponse) \<times> 'w" where
  "gateway_submit_referral client = client_match_referral client"

definition gateway_stream_availability ::
  "'w matching_client \<Rightarrow> string \<Rightarrow> 'w \<Rightarrow>
     (grpc_status + (grpc_status + BedAvailabilityUpdate) list) \<times> 'w" where
  "gateway_stream_availability client = client_stream_availability client"

end
