(* ===== verification/Ingestion.thy ===== *)
theory Ingestion
  imports Intake
begin

section \<open>The consumer over a topic\<close>

text \<open>
  What a run of the consumer over received messages does: it skips what cannot be read, it ends
  only by a panic of the task, and it commits an offset only when the event of the message is
  processed.
\<close>

lemma handle_payload_skips:
  "decode_event X payload = None \<Longrightarrow> handle_payload X s payload st = Some (Inr [], st)"
  "decode_event X payload = Some event \<Longrightarrow> parse_ids X event = None \<Longrightarrow>
     handle_payload X s payload st = Some (Inr [], st)"
  by (simp_all add: handle_payload_def)

text \<open>
  The retry loop runs attempts that fail; when it returns, the last one succeeded, and when it
  panics, the counter has overflowed.
\<close>

lemma retry_attempts:
  assumes "retry X s e b ns ev n pauses st = Some (r, st')"
  shows "\<exists>st1. (attempt X s e b ns ev)\<^sup>*\<^sup>* st st1 \<and>
    (case r of Inl panic \<Rightarrow> st' = st1
     | Inr _ \<Rightarrow> \<exists>u. apply_and_notify X s e b ns ev st1 = (Inr u, st'))"
proof -
  let ?P = "\<lambda>X s e b ns ev st y. \<exists>st1. (attempt X s e b ns ev)\<^sup>*\<^sup>* st st1 \<and>
    (case fst y of Inl panic \<Rightarrow> snd y = st1
     | Inr _ \<Rightarrow> \<exists>u. apply_and_notify X s e b ns ev st1 = (Inr u, snd y))"
  have "?P X s e b ns ev st y" if "retry X s e b ns ev n pauses st = Some y" for y
  proof (rule retry.raw_induct [OF _ that, where
      P = "\<lambda>X s e b ns ev n pauses st y. ?P X s e b ns ev st y"])
    fix again X s e b ns ev n pauses st y
    assume IH: "\<And>X s e b ns ev n pauses st y. again X s e b ns ev n pauses st = Some y \<Longrightarrow>
        ?P X s e b ns ev st y"
      and run: "(case apply_and_notify X s e b ns ev st of
          (Inr _, st) \<Rightarrow> Some (Inr pauses, st)
        | (Inl (Panicked msg), st) \<Rightarrow> Some (Inl msg, st)
        | (Inl (Failed _), st) \<Rightarrow>
            if unat n = 2 ^ 32 - 1 then Some (Inl ''attempt to add with overflow'', st)
            else again X s e b ns ev (n + 1) (pauses @ [backoff_ms (n + 1)]) st) = Some y"
    obtain x st1 where x: "apply_and_notify X s e b ns ev st = (x, st1)" by fastforce
    show "?P X s e b ns ev st y"
    proof (cases x)
      case (Inr u)
      with run x show ?thesis by auto
    next
      case (Inl f)
      obtain er where "f = Failed er"
        using apply_and_notify_no_panic x Inl by (cases f) auto
      have step: "attempt X s e b ns ev st st1" using x Inl by (auto simp: attempt_def)
      show ?thesis
      proof (cases "unat n = 2 ^ 32 - 1")
        case True
        with run x Inl \<open>f = Failed er\<close> have "y = (Inl ''attempt to add with overflow'', st1)" by simp
        with step show ?thesis by (intro exI [of _ st1]) simp
      next
        case False
        with run x Inl \<open>f = Failed er\<close>
        have "again X s e b ns ev (n + 1) (pauses @ [backoff_ms (n + 1)]) st1 = Some y" by simp
        from IH [OF this] step show ?thesis by (blast intro: converse_rtranclp_into_rtranclp)
      qed
    qed
  qed
  from this [OF assms] show ?thesis unfolding fst_conv snd_conv .
qed

context consumer_guarantee
begin

lemma attempts_R: "ns \<in> A \<Longrightarrow> (attempt X s e b ns ev)\<^sup>*\<^sup>* st st' \<Longrightarrow> R st st'"
  by (rotate_tac, induction rule: rtranclp_induct)
     (auto simp: attempt_def intro: refl trans apply_and_notify_R)

lemma retry_R: "ns \<in> A \<Longrightarrow> retry X s e b ns ev n pauses st = Some (r, st') \<Longrightarrow> R st st'"
  by (drule retry_attempts, cases r) (auto dest: attempts_R intro: trans apply_and_notify_R)

lemma handle_payload_R:
  assumes "\<And>ev. decode_event X payload = Some ev \<Longrightarrow>
      BedStatus_from_proto (event_status X (ev_status ev)) \<in> A"
    and "handle_payload X s payload st = Some (r, st')"
  shows "R st st'"
  using assms retry_R refl by (auto simp: handle_payload_def split: option.splits)

lemma handle_message_R:
  assumes "\<And>payload ev. msg_payload msg = Some payload \<Longrightarrow> decode_event X payload = Some ev \<Longrightarrow>
      BedStatus_from_proto (event_status X (ev_status ev)) \<in> A"
    and "handle_message X s ok msg c = Some (Inr c')"
  shows "R (app c) (app c')"
  using assms(2) handle_payload_R [OF assms(1)] refl
  by (auto simp: handle_message_def split: option.splits sum.splits)

end

lemma bed_ids_by_program:
  assumes "fair_script A s" and "by_program A s st st'" and "bed \<in> b_id ` set (beds (pool st))"
  shows "bed \<in> b_id ` set (beds (pool st'))"
proof -
  obtain b where b: "b \<in> set (beds (pool st))" "b_id b = bed" using assms(3) by blast
  have "extends (pool st) (pool st')"
    using assms(1,2) db_steps_extends unfolding by_program_def by blast
  from extendsD(1) [OF this b(1)] obtain b' where "b' \<in> set (beds (pool st'))" "b_id b' = b_id b"
    by (auto simp: bed_static_eq)
  with b(2) show ?thesis by (metis imageI)
qed

lemma by_program_booking_inv:
  "fair_script A s \<Longrightarrow> by_program A s st st' \<Longrightarrow> booking_inv (pool st) \<Longrightarrow> booking_inv (pool st')"
  unfolding by_program_def by (blast intro: db_steps_booking_inv)

lemma by_program_processed:
  "fair_script A s \<Longrightarrow> by_program A s st st' \<Longrightarrow> booking_inv (pool st) \<Longrightarrow>
     processed (pool st) e b sq \<Longrightarrow> processed (pool st') e b sq"
  unfolding by_program_def by (blast intro: db_steps_processed)

lemma retry_processed:
  assumes fair: "fair_script UNIV s" and inv: "booking_inv (pool st)"
    and b: "b \<in> b_id ` set (beds (pool st))"
    and run: "retry X s e b ns ev n pauses st = Some (Inr r, st')"
  shows "processed (pool st') e b (ev_sequence ev)"
proof -
  obtain st1 u where a: "(attempt X s e b ns ev)\<^sup>*\<^sup>* st st1"
    "apply_and_notify X s e b ns ev st1 = (Inr u, st')"
    using retry_attempts [OF run] by auto
  have p: "by_program UNIV s st st1" by (rule consumer_by_program.attempts_R [OF UNIV_I a(1)])
  obtain c where "c \<in> set (beds (pool st1))" "b_id c = b"
    using bed_ids_by_program [OF fair p b] by blast
  then show ?thesis
    by (rule apply_and_notify_processed [OF fair by_program_booking_inv [OF fair p inv] _ _ a(2)])
qed

subsection \<open>Messages\<close>

text \<open>The event of a message that can be read.\<close>

definition message_event :: "externals \<Rightarrow> kafka_message \<Rightarrow> (uuid \<times> uuid \<times> BedStatusEvent) option" where
  "message_event X msg = (case msg_payload msg of
      None \<Rightarrow> None
    | Some payload \<Rightarrow> (case decode_event X payload of
         None \<Rightarrow> None
       | Some ev \<Rightarrow> (case parse_ids X ev of None \<Rightarrow> None | Some (e, b) \<Rightarrow> Some (e, b, ev))))"

definition commit :: "(nat \<Rightarrow> bool) \<Rightarrow> kafka_message \<Rightarrow> AppState \<Rightarrow> consumer \<Rightarrow> consumer" where
  "commit commit_ok msg st c = c\<lparr>app := st,
     committed := committed c @ filter commit_ok [msg_offset msg]\<rparr>"

lemma handle_message_eq:
  "handle_message X s commit_ok msg c =
     (case message_event X msg of
        None \<Rightarrow> Some (Inr (commit commit_ok msg (app c) c))
      | Some (e, b, ev) \<Rightarrow>
        (case retry X s e b (BedStatus_from_proto (event_status X (ev_status ev))) ev 0 [] (app c) of
           None \<Rightarrow> None
         | Some (Inl panic, _) \<Rightarrow> Some (Inl panic)
         | Some (Inr _, st) \<Rightarrow> Some (Inr (commit commit_ok msg st c))))"
  by (auto simp: handle_message_def handle_payload_def message_event_def commit_def
      split: option.splits sum.splits)

subsection \<open>A run of the consumer\<close>

fun messages :: "(unit + kafka_message) list \<Rightarrow> kafka_message list" where
  "messages [] = []"
| "messages (Inl _ # received) = messages received"
| "messages (Inr msg # received) = msg # messages received"

definition message_done :: "externals \<Rightarrow> uuid set \<Rightarrow> db \<Rightarrow> kafka_message \<Rightarrow> bool" where
  "message_done X known d msg \<longleftrightarrow> (\<forall>e b ev. message_event X msg = Some (e, b, ev) \<longrightarrow>
     b \<in> known \<longrightarrow> processed d e b (ev_sequence ev))"

lemma message_done_by_program:
  "fair_script A s \<Longrightarrow> by_program A s st st' \<Longrightarrow> booking_inv (pool st) \<Longrightarrow>
     message_done X known (pool st) msg \<Longrightarrow> message_done X known (pool st') msg"
  unfolding message_done_def by (blast intro: by_program_processed)

lemma commit_sel [simp]:
  "app (commit ok msg st c) = st"
  "committed (commit ok msg st c) = committed c @ filter ok [msg_offset msg]"
  by (simp_all add: commit_def)

lemma handle_message_returns:
  assumes fair: "fair_script UNIV s" and inv: "booking_inv (pool (app c))"
    and run: "handle_message X s ok msg c = Some (Inr c')"
  obtains st where "c' = commit ok msg st c" "by_program UNIV s (app c) st"
    "message_done X (b_id ` set (beds (pool (app c)))) (pool st) msg"
proof (cases "message_event X msg")
  case None
  with run show thesis
    by (intro that [of "app c"]) (simp_all add: handle_message_eq message_done_def by_program_def)
next
  case (Some m)
  obtain e b ev where m: "m = (e, b, ev)" by (cases m)
  let ?ns = "BedStatus_from_proto (event_status X (ev_status ev))"
  obtain q st where q: "retry X s e b ?ns ev 0 [] (app c) = Some (Inr q, st)" "c' = commit ok msg st c"
    using run Some m by (auto simp: handle_message_eq split: option.splits sum.splits)
  note q(2)
  moreover have "by_program UNIV s (app c) st"
    by (rule consumer_by_program.retry_R [OF UNIV_I q(1)])
  moreover have "message_done X (b_id ` set (beds (pool (app c)))) (pool st) msg"
    using retry_processed [OF fair inv _ q(1)] Some m by (simp add: message_done_def)
  ultimately show thesis by (rule that)
qed

lemma run_consumer_returns:
  assumes fair: "fair_script UNIV s" and "booking_inv (pool (app c))"
    and "known \<subseteq> b_id ` set (beds (pool (app c)))"
    and "run_consumer X s ok received c = Some (Inr c')"
  shows "by_program UNIV s (app c) (app c') \<and>
    committed c' = committed c @ filter ok (map msg_offset (messages received)) \<and>
    (\<forall>msg\<in>set (messages received). message_done X known (pool (app c')) msg)"
  using assms(2-4)
proof (induction received arbitrary: c rule: messages.induct)
  case 1
  then show ?case by (auto simp: by_program_def)
next
  case (2 u received)
  then show ?case by simp
next
  case (3 msg received)
  from 3(4) obtain q where q: "handle_message X s ok msg c = Some (Inr q)"
    by (auto split: option.splits sum.splits)
  obtain st where st: "q = commit ok msg st c" "by_program UNIV s (app c) st"
    "message_done X (b_id ` set (beds (pool (app c)))) (pool st) msg"
    by (rule handle_message_returns [OF fair 3(2) q])
  have inv: "booking_inv (pool st)" by (rule by_program_booking_inv [OF fair st(2) 3(2)])
  have known: "known \<subseteq> b_id ` set (beds (pool st))"
    using bed_ids_by_program [OF fair st(2)] 3(3) by blast
  have "run_consumer X s ok received (commit ok msg st c) = Some (Inr c')"
    using 3(4) q st(1) by simp
  from 3(1) [OF _ _ this] inv known have c':
    "by_program UNIV s st (app c')"
    "committed c' = (committed c @ filter ok [msg_offset msg]) @
       filter ok (map msg_offset (messages received))"
    "\<forall>msg\<in>set (messages received). message_done X known (pool (app c')) msg" by auto
  have "message_done X known (pool st) msg"
    using st(3) 3(3) unfolding message_done_def by blast
  then have "message_done X known (pool (app c')) msg"
    by (rule message_done_by_program [OF fair c'(1) inv])
  with c' by_program.trans [OF st(2) c'(1)] show ?case by simp
qed

text \<open>With random identifiers and faults that end, the run comes to its end.\<close>

lemma run_consumer_ends:
  assumes fair: "fair_script UNIV s" and ids: "distinct_ids H s"
    and ok: "\<forall>k\<ge>N. mv_fault (s k) = None" and N: "N + 5 \<le> H" "N < 2 ^ 32"
    and "booking_inv (pool (app c))" and "ids_unused H s (app c)"
    and "max (pos (app c)) (N + 3) + 4 * length (messages received) + 2 \<le> H"
  shows "\<exists>c'. run_consumer X s commit_ok received c = Some (Inr c')"
  using assms(6-8)
proof (induction received arbitrary: c rule: messages.induct)
  case (3 msg received)
  have "\<exists>st. handle_message X s commit_ok msg c = Some (Inr (commit commit_ok msg st c)) \<and>
      by_program UNIV s (app c) st \<and> keeps_ids H s (app c) st \<and>
      pos st \<le> max (pos (app c)) (N + 3) + 4"
  proof (cases "message_event X msg")
    case None
    then show ?thesis
      by (intro exI [of _ "app c"]) (simp add: handle_message_eq by_program_def keeps_ids_def)
  next
    case (Some m)
    obtain e b ev where m: "m = (e, b, ev)" by (cases m)
    have "pos (app c) + 2 \<le> H" using 3(4) by simp
    then obtain n st1 st where q: "retry X s e b (BedStatus_from_proto (event_status X (ev_status ev))) ev 0 []
        (app c) = Some (Inr ([] @ pauses_upto 0 n), st)" "pos st \<le> max (pos (app c)) (N + 3) + 4"
      using retry_ends [OF fair UNIV_I ids ok N(1) 3(2,3) _, of 0] N(2) by fastforce
    with Some m consumer_by_program.retry_R [OF UNIV_I q(1)] keeps_ids.retry_R [OF UNIV_I q(1)]
    show ?thesis by (intro exI [of _ st]) (simp add: handle_message_eq)
  qed
  then obtain st where st: "handle_message X s commit_ok msg c = Some (Inr (commit commit_ok msg st c))"
    "by_program UNIV s (app c) st" "keeps_ids H s (app c) st" "pos st \<le> max (pos (app c)) (N + 3) + 4"
    by blast
  have "booking_inv (pool st)" by (rule by_program_booking_inv [OF fair st(2) 3(2)])
  moreover have "ids_unused H s st" using st(3) ids 3(3) by (simp add: keeps_ids_def)
  moreover have "max (pos st) (N + 3) + 4 * length (messages received) + 2 \<le> H"
    using st(4) 3(4) by simp
  ultimately show ?case using 3(1) [of "commit commit_ok msg st c"] st(1) by simp
qed simp_all

context consumer_guarantee
begin

lemma run_consumer_R:
  "\<forall>msg\<in>set (messages received). \<forall>payload ev. msg_payload msg = Some payload \<longrightarrow>
       decode_event X payload = Some ev \<longrightarrow> BedStatus_from_proto (event_status X (ev_status ev)) \<in> A \<Longrightarrow>
     run_consumer X s ok received c = Some (Inr c') \<Longrightarrow> R (app c) (app c')"
proof (induction received arbitrary: c rule: messages.induct)
  case (3 msg received)
  then obtain c1 where c1: "handle_message X s ok msg c = Some (Inr c1)"
    "run_consumer X s ok received c1 = Some (Inr c')"
    by (auto split: option.splits sum.splits)
  have "R (app c) (app c1)" by (rule handle_message_R [OF _ c1(1)]) (use 3(2) in simp)
  moreover have "R (app c1) (app c')" by (rule 3(1) [OF _ c1(2)]) (use 3(2) in simp)
  ultimately show ?case by (rule trans)
qed (simp_all add: refl)

end

text \<open>A consumer fed by intake keeps the stronger invariant.\<close>

lemma run_consumer_terminal_inv:
  assumes intake: "\<forall>msg\<in>set (messages received). \<forall>payload. msg_payload msg = Some payload \<longrightarrow>
      (\<exists>r. intake_record X topic r \<and> payload = rec_payload r)"
    and fair: "fair_script terminal_statuses s"
    and inv: "terminal_inv (pool (app c))"
    and run: "run_consumer X s ok received c = Some (Inr c')"
  shows "terminal_inv (pool (app c'))"
proof -
  have "by_program terminal_statuses s (app c) (app c')"
  proof (rule consumer_by_program.run_consumer_R [OF _ run], intro ballI allI impI)
    fix msg payload ev
    assume "msg \<in> set (messages received)" "msg_payload msg = Some payload"
      and dec: "decode_event X payload = Some ev"
    then obtain r where r: "intake_record X topic r" "payload = rec_payload r"
      using intake by blast
    with dec show "BedStatus_from_proto (event_status X (ev_status ev)) \<in> terminal_statuses"
      by (auto simp: intake_record_def intake_event_def)
  qed
  then show ?thesis using fair inv terminal.steps by (simp add: by_program_def)
qed

end
