(* ===== verification/Stats.thy ===== *)
theory Stats
  imports Startup
begin

section \<open>Latency statistics (crates/simulator/src/stats.rs, listener.rs)\<close>

text \<open>
  The samples are 64-bit integers.  Arithmetic is that of a build with overflow checks, as the
  default profile of Cargo has them: an overflow is a panic, here a text on the left.  The mean
  is a floating-point quotient in the code; the model keeps its numerator, the sum.
\<close>

subsection \<open>Checked arithmetic\<close>

definition add_i64 :: "i64 \<Rightarrow> i64 \<Rightarrow> string + i64" where
  "add_i64 a b =
     (if sint a + sint b < - (2 ^ 63) \<or> 2 ^ 63 \<le> sint a + sint b
      then Inl ''attempt to add with overflow'' else Inr (a + b))"

definition sub_i64 :: "i64 \<Rightarrow> i64 \<Rightarrow> string + i64" where
  "sub_i64 a b =
     (if sint a - sint b < - (2 ^ 63) \<or> 2 ^ 63 \<le> sint a - sint b
      then Inl ''attempt to subtract with overflow'' else Inr (a - b))"

definition mul_usize :: "usize \<Rightarrow> usize \<Rightarrow> string + usize" where
  "mul_usize a b =
     (if 2 ^ 64 \<le> unat a * unat b then Inl ''attempt to multiply with overflow'' else Inr (a * b))"

definition index :: "'a list \<Rightarrow> usize \<Rightarrow> string + 'a" where
  "index xs i = (if unat i < length xs then Inr (xs ! unat i) else Inl ''index out of bounds'')"

text \<open>\<open>iter().sum::<i64>()\<close>\<close>

fun sum_i64 :: "i64 \<Rightarrow> i64 list \<Rightarrow> string + i64" where
  "sum_i64 acc [] = Inr acc"
| "sum_i64 acc (x # xs) = (case add_i64 acc x of Inl p \<Rightarrow> Inl p | Inr acc \<Rightarrow> sum_i64 acc xs)"

lemma sint_add: "- (2 ^ 63) \<le> sint a + sint b \<Longrightarrow> sint a + sint b < 2 ^ 63 \<Longrightarrow>
    sint (a + b) = sint a + sint (b :: i64)"
  by (simp add: sint_word_ariths signed_take_bit_int_eq_self)

lemma sint_sub: "- (2 ^ 63) \<le> sint a - sint b \<Longrightarrow> sint a - sint b < 2 ^ 63 \<Longrightarrow>
    sint (a - b) = sint a - sint (b :: i64)"
  by (simp add: sint_word_ariths signed_take_bit_int_eq_self)

lemma add_i64_Inr: "add_i64 a b = Inr c \<Longrightarrow> sint c = sint a + sint b"
  by (auto simp: add_i64_def intro: sint_add split: if_splits)

lemma sub_i64_Inr: "sub_i64 a b = Inr c \<Longrightarrow> sint c = sint a - sint b"
  by (auto simp: sub_i64_def intro: sint_sub split: if_splits)

lemma sum_i64_Inr: "sum_i64 acc xs = Inr c \<Longrightarrow> sint c = sint acc + sum_list (map sint xs)"
  by (induction acc xs rule: sum_i64.induct) (auto dest: add_i64_Inr split: sum.splits)

lemma sum_i64_small:
  assumes "\<forall>x\<in>set xs. \<bar>sint x\<bar> \<le> B" and "\<bar>sint acc\<bar> + B * int (length xs) < 2 ^ 63"
  shows "\<exists>c. sum_i64 acc xs = Inr c"
  using assms
proof (induction xs arbitrary: acc)
  case (Cons x xs)
  have x: "\<bar>sint x\<bar> \<le> B" using Cons.prems(1) by simp
  then have "0 \<le> B" by linarith
  then have "0 \<le> B * int (length xs)" by simp
  with x Cons.prems(2) have "\<bar>sint acc + sint x\<bar> + B * int (length xs) < 2 ^ 63"
    by (simp add: distrib_left)
  moreover from this have a: "add_i64 acc x = Inr (acc + x)"
    using \<open>0 \<le> B * int (length xs)\<close> unfolding add_i64_def by (simp, linarith)
  ultimately have "\<bar>sint (acc + x)\<bar> + B * int (length xs) < 2 ^ 63"
    using add_i64_Inr [OF a] by simp
  with Cons.IH [of "acc + x"] Cons.prems(1) a show ?case by simp
qed simp

subsection \<open>The statistics\<close>

text \<open>The samples recorded so far; the mutex around them is never poisoned by these operations.\<close>

definition record_latency :: "i64 \<Rightarrow> i64 list \<Rightarrow> i64 list" where
  "record_latency latency_ms samples_ms = samples_ms @ [latency_ms]"

record latency_summary =
  sum_count :: usize
  sum_total_ms :: i64
  sum_p50_ms :: i64
  sum_p99_ms :: i64
  sum_max_ms :: i64

definition print_summary :: "i64 list \<Rightarrow> string + latency_summary option" where
  "print_summary samples_ms =
     (if samples_ms = [] then Inr None
      else
        let samples = sort_key sint samples_ms; count = of_nat (length samples) :: usize
        in case sum_i64 0 samples of
             Inl p \<Rightarrow> Inl p
           | Inr sum_ms \<Rightarrow> (case index samples (count div 2) of
                Inl p \<Rightarrow> Inl p
              | Inr p50 \<Rightarrow> (case mul_usize count 99 of
                   Inl p \<Rightarrow> Inl p
                 | Inr scaled \<Rightarrow> (case index samples (min (scaled div 100) (count - 1)) of
                      Inl p \<Rightarrow> Inl p
                    | Inr p99 \<Rightarrow>
                        Inr (Some \<lparr>sum_count = count, sum_total_ms = sum_ms, sum_p50_ms = p50,
                                   sum_p99_ms = p99, sum_max_ms = last samples\<rparr>)))))"

text \<open>In a sorted list, at least \<open>k + 1\<close> elements are not above the one at position \<open>k\<close>.\<close>

lemma sort_rank:
  fixes f :: "'a \<Rightarrow> 'b::linorder"
  assumes "k < length xs"
  shows "k < length (filter (\<lambda>x. f x \<le> f (sort_key f xs ! k)) xs)"
proof -
  let ?ys = "sort_key f xs"
  have s: "sorted (map f ?ys)" by simp
  have len: "k < length ?ys" using assms by simp
  have "\<forall>y\<in>set (take (Suc k) ?ys). f y \<le> f (?ys ! k)"
  proof
    fix y assume "y \<in> set (take (Suc k) ?ys)"
    then obtain j where "j < Suc k" "y = ?ys ! j"
      using len by (auto simp: in_set_conv_nth)
    with sorted_nth_mono [OF s, of j k] len less_Suc_eq_le show "f y \<le> f (?ys ! k)" by simp
  qed
  then have "filter (\<lambda>x. f x \<le> f (?ys ! k)) (take (Suc k) ?ys) = take (Suc k) ?ys"
    by (simp add: filter_id_conv)
  moreover have "length (filter P (take n zs)) \<le> length (filter P zs)" for P n and zs :: "'a list"
    by (metis append_take_drop_id filter_append length_append le_add1)
  ultimately have "Suc k \<le> length (filter (\<lambda>x. f x \<le> f (?ys ! k)) ?ys)"
    using len by (metis length_take min.absorb2 Suc_leI)
  also have "\<dots> = length (filter (\<lambda>x. f x \<le> f (?ys ! k)) xs)"
    by (metis mset_filter mset_sort size_mset)
  finally show ?thesis by simp
qed

lemma unat_of_nat_usize: "n < 2 ^ 64 \<Longrightarrow> unat (of_nat n :: usize) = n"
  by (simp add: unat_of_nat take_bit_nat_eq_self)

lemma print_summary_eq:
  assumes ne: "xs \<noteq> []" and small: "99 * length xs < 2 ^ 64" and total: "sum_i64 0 (sort_key sint xs) = Inr t"
  shows "print_summary xs = Inr (Some \<lparr>sum_count = of_nat (length xs), sum_total_ms = t,
    sum_p50_ms = sort_key sint xs ! (length xs div 2),
    sum_p99_ms = sort_key sint xs ! (99 * length xs div 100),
    sum_max_ms = last (sort_key sint xs)\<rparr>)"
proof -
  let ?n = "length xs" and ?c = "of_nat (length xs) :: usize"
  have pos: "0 < ?n" using ne by simp
  have c: "unat ?c = ?n" using small by (intro unat_of_nat_usize) simp
  have half: "unat (?c div 2) = ?n div 2" by (simp add: unat_div c)
  have mul: "mul_usize ?c 99 = Inr (?c * 99)" using small by (simp add: mul_usize_def c mult.commute)
  have "?c * 99 = of_nat (99 * ?n)" by simp
  then have "unat (?c * 99) = 99 * ?n" using small by (metis unat_of_nat_usize)
  then have scaled: "unat (?c * 99 div 100) = 99 * ?n div 100" by (simp add: unat_div)
  have c1: "unat (?c - 1) = ?n - 1"
    using pos c by (metis One_nat_def Suc_leI unat_1 unat_sub word_le_nat_alt)
  have "unat (min (?c * 99 div 100) (?c - 1)) = 99 * ?n div 100"
    using scaled c1 pos by (simp add: min_def word_le_nat_alt)
  moreover have "99 * ?n div 100 < ?n" using pos by linarith
  ultimately show ?thesis
    using ne total mul half pos by (simp add: print_summary_def index_def Let_def)
qed

subsection \<open>The listener\<close>

datatype stream_message = Update BedAvailabilityUpdate | Stream_closed | Stream_failed string

datatype listener_end = Listening | Finished | Listener_panicked string

text \<open>
  One stream: each message with the clock on receipt.  The result tells whether the listener
  goes on to connect again.
\<close>

fun read_stream :: "(i64 \<times> stream_message) list \<Rightarrow> i64 list \<Rightarrow> (listener_end \<times> bool) \<times> i64 list" where
  "read_stream [] samples = ((Listening, False), samples)"
| "read_stream ((received_at_ms, Update update) # rest) samples =
     (case sub_i64 received_at_ms (up_event_timestamp_ms update) of
        Inl p \<Rightarrow> ((Listener_panicked p, False), samples)
      | Inr latency \<Rightarrow> read_stream rest (record_latency latency samples))"
| "read_stream ((received_at_ms, Stream_closed) # rest) samples = ((Finished, False), samples)"
| "read_stream ((received_at_ms, Stream_failed err) # rest) samples = ((Listening, True), samples)"

text \<open>The outer loop: each attempt to open the stream fails, or gives a stream.\<close>

fun listener_run ::
  "(string + (i64 \<times> stream_message) list) list \<Rightarrow> i64 list \<Rightarrow> listener_end \<times> i64 list" where
  "listener_run [] samples = (Listening, samples)"
| "listener_run (Inl err # attempts) samples = listener_run attempts samples"
| "listener_run (Inr stream # attempts) samples =
     (case read_stream stream samples of
        ((Listening, True), samples) \<Rightarrow> listener_run attempts samples
      | ((ended, _), samples) \<Rightarrow> (ended, samples))"

end
