(* ===== verification/Simulator.thy ===== *)
theory Simulator
  imports Stats
begin

section \<open>The simulator (crates/simulator/src/seed.rs, events.rs, referrals.rs)\<close>

text \<open>
  The simulator stands in for terminals and caseworkers.  Random numbers are drawn from a
  supplied list; \<open>random_range(a..b)\<close> answers a number of that range, which the theorems assume
  where they need it.
\<close>

record SeededBed =
  sb_id :: uuid
  sb_shelter_id :: uuid
  sb_region :: string

subsection \<open>Seeding (seed.rs)\<close>

definition REGIONS :: "string list" where
  "REGIONS = [''north-metro'', ''south-metro'', ''east-county'']"

definition UNIT_TYPES :: "string list" where
  "UNIT_TYPES = [''general'', ''family'', ''womens_only'', ''mens_only'', ''youth'']"

text \<open>The decimal text of a number, as \<open>format!\<close> gives it.\<close>

fun show_decimal :: "nat \<Rightarrow> string" where
  "show_decimal n =
     (if n < 10 then [char_of (48 + n)] else show_decimal (n div 10) @ [char_of (48 + n mod 10)])"

declare show_decimal.simps [simp del]

text \<open>The random numbers for one bed: an index into the unit types and four percentages.\<close>

record bed_draw =
  draw_unit :: nat
  draw_pets :: nat
  draw_sobriety :: nat
  draw_ada :: nat
  draw_occupied :: nat

definition seeded_row :: "uuid \<Rightarrow> uuid \<Rightarrow> bed_draw \<Rightarrow> bed_row" where
  "seeded_row bed shelter draw =
     \<lparr>b_id = bed, b_shelter_id = shelter, b_unit_type = UNIT_TYPES ! draw_unit draw,
      b_allows_pets = (draw_pets draw < 25), b_sobriety_required = (draw_sobriety draw < 40),
      b_ada_accessible = (draw_ada draw < 20),
      b_status = (if draw_occupied draw < 70 then ''occupied'' else ''available''),
      b_last_event_sequence = 0\<rparr>"

fun seed_beds ::
  "script \<Rightarrow> uuid \<Rightarrow> string \<Rightarrow> bed_draw list \<Rightarrow> SeededBed list \<Rightarrow> AppState \<Rightarrow>
     (failure + SeededBed list) \<times> AppState" where
  "seed_beds s shelter region [] acc st = (Inr acc, st)"
| "seed_beds s shelter region (draw # draws) acc st =
     (let bed = mv_uuid (s (pos st))
      in try_bind (exec s (\<lambda>_ d. lift_insert (insert_bed_row (seeded_row bed shelter draw) d) d) st)
           (\<lambda>_ st. seed_beds s shelter region draws
              (acc @ [\<lparr>sb_id = bed, sb_shelter_id = shelter, sb_region = region\<rparr>]) st))"

text \<open>The loop over the shelters: \<open>i\<close> is its index, one list of draws for the beds of each.\<close>

fun seed_shelters ::
  "script \<Rightarrow> nat \<Rightarrow> bed_draw list list \<Rightarrow> SeededBed list \<Rightarrow> AppState \<Rightarrow>
     (failure + SeededBed list) \<times> AppState" where
  "seed_shelters s i [] acc st = (Inr acc, st)"
| "seed_shelters s i (draws # rest) acc st =
     (let shelter = mv_uuid (s (pos st)); region = REGIONS ! (i mod length REGIONS)
      in try_bind (exec s (\<lambda>_ d. lift_insert (insert_shelter_row
             \<lparr>s_id = shelter, s_name = ''Simulated Shelter '' @ show_decimal i, s_region = region\<rparr> d) d) st)
           (\<lambda>_ st. try_bind (seed_beds s shelter region draws acc st)
              (\<lambda>acc st. seed_shelters s (Suc i) rest acc st)))"

text \<open>
  \<open>Vec::with_capacity\<close> for the beds: the product of the two numbers may overflow, and a capacity
  of more than \<open>isize::MAX\<close> bytes is a panic.  A \<open>SeededBed\<close> has two uuids and a \<open>String\<close>, 56 bytes.
  \<open>draw i j\<close> are the random numbers for bed \<open>j\<close> of shelter \<open>i\<close>.
\<close>

definition bed_capacity :: "usize \<Rightarrow> usize \<Rightarrow> string + usize" where
  "bed_capacity num_shelters beds_per_shelter =
     (case mul_usize num_shelters beds_per_shelter of
        Inl panic \<Rightarrow> Inl panic
      | Inr capacity \<Rightarrow>
          if 2 ^ 63 \<le> 56 * unat capacity then Inl ''capacity overflow'' else Inr capacity)"

definition seed ::
  "script \<Rightarrow> usize \<Rightarrow> usize \<Rightarrow> (nat \<Rightarrow> nat \<Rightarrow> bed_draw) \<Rightarrow> AppState \<Rightarrow>
     (failure + SeededBed list) \<times> AppState" where
  "seed s num_shelters beds_per_shelter draw st =
     (case bed_capacity num_shelters beds_per_shelter of
        Inl panic \<Rightarrow> (Inl (Panicked panic), st)
      | Inr _ \<Rightarrow> seed_shelters s 0
          (map (\<lambda>i. map (draw i) [0..<unat beds_per_shelter]) [0..<unat num_shelters]) [] st)"

subsection \<open>Bed terminals (events.rs)\<close>

record terminal_state =
  terminal_sequence :: i64
  currently_available :: bool

definition terminal_start :: terminal_state where
  "terminal_start = \<lparr>terminal_sequence = 0, currently_available = False\<rparr>"

text \<open>One tick of a terminal: a random event id, the clock, and the event it submits.\<close>

definition terminal_step ::
  "externals \<Rightarrow> SeededBed \<Rightarrow> uuid \<times> i64 \<Rightarrow> terminal_state \<Rightarrow>
     string + (BedStatusEvent \<times> terminal_state)" where
  "terminal_step X bed = (\<lambda>(event_id, now_ms) t.
     case add_i64 (terminal_sequence t) 1 of
       Inl p \<Rightarrow> Inl p
     | Inr sq \<Rightarrow>
         let avail = (\<not> currently_available t);
             status = (if avail then Proto_AVAILABLE else Proto_OCCUPIED)
         in Inr (\<lparr>ev_event_id = show_uuid X event_id, ev_shelter_id = show_uuid X (sb_shelter_id bed),
                  ev_bed_id = show_uuid X (sb_id bed), ev_status = proto_BedStatus_as_i32 status,
                  ev_sequence = sq, ev_occurred_at_ms = now_ms\<rparr>,
                 \<lparr>terminal_sequence = sq, currently_available = avail\<rparr>))"

text \<open>
  The rounds before the deadline.  Whether a submission succeeds does not change what the
  terminal does next.
\<close>

fun terminal_run ::
  "externals \<Rightarrow> SeededBed \<Rightarrow> (uuid \<times> i64) list \<Rightarrow> terminal_state \<Rightarrow> string + BedStatusEvent list" where
  "terminal_run X bed [] t = Inr []"
| "terminal_run X bed (tick # ticks) t =
     (case terminal_step X bed tick t of
        Inl p \<Rightarrow> Inl p
      | Inr (event, t) \<Rightarrow>
          (case terminal_run X bed ticks t of Inl p \<Rightarrow> Inl p | Inr events \<Rightarrow> Inr (event # events)))"

subsection \<open>Caseworkers (referrals.rs)\<close>

definition PROTO_UNIT_TYPES :: "proto_UnitType list" where
  "PROTO_UNIT_TYPES =
     [Proto_GENERAL, Proto_FAMILY, Proto_WOMENS_ONLY, Proto_MENS_ONLY, Proto_YOUTH]"

record referral_draw =
  draw_region :: nat
  draw_unit_type :: nat
  draw_family_size :: i32
  draw_needs_pets :: nat
  draw_needs_sobriety :: nat
  draw_needs_ada :: nat
  draw_vulnerability :: i32

definition simulated_request :: "string list \<Rightarrow> u64 \<Rightarrow> referral_draw \<Rightarrow> SubmitReferralRequest" where
  "simulated_request regions submitted draw =
     \<lparr>rq_caseworker_id = ''simulated-caseworker-'' @ show_decimal (unat submitted),
      rq_region = regions ! draw_region draw,
      rq_criteria = Some
        \<lparr>c_family_size = draw_family_size draw,
         c_unit_type_required = proto_UnitType_as_i32 (PROTO_UNIT_TYPES ! draw_unit_type draw),
         c_needs_pet_friendly = (draw_needs_pets draw < 15),
         c_needs_sobriety_free_environment = (draw_needs_sobriety draw < 30),
         c_needs_ada_accessible = (draw_needs_ada draw < 10),
         c_vulnerability_score = draw_vulnerability draw\<rparr>\<rparr>"

definition increment :: "u64 \<Rightarrow> 'w \<Rightarrow> (string + u64) \<times> 'w" where
  "increment n w =
     (if unat n = 2 ^ 64 - 1 then (Inl ''attempt to add with overflow'', w) else (Inr (n + 1), w))"

text \<open>
  The rounds before the deadline, with the two counters, which panic when they overflow; the
  gateway is reached through a client, a parameter.
\<close>

fun referral_rounds ::
  "(SubmitReferralRequest \<Rightarrow> 'w \<Rightarrow> (grpc_status + SubmitReferralResponse) \<times> 'w) \<Rightarrow> string list \<Rightarrow>
     referral_draw list \<Rightarrow> u64 \<Rightarrow> u64 \<Rightarrow> 'w \<Rightarrow> (string + u64 \<times> u64) \<times> 'w" where
  "referral_rounds submit regions [] submitted matched w = (Inr (submitted, matched), w)"
| "referral_rounds submit regions (draw # draws) submitted matched w =
     try_bind (increment submitted w) (\<lambda>submitted w.
       case submit (simulated_request regions submitted draw) w of
         (Inr response, w) \<Rightarrow>
           try_bind (if rs_status response = proto_ReferralStatus_as_i32 Proto_MATCHED
                     then increment matched w else (Inr matched, w))
             (\<lambda>matched w. referral_rounds submit regions draws submitted matched w)
       | (Inl err, w) \<Rightarrow> referral_rounds submit regions draws submitted matched w)"

text \<open>
  The regions of the beds without repetition.  The order in which a hash set lists them is not
  specified: it is the parameter \<open>listing\<close>.
\<close>

definition referrals_run ::
  "(string set \<Rightarrow> string list) \<Rightarrow>
     (SubmitReferralRequest \<Rightarrow> 'w \<Rightarrow> (grpc_status + SubmitReferralResponse) \<times> 'w) \<Rightarrow>
     SeededBed list \<Rightarrow> referral_draw list \<Rightarrow> 'w \<Rightarrow> (string + (u64 \<times> u64) option) \<times> 'w" where
  "referrals_run listing submit seeded draws w =
     (let regions = listing (set (map sb_region seeded))
      in if regions = [] then (Inr None, w)
         else try_bind (referral_rounds submit regions draws 0 0 w) (\<lambda>counts w. (Inr (Some counts), w)))"

end
