(* ===== verification/Simulation.thy ===== *)
theory Simulation
  imports Simulator
begin

section \<open>What the simulator does to the system\<close>

text \<open>
  Seeding keeps the invariants, and what terminals and caseworkers report.
\<close>

subsection \<open>Seeding\<close>

lemma inserted_row:
  "lift_insert (insert_bed_row b d) d = (Inr u, d') \<Longrightarrow> b \<in> set (beds d')"
  "lift_insert (insert_shelter_row sh d) d = (Inr u, d') \<Longrightarrow> sh \<in> set (shelters d')"
  by (auto simp: lift_insert_def insert_bed_row_def insert_shelter_row_def split: if_splits)

lemma seeded_row_program:
  "program_tx A (\<lambda>d. lift_insert (insert_bed_row (seeded_row bed shelter draw) d) d)"
  unfolding program_tx_def
proof
  fix d
  have st: "b_status (seeded_row bed shelter draw) \<in> {''occupied'', ''available''}"
    by (simp add: seeded_row_def)
  show "(db_step A)\<^sup>*\<^sup>* d (snd (lift_insert (insert_bed_row (seeded_row bed shelter draw) d) d))"
  proof (cases "insert_bed_row (seeded_row bed shelter draw) d")
    case (Inr d')
    with db_step.bed [OF Inr st] show ?thesis by auto
  qed simp
qed

lemma shelter_row_program: "program_tx A (\<lambda>d. lift_insert (insert_shelter_row row d) d)"
  unfolding program_tx_def
proof
  fix d
  show "(db_step A)\<^sup>*\<^sup>* d (snd (lift_insert (insert_shelter_row row d) d))"
  proof (cases "insert_shelter_row row d")
    case (Inr d')
    with db_step.shelter [OF Inr] show ?thesis by auto
  qed simp
qed

lemma seed_beds_by_program:
  "seed_beds s shelter region draws acc st = (x, st') \<Longrightarrow> by_program A s st st'"
proof (induction draws arbitrary: acc st)
  case Nil
  then show ?case by (simp add: by_program_def)
next
  case (Cons draw draws)
  from Cons.prems show ?case
    unfolding seed_beds.simps Let_def
  proof (rule try_bind_cases)
    fix e assume "exec s (\<lambda>_ d. lift_insert (insert_bed_row
        (seeded_row (mv_uuid (s (pos st))) shelter draw) d) d) st = (Inl e, st')"
    then show ?thesis by (rule exec_by_program [OF seeded_row_program])
  next
    fix u st1 assume "exec s (\<lambda>_ d. lift_insert (insert_bed_row
        (seeded_row (mv_uuid (s (pos st))) shelter draw) d) d) st = (Inr u, st1)"
      and rest: "seed_beds s shelter region draws (acc @
        [\<lparr>sb_id = mv_uuid (s (pos st)), sb_shelter_id = shelter, sb_region = region\<rparr>]) st1 = (x, st')"
    then have "by_program A s st st1" by (intro exec_by_program [OF seeded_row_program])
    then show ?thesis using Cons.IH [OF rest] by (rule by_program.trans)
  qed
qed

lemma seed_shelters_by_program:
  "seed_shelters s i shelter_draws acc st = (x, st') \<Longrightarrow> by_program A s st st'"
proof (induction shelter_draws arbitrary: i acc st)
  case Nil
  then show ?case by (simp add: by_program_def)
next
  case (Cons draws rest)
  let ?sh = "mv_uuid (s (pos st))" and ?rg = "REGIONS ! (i mod length REGIONS)"
  from Cons.prems show ?case
    unfolding seed_shelters.simps Let_def
  proof (rule try_bind_cases)
    fix e assume "exec s (\<lambda>_ d. lift_insert (insert_shelter_row \<lparr>s_id = ?sh,
        s_name = ''Simulated Shelter '' @ show_decimal i, s_region = ?rg\<rparr> d) d) st = (Inl e, st')"
    then show ?thesis by (rule exec_by_program [OF shelter_row_program])
  next
    fix u st1 assume "exec s (\<lambda>_ d. lift_insert (insert_shelter_row \<lparr>s_id = ?sh,
        s_name = ''Simulated Shelter '' @ show_decimal i, s_region = ?rg\<rparr> d) d) st = (Inr u, st1)"
      and k: "try_bind (seed_beds s ?sh ?rg draws acc st1)
        (\<lambda>acc st. seed_shelters s (Suc i) rest acc st) = (x, st')"
    then have one: "by_program A s st st1" by (intro exec_by_program [OF shelter_row_program])
    from k have "by_program A s st1 st'"
      by (rule try_bind_cases)
         (auto dest: seed_beds_by_program Cons.IH intro: by_program.trans)
    with one show ?thesis by (rule by_program.trans)
  qed
qed

lemma seed_by_program: "seed s m n draw st = (x, st') \<Longrightarrow> by_program A s st st'"
  by (cases "bed_capacity m n") (auto simp: seed_def intro: by_program.refl seed_shelters_by_program)

text \<open>What a seeded bed promises to the rest of the simulator.\<close>

definition seeded_in :: "db \<Rightarrow> SeededBed \<Rightarrow> bool" where
  "seeded_in d sb \<longleftrightarrow>
     (\<exists>b\<in>set (beds d). b_id b = sb_id sb \<and> b_shelter_id b = sb_shelter_id sb) \<and>
     (\<exists>sh\<in>set (shelters d). s_id sh = sb_shelter_id sb \<and> s_region sh = sb_region sb)"

lemma seeded_in_extends:
  assumes "extends d d'" and "seeded_in d sb"
  shows "seeded_in d' sb"
proof -
  obtain b sh where b: "b \<in> set (beds d)" "b_id b = sb_id sb" "b_shelter_id b = sb_shelter_id sb"
    and sh: "sh \<in> set (shelters d)" "s_id sh = sb_shelter_id sb" "s_region sh = sb_region sb"
    using assms(2) by (auto simp: seeded_in_def)
  obtain b' where "b' \<in> set (beds d')" "bed_static b' = bed_static b"
    using extendsD(1) [OF assms(1) b(1)] by blast
  with b sh extendsD(3) [OF assms(1) sh(1)] show ?thesis
    unfolding seeded_in_def bed_static_eq by (intro conjI bexI [of _ b'] bexI [of _ sh]) simp_all
qed

lemma fair_extends:
  "fair_script A s \<Longrightarrow> by_program A s st st' \<Longrightarrow> extends (pool st) (pool st')"
  using db_steps_extends unfolding by_program_def by blast

lemma seed_beds_result:
  assumes fair: "fair_script A s"
  shows "seed_beds s shelter region draws acc st = (Inr out, st') \<Longrightarrow>
    \<exists>sh\<in>set (shelters (pool st)). s_id sh = shelter \<and> s_region sh = region \<Longrightarrow>
    \<forall>sb\<in>set acc. seeded_in (pool st) sb \<Longrightarrow>
    (\<forall>sb\<in>set out. seeded_in (pool st') sb) \<and>
    map sb_region out = map sb_region acc @ replicate (length draws) region"
proof (induction draws arbitrary: acc st)
  case Nil
  then show ?case by simp
next
  case (Cons draw draws)
  let ?bed = "mv_uuid (s (pos st))"
  let ?sb = "\<lparr>sb_id = ?bed, sb_shelter_id = shelter, sb_region = region\<rparr>"
  from Cons.prems(1) obtain u st1 where
    ins: "exec s (\<lambda>_ d. lift_insert (insert_bed_row (seeded_row ?bed shelter draw) d) d) st = (Inr u, st1)"
    and rest: "seed_beds s shelter region draws (acc @ [?sb]) st1 = (Inr out, st')"
    by (auto simp: Let_def try_bind_Inr)
  have ext: "extends (pool st) (pool st1)"
    by (rule fair_extends [OF fair exec_by_program [OF seeded_row_program ins]])
  have sh: "\<exists>sh\<in>set (shelters (pool st1)). s_id sh = shelter \<and> s_region sh = region"
    using Cons.prems(2) extendsD(3) [OF ext] by blast
  obtain d where d: "lift_insert (insert_bed_row (seeded_row ?bed shelter draw) d) d = (Inr u, pool st1)"
    using ins by (auto simp: exec_Inr)
  then have "seeded_row ?bed shelter draw \<in> set (beds (pool st1))"
    by (rule inserted_row)
  then have "seeded_in (pool st1) ?sb"
    using sh by (auto simp: seeded_in_def seeded_row_def intro!: bexI)
  then have "\<forall>sb\<in>set (acc @ [?sb]). seeded_in (pool st1) sb"
    using Cons.prems(3) seeded_in_extends [OF ext] by auto
  from Cons.IH [OF rest sh this] show ?case by simp
qed

lemma seed_shelters_result:
  assumes fair: "fair_script A s"
  shows "seed_shelters s i shelter_draws acc st = (Inr out, st') \<Longrightarrow>
    \<forall>sb\<in>set acc. seeded_in (pool st) sb \<Longrightarrow>
    (\<forall>sb\<in>set out. seeded_in (pool st') sb) \<and>
    map sb_region out = map sb_region acc @ concat (map (\<lambda>(k, draws).
      replicate (length draws) (REGIONS ! (k mod 3))) (enumerate i shelter_draws))"
proof (induction shelter_draws arbitrary: i acc st)
  case Nil
  then show ?case by simp
next
  case (Cons draws rest)
  let ?sh = "mv_uuid (s (pos st))" and ?rg = "REGIONS ! (i mod length REGIONS)"
  let ?row = "\<lparr>s_id = ?sh, s_name = ''Simulated Shelter '' @ show_decimal i, s_region = ?rg\<rparr>"
  from Cons.prems(1) obtain u st1 acc2 st2 where
    ins: "exec s (\<lambda>_ d. lift_insert (insert_shelter_row ?row d) d) st = (Inr u, st1)"
    and beds: "seed_beds s ?sh ?rg draws acc st1 = (Inr acc2, st2)"
    and more: "seed_shelters s (Suc i) rest acc2 st2 = (Inr out, st')"
    unfolding seed_shelters.simps Let_def try_bind_Inr by blast
  have ext: "extends (pool st) (pool st1)"
    by (rule fair_extends [OF fair exec_by_program [OF shelter_row_program ins]])
  obtain d where d: "lift_insert (insert_shelter_row ?row d) d = (Inr u, pool st1)"
    using ins by (auto simp: exec_Inr)
  then have "?row \<in> set (shelters (pool st1))"
    by (rule inserted_row)
  then have "\<exists>sh\<in>set (shelters (pool st1)). s_id sh = ?sh \<and> s_region sh = ?rg"
    by (intro bexI [of _ ?row]) simp_all
  from seed_beds_result [OF fair beds this] Cons.prems(2) seeded_in_extends [OF ext]
  have acc2: "\<forall>sb\<in>set acc2. seeded_in (pool st2) sb"
    "map sb_region acc2 = map sb_region acc @ replicate (length draws) ?rg" by auto
  from Cons.IH [OF more acc2(1)] acc2(2) show ?case by (simp add: REGIONS_def)
qed

lemma enumerate_upt: "enumerate 0 (map f [0..<n]) = map (\<lambda>i. (i, f i)) [0..<n]"
  by (rule nth_equalityI) (simp_all add: nth_enumerate_eq)

lemma seed_result:
  assumes "fair_script A s" and "seed s m n draw st = (Inr out, st')"
  shows "\<forall>sb\<in>set out. seeded_in (pool st') sb"
    and "map sb_region out =
      concat (map (\<lambda>i. replicate (unat n) (REGIONS ! (i mod 3))) [0..<unat m])"
proof -
  from assms(2) have "seed_shelters s 0 (map (\<lambda>i. map (draw i) [0..<unat n]) [0..<unat m]) [] st =
      (Inr out, st')" by (auto simp: seed_def split: sum.splits)
  from seed_shelters_result [OF assms(1) this] show "\<forall>sb\<in>set out. seeded_in (pool st') sb"
    "map sb_region out =
      concat (map (\<lambda>i. replicate (unat n) (REGIONS ! (i mod 3))) [0..<unat m])"
    by (simp_all add: enumerate_upt comp_def)
qed

text \<open>It does not panic when the vector for the beds fits into memory.\<close>

lemma bed_capacity_ok:
  "56 * (unat m * unat n) < 2 ^ 63 \<Longrightarrow> bed_capacity m n = Inr (m * n)"
  by (simp add: bed_capacity_def mul_usize_def unat_mult_lem [THEN iffD1])

subsection \<open>Terminals\<close>

definition terminal_event ::
  "externals \<Rightarrow> SeededBed \<Rightarrow> terminal_state \<Rightarrow> nat \<Rightarrow> uuid \<times> i64 \<Rightarrow> BedStatusEvent \<Rightarrow> bool" where
  "terminal_event X bed t k tick event \<longleftrightarrow>
     ev_event_id event = show_uuid X (fst tick) \<and> ev_occurred_at_ms event = snd tick \<and>
     ev_bed_id event = show_uuid X (sb_id bed) \<and>
     ev_shelter_id event = show_uuid X (sb_shelter_id bed) \<and>
     sint (ev_sequence event) = sint (terminal_sequence t) + int k + 1 \<and>
     ev_status event = proto_BedStatus_as_i32
       (if currently_available t = odd k then Proto_AVAILABLE else Proto_OCCUPIED)"

lemma terminal_run_events:
  assumes "sint (terminal_sequence t) + int (length ticks) < 2 ^ 63"
  shows "\<exists>events. terminal_run X bed ticks t = Inr events \<and> length events = length ticks \<and>
    (\<forall>k<length ticks. terminal_event X bed t k (ticks ! k) (events ! k))"
  using assms
proof (induction ticks arbitrary: t)
  case Nil
  then show ?case by simp
next
  case (Cons tick ticks)
  obtain e now where tick: "tick = (e, now)" by (cases tick)
  let ?sq = "terminal_sequence t + 1" and ?av = "\<not> currently_available t"
  let ?t = "\<lparr>terminal_sequence = ?sq, currently_available = ?av\<rparr>"
  have "- (2 ^ 63) \<le> sint (terminal_sequence t)"
    using sint_greater_eq [of "terminal_sequence t"] by simp
  then have add: "add_i64 (terminal_sequence t) 1 = Inr ?sq"
    using Cons.prems by (simp add: add_i64_def)
  note sq = add_i64_Inr [OF add]
  obtain ev where step: "terminal_step X bed tick t = Inr (ev, ?t)"
      "terminal_event X bed t 0 tick ev"
    by (auto simp: terminal_step_def add Let_def tick terminal_event_def sq)
  have "sint (terminal_sequence ?t) + int (length ticks) < 2 ^ 63"
    using Cons.prems sq by simp
  from Cons.IH [OF this] obtain events where events: "terminal_run X bed ticks ?t = Inr events"
    "length events = length ticks"
    "\<forall>k<length ticks. terminal_event X bed ?t k (ticks ! k) (events ! k)" by blast
  have shift: "terminal_event X bed ?t k tk v \<Longrightarrow> terminal_event X bed t (Suc k) tk v" for k tk v
    by (auto simp: terminal_event_def sq)
  show ?case
    using step events shift
    by (intro exI [of _ "ev # events"]) (auto simp: nth_Cons split: nat.split)
qed

lemma terminal_event_intake:
  assumes "externals_ok X" and "terminal_event X bed t k tick event"
  shows "intake_event X event \<and> parse_ids X event = Some (fst tick, sb_id bed)"
  using assms by (auto simp: terminal_event_def intake_event_def externals_ok_def parse_ids_def
      terminal_statuses_def)

subsection \<open>Caseworkers\<close>

lemma referral_rounds_counts:
  assumes "unat submitted + length draws < 2 ^ 64" and "unat matched \<le> unat submitted"
  shows "\<exists>sub mat w'. referral_rounds submit regions draws submitted matched w = (Inr (sub, mat), w') \<and>
    unat sub = unat submitted + length draws \<and> unat mat \<le> unat sub"
  using assms
proof (induction draws arbitrary: submitted matched w)
  case Nil
  then show ?case by simp
next
  case (Cons draw draws)
  have inc: "unat (n + 1) = unat n + 1 \<and> increment n v = (Inr (n + 1), v)"
    if "unat n + 1 < 2 ^ 64" for n :: u64 and v :: 'b
    using that by (simp add: unat_word_ariths increment_def)
  note s = inc [of submitted] and m = inc [of matched]
  obtain r w1 where "submit (simulated_request regions (submitted + 1) draw) w = (r, w1)" by fastforce
  note next_round = this Cons.prems s [of w] Cons.IH [of "submitted + 1" matched w1]
  show ?case
  proof (cases r)
    case (Inl err)
    with next_round show ?thesis by simp
  next
    case (Inr response)
    with next_round m [of w1] Cons.IH [of "submitted + 1" "matched + 1" w1] show ?thesis by simp
  qed
qed

end
