(* ===== verification/Examples.thy ===== *)
theory Examples
  imports Simulation
begin

section \<open>A worked example\<close>

text \<open>
  One shelter with one bed, a client of low and a client of high vulnerability, and the states
  that an allocation, a check-in and a check-out lead to.  The witnesses of the properties are
  taken at these states.
\<close>

definition ex_shelter :: shelter_row where
  "ex_shelter = \<lparr>s_id = 1, s_name = ''Harbor'', s_region = ''north''\<rparr>"

definition ex_bed :: "string \<Rightarrow> i64 \<Rightarrow> bed_row" where
  "ex_bed status seq = \<lparr>b_id = 1, b_shelter_id = 1, b_unit_type = ''general'', b_allows_pets = False,
     b_sobriety_required = False, b_ada_accessible = False, b_status = status,
     b_last_event_sequence = seq\<rparr>"

definition ex_needs :: ReferralNeeds where
  "ex_needs = \<lparr>unit_type_required = General, needs_pet_friendly = False,
     needs_sobriety_free = False, needs_ada_accessible = False\<rparr>"

definition ex_referral :: "uuid \<Rightarrow> i32 \<Rightarrow> timestamp \<Rightarrow> string \<Rightarrow> referral_row" where
  "ex_referral i vu now status = \<lparr>r_id = i, r_caseworker_id = ''cw'', r_region = ''north'',
     r_family_size = 1, r_unit_type_required = ''general'', r_needs_pet_friendly = False,
     r_needs_sobriety_free = False, r_needs_ada_accessible = False,
     r_vulnerability_score = vu, r_status = status, r_created_at = now\<rparr>"

definition ex_db :: "string \<Rightarrow> i64 \<Rightarrow> string \<Rightarrow> (string \<times> uuid) list \<Rightarrow> uuid list \<Rightarrow> db" where
  "ex_db bed_status seq high_status vs events =
     \<lparr>shelters = [ex_shelter], beds = [ex_bed bed_status seq],
      referrals = [ex_referral 1 10 0 ''pending'', ex_referral 2 90 5 high_status],
      reservations = map (\<lambda>(status, i). \<lparr>v_id = i, v_bed_id = 1, v_referral_id = 2,
        v_reserved_at = 9, v_status = status\<rparr>) vs,
      applied_events = map (\<lambda>e. \<lparr>e_event_id = e, e_bed_id = 1, e_applied_at = 9\<rparr>) events\<rparr>"

text \<open>Both clients wait; the bed is reserved; the client has checked in; the client has left.\<close>

abbreviation ex_wait :: db where "ex_wait \<equiv> ex_db ''available'' 0 ''pending'' [] []"

abbreviation ex_won :: db where "ex_won \<equiv> ex_db ''reserved'' 0 ''matched'' [(''active'', 7)] []"

abbreviation ex_in :: db where "ex_in \<equiv> ex_db ''occupied'' 1 ''matched'' [(''checked_in'', 7)] [11]"

abbreviation ex_out :: db where
  "ex_out \<equiv> ex_db ''available'' 2 ''pending'' [(''released'', 7)] [11, 12]"

lemmas ex_defs = ex_db_def ex_shelter_def ex_bed_def ex_referral_def

lemma ex_choose:
  "choose_referral (\<lambda>_. False) ''north'' (attrs_of General (ex_bed st seq))
     (ex_db st seq ''pending'' vs es) = Some (ex_referral 2 90 5 ''pending'')"
  by (simp add: choose_referral_def ex_defs pending_filter_def order_key_def less_eq_priority_def)

lemma ex_unit: "UnitType_from_db_str ''general'' = Inr General"
  using unit_codec.of_to [of General] by simp

lemma ex_allocate: "allocate_tx (\<lambda>_. False) 7 9 1 ex_wait =
    (Inr (Some \<lparr>bed_id = 1, shelter_id = 1, referral_id = 2\<rparr>), ex_won)"
proof -
  have "allocate_tx (\<lambda>_. False) 7 9 1 ex_wait =
    (case choose_referral (\<lambda>_. False) (s_region ex_shelter) (attrs_of General (ex_bed ''available'' 0)) ex_wait of
       None \<Rightarrow> (Inr None, ex_wait)
     | Some r \<Rightarrow>
       (case insert_reservation_row (new_reservation 7 1 (r_id r) 9) ex_wait of
          Inl e \<Rightarrow> (Inl (Failed (Database e)), ex_wait)
        | Inr _ \<Rightarrow>
          (Inr (Some \<lparr>bed_id = 1, shelter_id = b_shelter_id (ex_bed ''available'' 0), referral_id = r_id r\<rparr>),
           award (new_reservation 7 1 (r_id r) 9) ex_wait)))"
    by (rule allocate_tx_decides) (simp_all add: ex_defs ex_unit)
  then show ?thesis
    using ex_choose [of "''available''" 0 "[]" "[]"]
    by (simp add: ex_shelter_def insert_reservation_row_def ex_defs unique_where_def
        reservation_status_check_def award_def new_reservation_def set_bed_status_def
        set_referral_status_def update_beds_def update_referrals_def update_where_def)
qed

lemma ex_check_in: "apply_tx 11 1 Occupied 1 9 ex_won = (Inr (Applied 1 False), ex_in)"
  by (simp add: apply_tx_def insert_applied_event_def ex_defs update_beds_def update_where_def
      reservation_lifecycle_def update_reservations_def)

lemma ex_check_out: "apply_tx 12 1 Available 2 9 ex_in = (Inr (Applied 1 True), ex_out)"
  by (simp add: apply_tx_def insert_applied_event_def ex_defs update_beds_def update_where_def
      reservation_lifecycle_def update_reservations_def release_reservations_def is_live_def
      update_referrals_def)

subsection \<open>All four states are reachable\<close>

lemma reachable_step: "reachable A d \<Longrightarrow> db_step A d d' \<Longrightarrow> reachable A d'"
  by (simp add: reachable_def)

definition ex_free :: db where
  "ex_free = \<lparr>shelters = [ex_shelter], beds = [ex_bed ''available'' 0], referrals = [],
     reservations = [], applied_events = []\<rparr>"

lemma ex_free_reachable: "reachable A ex_free"
proof -
  let ?d1 = "empty_db\<lparr>shelters := [ex_shelter]\<rparr>"
  have 1: "db_step A empty_db ?d1"
    by (rule db_step.shelter [of ex_shelter]) (simp add: insert_shelter_row_def empty_db_def)
  have 2: "db_step A ?d1 ex_free"
    by (rule db_step.bed [of "ex_bed ''available'' 0"])
       (simp_all add: insert_bed_row_def empty_db_def ex_free_def ex_defs bed_check_def
         unit_type_check_def bed_status_check_def)
  have "reachable A empty_db" by (simp add: reachable_def)
  from reachable_step [OF reachable_step [OF this 1] 2] show ?thesis .
qed

lemma ex_wait_reachable: "reachable A ex_wait"
proof -
  let ?d3 = "ex_free\<lparr>referrals := [ex_referral 1 10 0 ''pending'']\<rparr>"
  have 1: "db_step A ex_free ?d3"
    by (rule db_step.referral [of 1 "''cw''" "''north''" ex_needs 10 1 0])
       (simp add: insert_referral_def insert_referral_row_def ex_free_def ex_defs ex_needs_def
         referral_check_def referral_status_check_def unit_type_check_def)
  have 2: "db_step A ?d3 ex_wait"
    by (rule db_step.referral [of 2 "''cw''" "''north''" ex_needs 90 1 5])
       (simp add: insert_referral_def insert_referral_row_def ex_free_def ex_defs ex_needs_def
         referral_check_def referral_status_check_def unit_type_check_def)
  from reachable_step [OF reachable_step [OF ex_free_reachable 1] 2] show ?thesis .
qed

lemma ex_won_reachable: "reachable A ex_won"
  by (rule reachable_step [OF ex_wait_reachable db_step.allocation [OF ex_allocate]])

lemma ex_in_reachable: "Occupied \<in> A \<Longrightarrow> reachable A ex_in"
  by (rule reachable_step [OF ex_won_reachable db_step.event [OF ex_check_in]])

lemma ex_out_reachable: "{Occupied, Available} \<subseteq> A \<Longrightarrow> reachable A ex_out"
  by (rule reachable_step [OF ex_in_reachable db_step.event [OF ex_check_out]]) simp_all

lemma ex_inv: "booking_inv ex_wait" "booking_inv ex_won" "booking_inv ex_in" "booking_inv ex_out"
  "terminal_inv ex_won" "terminal_inv ex_in" "booking_inv ex_free"
  by (simp_all add: booking.reachable_holds terminal.reachable_holds ex_free_reachable ex_wait_reachable
      ex_won_reachable ex_in_reachable ex_out_reachable terminal_statuses_def)

subsection \<open>A session that runs alone\<close>

definition ex_script :: script where
  "ex_script k = quiet_move (of_nat (k + 100)) (int k) (of_nat k)"

definition ex_state :: "db \<Rightarrow> AppState" where
  "ex_state d = \<lparr>pool = d, availability_tx = [], pos = 0\<rparr>"

lemma ex_script_sel [simp]:
  "mv_uuid (ex_script k) = of_nat (k + 100)" "mv_now (ex_script k) = int k"
  "mv_utc_ms (ex_script k) = of_nat k" "mv_fault (ex_script k) = None"
  "mv_locked (ex_script k) = (\<lambda>_. False)" "mv_interfere (ex_script k) = id" "mv_sends (ex_script k) = []"
  by (simp_all add: ex_script_def quiet_move_def)

lemma ex_state_sel [simp]:
  "pool (ex_state d) = d" "availability_tx (ex_state d) = []" "pos (ex_state d) = 0"
  by (simp_all add: ex_state_def)

lemma ex_script_alone: "alone ex_script"
  by (simp add: alone_def)

lemma ex_sent_by_others [simp]: "sent_by_others ex_script i j = []"
  by (rule alone_sends [OF ex_script_alone])

lemmas ex_script_fair = alone_fair [OF ex_script_alone]

lemma ex_ids_inj: "inj_on (\<lambda>k. mv_uuid (ex_script k)) {..<2000}"
  by (rule inj_onI) (simp add: word_of_nat_eq_iff take_bit_nat_eq_self del: of_nat_add)

lemma ex_script_ids: "distinct_ids 2000 ex_script"
  using ex_ids_inj by (simp add: distinct_ids_def del: ex_script_sel(1))

lemma ex_ids_unused: "ids_unused 2000 ex_script (ex_state (ex_db bs sq hs [] es))"
  "ids_unused 2000 ex_script (ex_state (ex_db bs sq hs [(rs, 7)] es))"
proof -
  have "of_nat (k + 100) \<noteq> (7 :: uuid)" if "k < 2000" for k
  proof
    assume "of_nat (k + 100) = (7 :: uuid)"
    then have "unat (of_nat (k + 100) :: uuid) = unat (7 :: uuid)" by (rule arg_cong)
    then show False using that by (simp add: unat_of_nat take_bit_nat_eq_self del: of_nat_add)
  qed
  then show "ids_unused 2000 ex_script (ex_state (ex_db bs sq hs [] es))"
    "ids_unused 2000 ex_script (ex_state (ex_db bs sq hs [(rs, 7)] es))"
    by (simp_all add: ids_unused_def ex_db_def del: of_nat_add)
qed

text \<open>A session alone whose connection fails at one move.\<close>

definition ex_failing :: "nat \<Rightarrow> script" where
  "ex_failing n k = (ex_script k)\<lparr>mv_fault := if k = n then Some Statement_fails else None\<rparr>"

lemma ex_failing_sel [simp]:
  "mv_uuid (ex_failing n k) = of_nat (k + 100)" "mv_now (ex_failing n k) = int k"
  "mv_fault (ex_failing n k) = (if k = n then Some Statement_fails else None)"
  "mv_locked (ex_failing n k) = (\<lambda>_. False)" "mv_interfere (ex_failing n k) = id"
  "mv_sends (ex_failing n k) = []" "sent_by_others (ex_failing n) i j = []"
  by (simp_all add: ex_failing_def ex_script_def quiet_move_def sent_by_others_def)

text \<open>Externals: an identifier is written in unary.\<close>

definition ex_externals :: externals where
  "ex_externals = \<lparr>
     parse_uuid = (\<lambda>s. if s = [] then None else Some (of_nat (length s - 1))),
     show_uuid = (\<lambda>u. replicate (Suc (unat u)) (CHR ''x'')),
     event_status = (\<lambda>n. if n = 1 then Proto_AVAILABLE else if n = 2 then Proto_RESERVED
       else if n = 3 then Proto_OCCUPIED else if n = 4 then Proto_MAINTENANCE
       else BED_STATUS_UNSPECIFIED),
     criteria_unit_type = (\<lambda>_. Proto_GENERAL),
     show_sqlx = (\<lambda>_. ''error''),
     encode_event = (\<lambda>e. [1]),
     decode_event = (\<lambda>bytes. if bytes = [1] then Some \<lparr>ev_event_id = replicate 13 (CHR ''x''),
       ev_shelter_id = replicate 2 (CHR ''x''), ev_bed_id = replicate 2 (CHR ''x''),
       ev_status = 3, ev_sequence = 1, ev_occurred_at_ms = 0\<rparr> else None)\<rparr>"

definition ex_event :: "i32 \<Rightarrow> BedStatusEvent" where
  "ex_event status = \<lparr>ev_event_id = replicate 13 (CHR ''x''),
     ev_shelter_id = replicate 2 (CHR ''x''), ev_bed_id = replicate 2 (CHR ''x''),
     ev_status = status, ev_sequence = 1, ev_occurred_at_ms = 0\<rparr>"

lemma ex_externals_ok: "externals_ok ex_externals"
proof -
  have "event_status ex_externals (proto_BedStatus_as_i32 st) = st" for st
    by (cases st) (simp_all add: ex_externals_def)
  then show ?thesis by (simp add: externals_ok_def) (simp add: ex_externals_def)
qed

end
