(* ===== verification/Booking_Properties.thy ===== *)
theory Booking_Properties
  imports Examples
begin

section \<open>Properties of the database under all its writers\<close>

text \<open>
  What holds in every state that the transactions of the program can reach, whatever their order,
  and what the allocation and the event transactions do on each branch.  Each property is
  followed by its witness, an application at a concrete state.
\<close>

text \<open>
  C1.  No double booking: in every reachable state two live reservations (active or checked in)
  never share a bed or a referral, although the unique indexes only cover active ones.
\<close>

theorem no_double_booking_ever:
  assumes "reachable UNIV d"
    and "v \<in> set (reservations d)" and "w \<in> set (reservations d)" and "is_live v" and "is_live w"
    and "v_bed_id v = v_bed_id w \<or> v_referral_id v = v_referral_id w"
  shows "v = w"
  by (rule no_double_bookingD [OF booking.reachable_holds [OF assms(1)] assms(2-)])

theorem no_double_booking_ever_witness:
  "{w \<in> set (reservations ex_in). is_live w \<and> v_bed_id w = 1} =
     {\<lparr>v_id = 7, v_bed_id = 1, v_referral_id = 2, v_reserved_at = 9, v_status = ''checked_in''\<rparr>}"
  (is "_ = {?v}")
proof -
  have v: "?v \<in> set (reservations ex_in)" "is_live ?v" by (simp_all add: ex_db_def is_live_def)
  have "w = ?v" if w: "w \<in> set (reservations ex_in)" "is_live w" "v_bed_id w = 1" for w
    by (rule no_double_booking_ever [OF ex_in_reachable w(1) v(1) w(2) v(2)]) (simp_all add: w(3))
  then have "w \<in> {?v}" if "w \<in> {w \<in> set (reservations ex_in). is_live w \<and> v_bed_id w = 1}" for w
    using that by blast
  moreover have "?v \<in> {w \<in> set (reservations ex_in). is_live w \<and> v_bed_id w = 1}"
    using v by simp
  ultimately show ?thesis by blast
qed

text \<open>
  C4.  The allocation is priority ordered: who wins a bed was waiting for it, its row was not
  locked, and nobody else whose row was free and who waits for this bed has a higher score, or
  the same score and an earlier arrival.
\<close>

theorem award_goes_to_the_highest_priority:
  assumes "booking_inv d" and "allocate_tx locked i now bed d = (Inr (Some a), d')"
  shows "\<exists>b\<in>set (beds d). \<exists>r. b_id b = bed \<and> b_status b = ''available'' \<and>
    a = \<lparr>bed_id = bed, shelter_id = b_shelter_id b, referral_id = r_id r\<rparr> \<and>
    waiting d b r \<and> \<not> locked (r_id r) \<and>
    (\<forall>q. waiting d b q \<longrightarrow> \<not> locked (r_id q) \<longrightarrow>
       sint (r_vulnerability_score q) < sint (r_vulnerability_score r) \<or>
       sint (r_vulnerability_score q) = sint (r_vulnerability_score r) \<and>
         r_created_at r \<le> r_created_at q)"
  using assms(2)
proof (cases rule: allocate_tx_cases)
  case (won b s u r)
  from choose_waiting(1) [OF booking_inv_parts(1) [OF assms(1)] won(4,5,6,7)]
  have "waiting d b r" "\<not> locked (r_id r)"
    "\<forall>q. waiting d b q \<longrightarrow> \<not> locked (r_id q) \<longrightarrow> order_key r \<le> order_key q" by blast+
  with won show ?thesis unfolding order_key_le by (intro bexI [of _ b] exI [of _ r]) auto
qed simp_all

theorem award_goes_to_the_highest_priority_witness:
  "\<exists>b\<in>set (beds ex_wait). \<exists>r. b_id b = 1 \<and> r_id r = 2 \<and> waiting ex_wait b r \<and>
     (\<forall>q. waiting ex_wait b q \<longrightarrow>
        sint (r_vulnerability_score q) < sint (r_vulnerability_score r) \<or>
        sint (r_vulnerability_score q) = sint (r_vulnerability_score r) \<and>
          r_created_at r \<le> r_created_at q)"
  using award_goes_to_the_highest_priority [OF ex_inv(1) ex_allocate] by fastforce

text \<open>
  C5.  The allocation never fails: with a fresh reservation id it meets no constraint violation,
  no unreadable text and no failed assertion, and it awards the bed exactly if the bed exists, is
  available and somebody eligible waits whose row is not locked.
\<close>

theorem allocation_awards_iff_someone_waits:
  assumes "booking_inv d" and "i \<notin> v_id ` set (reservations d)"
  shows "\<exists>a d'. allocate_tx locked i now bed d = (Inr a, d') \<and>
    (a \<noteq> None \<longleftrightarrow> (\<exists>b\<in>set (beds d). b_id b = bed \<and> b_status b = ''available'' \<and>
       (\<exists>q. waiting d b q \<and> \<not> locked (r_id q))))"
proof (cases "\<exists>b\<in>set (beds d). b_id b = bed \<and> b_status b = ''available'' \<and>
    (\<exists>q. waiting d b q \<and> \<not> locked (r_id q))")
  case True
  then obtain b q where b: "b \<in> set (beds d)" "b_id b = bed" "b_status b = ''available''"
    "waiting d b q" "\<not> locked (r_id q)" by blast
  from allocate_tx_awards [where locked = locked and now = now, OF assms b(1,3-5)] b(2)
  obtain a d' where "allocate_tx locked i now bed d = (Inr (Some a), d')" by blast
  with True show ?thesis by blast
next
  case False
  have "allocate_tx locked i now bed d = (Inr None, d)"
  proof (cases "\<exists>b\<in>set (beds d). b_id b = bed")
    case True
    then obtain b where b: "b \<in> set (beds d)" "b_id b = bed" by blast
    with False allocate_tx_nobody [OF booking_inv_parts(1) [OF assms(1)] b(1), of locked i now]
    show ?thesis by blast
  next
    case False
    then have "fetch_optional (filter (\<lambda>b. b_id b = bed) (beds d)) = None"
      by (simp add: filter_empty_conv)
    then show ?thesis by (rule allocate_tx_early(1))
  qed
  with False show ?thesis by blast
qed

theorem allocation_awards_iff_someone_waits_witness:
  "\<exists>a d'. allocate_tx (\<lambda>_. True) 7 9 1 ex_wait = (Inr a, d') \<and> a = None"
  using allocation_awards_iff_someone_waits [OF ex_inv(1), of 7 "\<lambda>_. True" 9 1]
  by (simp add: ex_db_def)

lemma terminal_inv_backed:
  assumes "terminal_inv d" and "b \<in> set (beds d)"
  shows "(b_status b = ''reserved'' \<longleftrightarrow>
      (\<exists>v\<in>set (reservations d). v_status v = ''active'' \<and> v_bed_id v = b_id b)) \<and>
    (\<forall>v\<in>set (reservations d). v_status v = ''checked_in'' \<longrightarrow> v_bed_id v = b_id b \<longrightarrow>
      b_status b = ''occupied'')"
proof -
  note inv = terminal_inv_parts(2,3) [OF assms(1)]
  have "b_status b = ''reserved'' \<Longrightarrow>
      \<exists>v\<in>set (reservations d). v_status v = ''active'' \<and> v_bed_id v = b_id b"
    using inv(1) assms(2) unfolding reserved_backed_def by blast
  moreover have agrees: "(v_status v = ''active'' \<longrightarrow> b_status b = ''reserved'') \<and>
      (v_status v = ''checked_in'' \<longrightarrow> b_status b = ''occupied'')"
    if "v \<in> set (reservations d)" "v_bed_id v = b_id b" for v
    using inv(2) [unfolded live_status_agrees_def, THEN bspec, OF that(1), THEN bspec, OF assms(2)]
      that(2) by simp
  ultimately show ?thesis by blast
qed

text \<open>
  C20.  With the events that a terminal may report, the status of a bed and its reservations agree
  in every reachable state: a bed is reserved exactly if an active reservation holds it, and a
  checked-in reservation is for an occupied bed.
\<close>

theorem reserved_beds_are_backed:
  assumes "reachable terminal_statuses d" and "b \<in> set (beds d)"
  shows "(b_status b = ''reserved'' \<longleftrightarrow>
      (\<exists>v\<in>set (reservations d). v_status v = ''active'' \<and> v_bed_id v = b_id b)) \<and>
    (\<forall>v\<in>set (reservations d). v_status v = ''checked_in'' \<longrightarrow> v_bed_id v = b_id b \<longrightarrow>
      b_status b = ''occupied'')"
  by (rule terminal_inv_backed [OF terminal.reachable_holds [OF assms(1)] assms(2)])

theorem reserved_beds_are_backed_witness:
  "\<exists>v\<in>set (reservations ex_won). v_status v = ''active'' \<and> v_bed_id v = 1"
proof -
  have b: "ex_bed ''reserved'' 0 \<in> set (beds ex_won)" by (simp add: ex_db_def)
  show ?thesis
    using reserved_beds_are_backed [OF ex_won_reachable b] by (simp add: ex_bed_def)
qed

text \<open>
  C21.  Every reservation ever made joins a bed to a referral of the same region whose hard
  constraints the bed meets, as \<open>is_eligible\<close> decides them.
\<close>

theorem bookings_are_eligible:
  assumes "reachable UNIV d" and "v \<in> set (reservations d)"
  shows "\<exists>b\<in>set (beds d). \<exists>s\<in>set (shelters d). \<exists>r\<in>set (referrals d). \<exists>u u'.
    b_id b = v_bed_id v \<and> s_id s = b_shelter_id b \<and> r_id r = v_referral_id v \<and>
    r_region r = s_region s \<and>
    UnitType_from_db_str (b_unit_type b) = Inr u \<and>
    UnitType_from_db_str (r_unit_type_required r) = Inr u' \<and>
    is_eligible (attrs_of u b) (needs_of u' r)"
proof -
  note inv = booking_inv_parts [OF booking.reachable_holds [OF assms(1)]]
  from inv(5) assms(2) have "booking_suits d v" by blast
  then obtain b s r where *: "b \<in> set (beds d)" "s \<in> set (shelters d)" "r \<in> set (referrals d)"
    "b_id b = v_bed_id v" "s_id s = b_shelter_id b" "r_id r = v_referral_id v"
    "suits b (s_region s) r" by (auto simp: booking_suits_def)
  obtain u u' where u: "UnitType_from_db_str (b_unit_type b) = Inr u"
      "UnitType_from_db_str (r_unit_type_required r) = Inr u'"
    using schema_ok_bed [OF inv(1) *(1)] schema_ok_referral [OF inv(1) *(3)] unit_type_check_parses
    unfolding bed_check_def referral_check_def by blast
  from *(7) suits_is_eligible [OF u]
  have "r_region r = s_region s" "is_eligible (attrs_of u b) (needs_of u' r)" by blast+
  with * u show ?thesis by blast
qed

theorem bookings_are_eligible_witness:
  "\<exists>b\<in>set (beds ex_won). \<exists>s\<in>set (shelters ex_won). \<exists>r\<in>set (referrals ex_won).
     b_id b = 1 \<and> r_id r = 2 \<and> r_region r = s_region s"
proof -
  have v: "\<lparr>v_id = 7, v_bed_id = 1, v_referral_id = 2, v_reserved_at = 9, v_status = ''active''\<rparr>
    \<in> set (reservations ex_won)" by (simp add: ex_db_def)
  from bookings_are_eligible [OF ex_won_reachable v] show ?thesis by auto
qed

text \<open>
  The allocation changes nothing but what it awards: an error or no award leaves the
  database as it was; an award appends one active reservation, and changes the status of its bed
  and of its referral only.
\<close>

theorem allocation_changes_only_the_award:
  assumes "allocate_tx locked i now bed d = (res, d')"
  shows "((\<nexists>a. res = Inr (Some a)) \<longrightarrow> d' = d) \<and>
    (\<forall>a. res = Inr (Some a) \<longrightarrow>
       d' = d\<lparr>reservations := reservations d @
                [\<lparr>v_id = i, v_bed_id = bed, v_referral_id = referral_id a, v_reserved_at = now,
                  v_status = ''active''\<rparr>],
              beds := map (\<lambda>b. if b_id b = bed then b\<lparr>b_status := ''reserved''\<rparr> else b) (beds d),
              referrals := map (\<lambda>r. if r_id r = referral_id a then r\<lparr>r_status := ''matched''\<rparr> else r)
                (referrals d)\<rparr>)"
  using assms
proof (cases rule: allocate_tx_cases)
  case (won b s u r)
  then show ?thesis
    by (simp add: award_def new_reservation_def set_bed_status_def set_referral_status_def
        update_beds_def update_referrals_def update_where_def)
qed simp_all

theorem allocation_changes_only_the_award_witness:
  "length (reservations ex_won) = Suc (length (reservations ex_wait))"
  using allocation_changes_only_the_award [OF ex_allocate] by simp

text \<open>
  Exactly-once application: an event that was applied, or found stale or duplicate, has no
  effect when it is delivered again, whatever the program did to the database in between and
  whatever status the second delivery carries.
\<close>

theorem redelivery_has_no_effect:
  assumes "booking_inv d" and "apply_tx e bed ns sq now d = (Inr out, d1)" and "out \<noteq> UnknownBed"
    and "(db_step UNIV)\<^sup>*\<^sup>* d1 d2"
  shows "\<exists>again\<in>{Duplicate, Stale}. apply_tx e bed ns' sq now' d2 = (Inr again, d2)"
proof -
  have inv1: "booking_inv d1" by (rule apply_tx_booking_inv [OF assms(1,2)])
  from assms(2) have "processed d1 e bed sq"
  proof (cases rule: apply_tx_cases)
    case duplicate
    then show ?thesis by (simp add: processed_def)
  next
    case unknown
    with assms(3) show ?thesis by simp
  next
    case (stale b)
    with fetch_filter_Some [OF stale(2)] show ?thesis by (auto simp: processed_def seq_at_least_def)
  next
    case (applied b)
    then show ?thesis by (simp add: processed_def applied_db_tables)
  qed
  then have "processed d2 e bed sq" by (rule db_steps_processed [OF assms(4) inv1])
  then show ?thesis
    by (rule apply_tx_again [OF booking_inv_parts(1) [OF db_steps_booking_inv [OF assms(4) inv1]]])
qed

theorem redelivery_has_no_effect_witness:
  "\<exists>again\<in>{Duplicate, Stale}. apply_tx 11 1 Occupied 1 30 ex_out = (Inr again, ex_out)"
proof (rule redelivery_has_no_effect [OF ex_inv(2) ex_check_in])
  show "(db_step UNIV)\<^sup>*\<^sup>* ex_in ex_out" using db_step.event [OF ex_check_out] by blast
qed simp

text \<open>
  C22.  The four outcomes of a bed-status event, decided in this order: duplicate when its id is in
  the ledger, unknown when there is no such bed, stale when its sequence number is not above the
  bed's, and applied otherwise.  Only an applied event changes the database, and then the ledger
  has it, and the bed has its status and its sequence number.
\<close>

theorem event_outcomes:
  assumes "schema_ok d" and "apply_tx e bed ns sq now d = (res, d')"
  shows "(e \<in> e_event_id ` set (applied_events d) \<longrightarrow> res = Inr Duplicate \<and> d' = d) \<and>
    (e \<notin> e_event_id ` set (applied_events d) \<longrightarrow> bed \<notin> b_id ` set (beds d) \<longrightarrow>
       res = Inr UnknownBed \<and> d' = d) \<and>
    (\<forall>b\<in>set (beds d). e \<notin> e_event_id ` set (applied_events d) \<longrightarrow> b_id b = bed \<longrightarrow>
       (if sint sq \<le> sint (b_last_event_sequence b) then res = Inr Stale \<and> d' = d
        else res = Inr (Applied (b_shelter_id b) (ns = Available \<and> b_status b \<noteq> ''available'')) \<and>
          e \<in> e_event_id ` set (applied_events d') \<and>
          beds d' = map (\<lambda>b. if b_id b = bed then b\<lparr>b_status := BedStatus_as_db_str ns,
            b_last_event_sequence := sq\<rparr> else b) (beds d)))"
proof -
  have one: "c = b" if "b \<in> set (beds d)" "c \<in> set (beds d)" "b_id c = b_id b" for b c
    by (rule distinct_key_eq [OF schema_ok_keys(2) [OF assms(1)] that(2,1,3)])
  show ?thesis
    using assms(2)
  proof (cases rule: apply_tx_cases)
    case duplicate
    then show ?thesis by simp
  next
    case unknown
    then show ?thesis by (intro conjI impI ballI) simp_all
  next
    case (stale b)
    note b = fetch_filter_Some [OF stale(2)]
    have "c = b" if "c \<in> set (beds d)" "b_id c = bed" for c using one b that by simp
    with stale b show ?thesis by (intro conjI impI ballI) auto
  next
    case (applied b)
    have this_bed: "c = b" if "c \<in> set (beds d)" "b_id c = bed" for c
      using one applied(3,4) that by simp
    have seen: "e \<in> e_event_id ` set (applied_events d')" by (simp add: applied applied_db_tables)
    have beds: "beds d' = map (\<lambda>b. if b_id b = bed then b\<lparr>b_status := BedStatus_as_db_str ns,
        b_last_event_sequence := sq\<rparr> else b) (beds d)"
      by (simp add: applied applied_db_tables update_where_def)
    have known: "bed \<in> b_id ` set (beds d)" using applied(3,4) by blast
    show ?thesis
    proof (intro conjI ballI impI)
      fix c assume "c \<in> set (beds d)" "b_id c = bed"
      then have "c = b" by (rule this_bed)
      with applied(5,6) seen beds
      show "if sint sq \<le> sint (b_last_event_sequence c) then res = Inr Stale \<and> d' = d
        else res = Inr (Applied (b_shelter_id c) (ns = Available \<and> b_status c \<noteq> ''available'')) \<and>
          e \<in> e_event_id ` set (applied_events d') \<and>
          beds d' = map (\<lambda>b. if b_id b = bed then b\<lparr>b_status := BedStatus_as_db_str ns,
            b_last_event_sequence := sq\<rparr> else b) (beds d)" by simp
    qed (use applied(1) known in simp_all)
  qed
qed

theorem event_outcomes_witness: "11 \<in> e_event_id ` set (applied_events ex_in)"
proof -
  have "ex_bed ''reserved'' 0 \<in> set (beds ex_won)" by (simp add: ex_db_def)
  with event_outcomes [OF booking_inv_parts(1) [OF ex_inv(2)] ex_check_in] show ?thesis
    by (auto simp: ex_db_def ex_bed_def)
qed

text \<open>
  C23.  A bed that becomes available, or goes into maintenance, gives up its reservation and puts
  exactly the referral that held it back to pending; every other row, and the place in line of
  this referral, stay as they were.
\<close>

theorem vacated_bed_releases_and_repends:
  assumes "booking_inv d" and "ns \<in> {Available, Maintenance}"
    and "apply_tx e bed ns sq now d = (Inr (Applied sh av), d')"
    and "v \<in> set (reservations d)" and "is_live v" and "v_bed_id v = bed"
  shows "reservations d' = map (\<lambda>w. if w = v then w\<lparr>v_status := ''released''\<rparr> else w) (reservations d) \<and>
    referrals d' = map (\<lambda>r. if r_id r = v_referral_id v then r\<lparr>r_status := ''pending''\<rparr> else r)
      (referrals d)"
  using assms(3)
proof (cases rule: apply_tx_cases)
  case (applied b)
  have ns: "releasing ns" using assms(2) by (auto simp: releasing_def)
  have "reservation_after ns bed w = (if w = v then w\<lparr>v_status := ''released''\<rparr> else w)"
    if "w \<in> set (reservations d)" for w
    using no_double_bookingD [OF assms(1) that assms(4) _ assms(5)] ns assms(2,5,6)
    by (auto simp: reservation_after_def)
  then show ?thesis
    using referrals_after_releasing [OF assms(1) ns assms(4-6)]
    by (simp add: applied applied_db_tables update_where_def)
qed simp_all

theorem vacated_bed_releases_and_repends_witness:
  "referrals ex_out = map (\<lambda>r. if r_id r = 2 then r\<lparr>r_status := ''pending''\<rparr> else r) (referrals ex_in)"
proof -
  let ?v = "\<lparr>v_id = 7, v_bed_id = 1, v_referral_id = 2, v_reserved_at = 9, v_status = ''checked_in''\<rparr>"
  have "?v \<in> set (reservations ex_in)" "is_live ?v" by (simp_all add: ex_db_def is_live_def)
  from vacated_bed_releases_and_repends [OF ex_inv(3) _ ex_check_out this] show ?thesis by simp
qed

text \<open>
  A check-in turns the active reservation of the bed into a checked-in one; the referral
  stays matched, so it is not in line for another bed.
\<close>

theorem check_in_keeps_the_booking:
  assumes "booking_inv d" and "apply_tx e bed Occupied sq now d = (Inr (Applied sh av), d')"
    and "v \<in> set (reservations d)" and "v_status v = ''active''" and "v_bed_id v = bed"
  shows "v\<lparr>v_status := ''checked_in''\<rparr> \<in> set (reservations d') \<and> referrals d' = referrals d \<and>
    (\<forall>r\<in>set (referrals d'). r_id r = v_referral_id v \<longrightarrow> r_status r = ''matched'')"
  using assms(2)
proof (cases rule: apply_tx_cases)
  case (applied b)
  have "\<not> releasing Occupied" by (simp add: releasing_def)
  then have refs: "referrals d' = referrals d"
    using referrals_after_unheld by (simp add: applied applied_db_tables)
  have "reservation_after Occupied bed v = v\<lparr>v_status := ''checked_in''\<rparr>"
    using assms(4,5) by (simp add: reservation_after_def)
  then have "v\<lparr>v_status := ''checked_in''\<rparr> \<in> set (reservations d')"
    using assms(3) by (auto simp: applied applied_db_tables intro: rev_image_eqI)
  moreover have "is_live v" using assms(4) by (simp add: is_live_def)
  then have "\<forall>r\<in>set (referrals d). r_id r = v_referral_id v \<longrightarrow> r_status r = ''matched''"
    using live_matched [OF assms(1) _ assms(3)] by blast
  ultimately show ?thesis using refs by simp
qed simp_all

theorem check_in_keeps_the_booking_witness: "referrals ex_in = referrals ex_won"
proof -
  let ?v = "\<lparr>v_id = 7, v_bed_id = 1, v_referral_id = 2, v_reserved_at = 9, v_status = ''active''\<rparr>"
  have "?v \<in> set (reservations ex_won)" by (simp add: ex_db_def)
  from check_in_keeps_the_booking [OF ex_inv(2) ex_check_in this] show ?thesis by simp
qed

text \<open>
  A freed bed can always be given again: after an event that makes a held bed available,
  the allocation of that bed with a fresh reservation id succeeds (no unique index stops it) and
  awards the bed, because at least the client just put back is waiting for it.
\<close>

theorem freed_bed_is_awarded_again:
  assumes "booking_inv d" and "apply_tx e bed Available sq now d = (Inr (Applied sh av), d')"
    and "v \<in> set (reservations d)" and "is_live v" and "v_bed_id v = bed"
    and "i \<notin> v_id ` set (reservations d')"
  shows "\<exists>a d''. allocate_tx (\<lambda>_. False) i now' bed d' = (Inr (Some a), d'') \<and> bed_id a = bed"
  using assms(2)
proof (cases rule: apply_tx_cases)
  case (applied c)
  have inv: "booking_inv d'" by (rule apply_tx_booking_inv [OF assms(1,2)])
  have "releasing Available" by (simp add: releasing_def)
  from released_waits [OF assms(1) this assms(3-5), of e sq now, folded applied(7)]
  obtain b r where b: "b \<in> set (beds d')" "b_id b = bed"
    "b_status b = BedStatus_as_db_str Available" "waiting d' b r" by blast
  then have av: "b_status b = ''available''" by simp
  from allocate_tx_awards [where locked = "\<lambda>_. False" and now = now', OF inv assms(6) b(1) av b(4)]
  show ?thesis using b(2) by auto
qed simp_all

theorem freed_bed_is_awarded_again_witness:
  "\<exists>a d''. allocate_tx (\<lambda>_. False) 8 9 1 ex_out = (Inr (Some a), d'') \<and> bed_id a = 1"
proof -
  let ?v = "\<lparr>v_id = 7, v_bed_id = 1, v_referral_id = 2, v_reserved_at = 9, v_status = ''checked_in''\<rparr>"
  have v: "?v \<in> set (reservations ex_in)" "is_live ?v" by (simp_all add: ex_db_def is_live_def)
  show ?thesis
    by (rule freed_bed_is_awarded_again [OF ex_inv(3) ex_check_out v]) (simp_all add: ex_db_def)
qed

text \<open>
  The sequence number of a bed never goes back, and no bed disappears: what was reported
  once for a bed is a lower bound in every later state.
\<close>

theorem sequence_never_decreases:
  assumes "booking_inv d" and "(db_step UNIV)\<^sup>*\<^sup>* d d'" and "b \<in> set (beds d)"
  shows "\<exists>b'\<in>set (beds d'). b_id b' = b_id b \<and>
    sint (b_last_event_sequence b) \<le> sint (b_last_event_sequence b')"
proof -
  have "seq_at_least d' (b_id b) (sint (b_last_event_sequence b))"
    using assms(2)
  proof (induction rule: rtranclp_induct)
    case base
    show ?case using assms(3) by (auto simp: seq_at_least_def)
  next
    case (step d1 d2)
    have "schema_ok d1" by (rule booking_inv_parts(1) [OF db_steps_booking_inv [OF step(1) assms(1)]])
    then show ?case by (rule db_step_seq [OF step(2) _ step(3)])
  qed
  then show ?thesis by (auto simp: seq_at_least_def)
qed

theorem sequence_never_decreases_witness:
  "\<exists>b'\<in>set (beds ex_out). b_id b' = 1 \<and> 1 \<le> sint (b_last_event_sequence b')"
proof -
  have b: "ex_bed ''occupied'' 1 \<in> set (beds ex_in)" by (simp add: ex_db_def)
  have "(db_step UNIV)\<^sup>*\<^sup>* ex_in ex_out" using db_step.event [OF ex_check_out] by blast
  from sequence_never_decreases [OF ex_inv(3) this b] show ?thesis by (simp add: ex_bed_def)
qed

text \<open>
  C24.  The eligibility rule is written three times, in two SQL filters and in \<open>is_eligible\<close>; the
  three agree on every row whose unit type can be read, so the debug assertion of the allocation
  never fires.
\<close>

theorem eligibility_codings_agree:
  assumes "UnitType_from_db_str (r_unit_type_required r) = Inr u"
    and "UnitType_from_db_str (b_unit_type b) = Inr u'"
  shows "(pending_filter region bed_attrs r \<longleftrightarrow>
      r_region r = region \<and> r_status r = ''pending'' \<and> is_eligible bed_attrs (needs_of u r)) \<and>
    (candidate_filter region needs (b, s) \<longleftrightarrow>
      s_region s = region \<and> b_status b = ''available'' \<and> is_eligible (attrs_of u' b) needs)"
  using assms unit_codec.to_str_inject
  by (auto simp: pending_filter_def candidate_filter_def is_eligible_iff unit_codec.of_str_Inr)

theorem eligibility_codings_agree_witness:
  "candidate_filter ''north'' ex_needs (ex_bed ''available'' 0, ex_shelter) \<longleftrightarrow>
     is_eligible (attrs_of General (ex_bed ''available'' 0)) ex_needs"
proof -
  have "UnitType_from_db_str (r_unit_type_required (ex_referral 1 10 0 ''pending'')) = Inr General"
    "UnitType_from_db_str (b_unit_type (ex_bed ''available'' 0)) = Inr General"
    by (simp_all add: ex_defs ex_unit)
  from eligibility_codings_agree [OF this, of "''north''" undefined ex_needs ex_shelter]
  show ?thesis by (simp add: ex_defs)
qed

end
