(* ===== verification/Session_Properties.thy ===== *)
theory Session_Properties
  imports Booking_Properties
begin

section \<open>Properties of submissions and of the matching service\<close>

text \<open>
  A script stands for everything around a session.  The properties below hold for every fair
  script, that is for every interleaving of the session's transactions with transactions of other
  sessions, with any faults; those that say so are about sessions that run alone.
\<close>

text \<open>
  A submission, whether it succeeds or fails, and whatever runs between its transactions,
  leaves the database in a state that keeps the booking invariant, and the stronger one when the
  events come from terminals.
\<close>

theorem submission_keeps_the_invariants:
  assumes "submit_referral s cw rg nd vu fa st = (x, st')"
  shows "(fair_script UNIV s \<longrightarrow> booking_inv (pool st) \<longrightarrow> booking_inv (pool st')) \<and>
    (fair_script terminal_statuses s \<longrightarrow> terminal_inv (pool st) \<longrightarrow> terminal_inv (pool st'))"
  using by_program.submit_referral_R [OF assms, of UNIV]
    by_program.submit_referral_R [OF assms, of terminal_statuses]
    booking.steps terminal.steps unfolding by_program_def by blast

theorem submission_keeps_the_invariants_witness:
  "booking_inv (pool (snd (submit_referral ex_script ''cw'' ''north'' ex_needs 50 1 (ex_state ex_won))))"
proof -
  obtain x st' where r: "submit_referral ex_script ''cw'' ''north'' ex_needs 50 1 (ex_state ex_won) = (x, st')"
    by fastforce
  from submission_keeps_the_invariants [OF r] ex_script_fair [of UNIV] ex_inv(2) r show ?thesis by simp
qed

text \<open>
  C25.  The answer of a submission is the truth about the database at its last read: a match
  names a bed that a live reservation holds for this referral, with the shelter of that bed, and
  pending means that no live reservation exists for it.  The side allocations are at most 500,
  and none of them is for this referral.
\<close>

theorem submission_outcome_is_true:
  assumes "fair_script UNIV s" and "booking_inv (pool st)"
    and "submit_referral s cw rg nd vu fa st = (Inr (out, side), st')"
  shows "(case out of
       Matched a \<Rightarrow> referral_id a = mv_uuid (s (pos st)) \<and>
         (\<exists>v\<in>set (reservations (pool st')). is_live v \<and> v_referral_id v = referral_id a \<and>
            v_bed_id v = bed_id a) \<and>
         (\<exists>b\<in>set (beds (pool st')). b_id b = bed_id a \<and> b_shelter_id b = shelter_id a)
     | Pending i \<Rightarrow> i = mv_uuid (s (pos st)) \<and>
         (\<forall>v\<in>set (reservations (pool st')). v_referral_id v = i \<longrightarrow> \<not> is_live v)) \<and>
    length side \<le> 500 \<and> (\<forall>a\<in>set side. referral_id a \<noteq> mv_uuid (s (pos st)))"
proof -
  have "booking_inv (pool st')"
    using by_program.submit_referral_R [OF assms(3)] assms(1,2) booking.steps
    unfolding by_program_def by blast
  from submit_referral_outcome [OF assms(3) booking_inv_parts(1) [OF this]] show ?thesis
    by (cases out) (auto simp: holds_def unmatched_def)
qed

lemma ex_no_offer: "\<not> offers ex_won ''north'' ex_needs b"
proof
  assume off: "offers ex_won ''north'' ex_needs b"
  then have "b = ex_bed ''reserved'' 0" unfolding offers_def by (simp add: ex_db_def)
  with off show False unfolding offers_def by (simp add: ex_bed_def)
qed

lemma ex_won_quiescent: "quiescent ex_won"
  by (simp add: quiescent_def ex_defs)

lemma ex_pending_run:
  "\<exists>st'. submit_referral ex_script ''cw'' ''north'' ex_needs 50 1 (ex_state ex_won) =
     (Inr (Pending 100, []), st')"
  using submit_referral_quiescent_None [OF ex_script_alone, of "ex_state ex_won" "''north''" ex_needs
      "''cw''" 50 1] ex_inv(2) ex_won_quiescent ex_no_offer
  by (auto simp: ex_db_def ex_referral_def)

theorem submission_outcome_is_true_witness:
  "\<exists>st'. submit_referral ex_script ''cw'' ''north'' ex_needs 50 1 (ex_state ex_won) =
      (Inr (Pending 100, []), st') \<and>
    (\<forall>v\<in>set (reservations (pool st')). v_referral_id v = 100 \<longrightarrow> \<not> is_live v)"
proof -
  obtain st' where r: "submit_referral ex_script ''cw'' ''north'' ex_needs 50 1 (ex_state ex_won) =
     (Inr (Pending 100, []), st')" using ex_pending_run by blast
  from submission_outcome_is_true [OF ex_script_fair _ r] ex_inv(2) r show ?thesis
    by (intro exI [of _ st']) simp
qed

text \<open>
  C27.  A submission always comes to an end: it takes at most 1002 transactions, whatever the
  other sessions do, and it never panics.
\<close>

theorem submission_is_bounded:
  assumes "submit_referral s cw rg nd vu fa st = (x, st')"
  shows "pos st' \<le> pos st + 1002 \<and> (\<forall>msg. x \<noteq> Inl (Panicked msg))"
  using submit_referral_pos [OF assms] submit_referral_no_panic assms by blast

theorem submission_is_bounded_witness:
  "pos (snd (submit_referral ex_script ''cw'' ''north'' ex_needs 50 1 (ex_state ex_won))) \<le> 1002"
proof -
  obtain x st' where r: "submit_referral ex_script ''cw'' ''north'' ex_needs 50 1 (ex_state ex_won) = (x, st')"
    by fastforce
  from submission_is_bounded [OF r] r show ?thesis by simp
qed

text \<open>
  C28.  A submission succeeds while the connection is healthy: with no fault and fresh
  identifiers, no interleaving with other sessions makes it fail.
\<close>

theorem submission_succeeds:
  assumes "fair_script A s" and "distinct_ids H s" and "ids_unused H s st"
    and "booking_inv (pool st)" and "\<forall>k\<ge>pos st. mv_fault (s k) = None"
    and "mv_uuid (s (pos st)) \<notin> r_id ` set (referrals (mv_interfere (s (pos st)) (pool st)))"
    and "pos st + 1002 \<le> H"
  shows "\<exists>out side st'. submit_referral s cw rg nd vu fa st = (Inr (out, side), st')"
  by (rule submit_referral_total [OF assms(1,2) _ assms(6,7)]) (use assms in \<open>simp add: healthy_def\<close>)

theorem submission_succeeds_witness:
  "\<exists>out side st'. submit_referral ex_script ''cw'' ''north'' ex_needs 50 1 (ex_state ex_wait) =
     (Inr (out, side), st')"
  by (rule submission_succeeds [OF ex_script_fair [of UNIV] ex_script_ids])
     (simp_all add: ex_inv ex_ids_unused, simp_all add: ex_db_def ex_referral_def)

text \<open>
  When no free bed suits anybody who waits, a submission that runs alone and for which some
  free bed meets the criteria is matched at once, with the free bed of smallest id; nobody else
  is served on the way, and afterwards again no free bed suits anybody who waits.
\<close>

theorem quiet_submission_takes_the_first_bed:
  assumes "alone s" and "booking_inv (pool st)" and "quiescent (pool st)"
    and "mv_uuid (s (pos st)) \<notin> r_id ` set (referrals (pool st))"
    and "mv_uuid (s (pos st + 2)) \<notin> v_id ` set (reservations (pool st))"
    and "offers (pool st) rg nd b" and "\<forall>c. offers (pool st) rg nd c \<longrightarrow> b_id b \<le> b_id c"
  shows "\<exists>st'. submit_referral s cw rg nd vu fa st =
      (Inr (Matched \<lparr>bed_id = b_id b, shelter_id = b_shelter_id b,
                     referral_id = mv_uuid (s (pos st))\<rparr>, []), st') \<and> quiescent (pool st')"
  by (rule submit_referral_quiescent_Some [OF assms])

lemma ex_free_quiescent: "quiescent ex_free"
  by (simp add: quiescent_def waiting_def ex_free_def)

lemma ex_free_offers: "offers ex_free ''north'' ex_needs b \<longleftrightarrow> b = ex_bed ''available'' 0"
proof
  assume "offers ex_free ''north'' ex_needs b"
  then show "b = ex_bed ''available'' 0" unfolding offers_def by (simp add: ex_free_def)
next
  assume "b = ex_bed ''available'' 0"
  then show "offers ex_free ''north'' ex_needs b"
    by (simp add: offers_def ex_free_def candidate_filter_def ex_needs_def ex_shelter_def ex_bed_def)
qed

theorem quiet_submission_takes_the_first_bed_witness:
  "\<exists>st'. submit_referral ex_script ''cw'' ''north'' ex_needs 50 1 (ex_state ex_free) =
     (Inr (Matched \<lparr>bed_id = 1, shelter_id = 1, referral_id = 100\<rparr>, []), st') \<and>
     quiescent (pool st')"
  using quiet_submission_takes_the_first_bed [OF ex_script_alone, of "ex_state ex_free" "''north''"
      ex_needs "ex_bed ''available'' 0" "''cw''" 50 1] ex_inv(7) ex_free_quiescent
  by (simp add: ex_free_offers, simp add: ex_free_def ex_bed_def)

text \<open>
  In the same situation, when no free bed meets the criteria, the submission is pending and
  the database stays quiescent.
\<close>

theorem quiet_submission_waits:
  assumes "alone s" and "booking_inv (pool st)" and "quiescent (pool st)"
    and "mv_uuid (s (pos st)) \<notin> r_id ` set (referrals (pool st))"
    and "\<forall>b. \<not> offers (pool st) rg nd b"
  shows "\<exists>st'. submit_referral s cw rg nd vu fa st =
      (Inr (Pending (mv_uuid (s (pos st))), []), st') \<and> quiescent (pool st')"
  by (rule submit_referral_quiescent_None [OF assms])

theorem quiet_submission_waits_witness:
  "\<exists>st'. submit_referral ex_script ''cw'' ''north'' ex_needs 50 1 (ex_state ex_won) =
     (Inr (Pending 100, []), st') \<and> quiescent (pool st')"
  using quiet_submission_waits [OF ex_script_alone, of "ex_state ex_won" "''north''" ex_needs
      "''cw''" 50 1] ex_inv(2) ex_won_quiescent ex_no_offer
  by (auto simp: ex_db_def ex_referral_def)

text \<open>
  Without a fault, and whatever others do and send meanwhile, a publication sends exactly one
  update, and every field of it is true: the ids, the status, the region of the shelter, the
  clock at sending, and the number of available beds of that region, which is that of the database
  at the moment it was read.
\<close>

theorem publication_is_accurate:
  assumes "fair_script UNIV s" and "booking_inv (pool st)"
    and "mv_fault (s (pos st)) = None" and "mv_fault (s (Suc (pos st))) = None"
    and "sr \<in> set (shelters (pool st))" and "s_id sr = sh"
  shows "\<exists>d. (db_step UNIV)\<^sup>*\<^sup>* (pool st) d \<and>
    publish_bed_update X s sh b status ts st = st\<lparr>pool := d, pos := pos st + 2,
      availability_tx := availability_tx st @ sent_by_others s (pos st) (pos st + 2) @
        [\<lparr>up_shelter_id = show_uuid X sh, up_bed_id = show_uuid X b,
          up_status = proto_BedStatus_as_i32 (BedStatus_to_proto status),
          up_available_count_in_region =
            int (length (filter (\<lambda>(b, s). s_region s = s_region sr \<and> b_status b = ''available'')
              (beds_join_shelters d))),
          up_event_timestamp_ms = ts, up_delivered_timestamp_ms = mv_utc_ms (s (pos st + 2)),
          up_region = s_region sr\<rparr>]\<rparr>"
proof -
  obtain d u where d: "(db_step UNIV)\<^sup>*\<^sup>* (pool st) d"
    and run: "publish_bed_update X s sh b status ts st =
       st\<lparr>pool := d, pos := pos st + 2,
         availability_tx := availability_tx st @ sent_by_others s (pos st) (pos st + 2) @ [u]\<rparr>"
    and u: "up_shelter_id u = show_uuid X sh" "up_bed_id u = show_uuid X b" "up_region u = s_region sr"
    "up_status u = proto_BedStatus_as_i32 (BedStatus_to_proto status)"
    "up_event_timestamp_ms u = ts" "up_available_count_in_region u = available_in d (s_region sr)"
    "up_delivered_timestamp_ms u = mv_utc_ms (s (pos st + 2))"
    using publish_healthy [OF assms] by metis
  have "u = \<lparr>up_shelter_id = up_shelter_id u, up_bed_id = up_bed_id u, up_status = up_status u,
      up_available_count_in_region = up_available_count_in_region u,
      up_event_timestamp_ms = up_event_timestamp_ms u,
      up_delivered_timestamp_ms = up_delivered_timestamp_ms u, up_region = up_region u\<rparr>" by simp
  with d show ?thesis unfolding run by (intro exI [of _ d]) (simp add: u available_in_def)
qed

theorem publication_is_accurate_witness:
  "map up_region (availability_tx
     (publish_bed_update ex_externals ex_script 1 1 Available 0 (ex_state ex_wait))) = [''north'']"
proof -
  have "ex_shelter \<in> set (shelters (pool (ex_state ex_wait)))" "s_id ex_shelter = 1"
    by (simp_all add: ex_db_def ex_shelter_def)
  moreover have "booking_inv (pool (ex_state ex_wait))" using ex_inv(1) by simp
  ultimately show ?thesis
    using publication_is_accurate [OF ex_script_fair, of "ex_state ex_wait" ex_shelter 1
        ex_externals 1 Available 0] by (auto simp: ex_shelter_def)
qed

text \<open>
  C29.  The response of \<open>match_referral\<close> is the truth about the database at the
  last read of the call's own submission, about the referral that this submission has inserted
  for the request: a matched bed is held by a live reservation for this referral, in the shelter
  named, and without a matched bed the referral has no live reservation. The status says which
  of the two it is.
\<close>

theorem match_referral_answers_the_truth:
  assumes fair: "fair_script UNIV s" and inv: "booking_inv (pool st)"
    and run: "match_referral X s req st = (Inr resp, st')"
  shows "\<exists>criteria out side st1. rq_criteria req = Some criteria \<and>
    submit_referral s (rq_caseworker_id req) (rq_region req) (needs_of_criteria X criteria)
      (c_vulnerability_score criteria) (c_family_size criteria) st = (Inr (out, side), st1) \<and>
    (db_step UNIV)\<^sup>*\<^sup>* (pool st1) (pool st') \<and>
    rs_referral_id resp = show_uuid X (mv_uuid (s (pos st))) \<and>
    (\<exists>r\<in>set (referrals (pool st1)). r_id r = mv_uuid (s (pos st)) \<and> r_region r = rq_region req) \<and>
    (case rs_matched_bed resp of
       None \<Rightarrow> rs_status resp = 1 \<and>
         (\<forall>v\<in>set (reservations (pool st1)). v_referral_id v = mv_uuid (s (pos st)) \<longrightarrow> \<not> is_live v)
     | Some ref \<Rightarrow> rs_status resp = 2 \<and>
         (\<exists>v\<in>set (reservations (pool st1)). \<exists>b\<in>set (beds (pool st1)). is_live v \<and>
            v_referral_id v = mv_uuid (s (pos st)) \<and>
            b_id b = v_bed_id v \<and> ref_bed_id ref = show_uuid X (b_id b) \<and>
            ref_shelter_id ref = show_uuid X (b_shelter_id b)))"
  using run
proof (cases rule: match_referral_cases)
  case (answered criteria out side st1)
  note sub = by_program.submit_referral_R [OF answered(2), of UNIV]
  have after: "(db_step UNIV)\<^sup>*\<^sup>* (pool st1) (pool st')"
    using publish_reserved_by_program [of UNIV s st1] fair by (simp add: by_program_def answered(4))
  have "booking_inv (pool st1)"
    using booking.steps [OF _ inv] sub fair by (simp add: by_program_def)
  from submit_referral_outcome [OF answered(2) booking_inv_parts(1) [OF this]]
  have true: "outcome_true (pool st1) (mv_uuid (s (pos st))) out" by blast
  obtain r where r: "r \<in> set (referrals (pool st1))" "r_id r = mv_uuid (s (pos st))"
    "r_region r = rq_region req"
    by (rule submission_keeps_region [OF fair answered(2)])
  show ?thesis
    by (intro exI [of _ criteria] exI [of _ out] exI [of _ side] exI [of _ st1] conjI
        answered(1,2) after bexI [OF _ r(1)] r(2,3))
       (use true in \<open>cases out; force simp: answered(3) [unfolded sum.inject] response_of_def holds_def
         unmatched_def\<close>)+
qed simp_all

definition ex_request :: SubmitReferralRequest where
  "ex_request = \<lparr>rq_caseworker_id = ''cw'', rq_region = ''north'', rq_criteria = Some
     \<lparr>c_family_size = 1, c_unit_type_required = 1, c_needs_pet_friendly = False,
      c_needs_sobriety_free_environment = False, c_needs_ada_accessible = False,
      c_vulnerability_score = 50\<rparr>\<rparr>"

lemma ex_criteria: "needs_of_criteria ex_externals (the (rq_criteria ex_request)) = ex_needs"
  by (simp add: needs_of_criteria_def ex_externals_def ex_request_def ex_needs_def)

lemma ex_match_pending:
  "\<exists>st'. match_referral ex_externals ex_script ex_request (ex_state ex_won) =
     (Inr (response_of ex_externals (Pending 100)), st')"
proof -
  obtain st' where "submit_referral ex_script ''cw'' ''north'' ex_needs 50 1 (ex_state ex_won) =
     (Inr (Pending 100, []), st')" using ex_pending_run by blast
  with ex_criteria show ?thesis by (simp add: match_referral_eq ex_request_def)
qed

theorem match_referral_answers_the_truth_witness:
  "\<exists>st1. fst (match_referral ex_externals ex_script ex_request (ex_state ex_won)) =
      Inr (response_of ex_externals (Pending 100)) \<and>
    snd (submit_referral ex_script ''cw'' ''north'' ex_needs 50 1 (ex_state ex_won)) = st1 \<and>
    (\<exists>r\<in>set (referrals (pool st1)). r_id r = 100 \<and> r_region r = ''north'') \<and>
    (\<forall>v\<in>set (reservations (pool st1)). v_referral_id v = 100 \<longrightarrow> \<not> is_live v)"
proof -
  obtain st' where r: "match_referral ex_externals ex_script ex_request (ex_state ex_won) =
     (Inr (response_of ex_externals (Pending 100)), st')" using ex_match_pending by blast
  have inv: "booking_inv (pool (ex_state ex_won))" using ex_inv(2) by simp
  from match_referral_answers_the_truth [OF ex_script_fair inv r] r ex_criteria
  show ?thesis by (auto simp: response_of_def ex_request_def)
qed

text \<open>
  Without faults, and whatever others do and send meanwhile, a call publishes every allocation
  it caused, in order: first those that went to other referrals, then its own match, each once,
  each as reserved, and each in the region that the request names.
\<close>

theorem every_allocation_is_published:
  assumes fair: "fair_script UNIV s" and inv: "booking_inv (pool st)"
    and ok: "\<forall>k. pos st \<le> k \<longrightarrow> mv_fault (s k) = None"
    and run: "match_referral X s req st = (Inr resp, st')"
  shows "\<exists>criteria out side st1 updates sent. rq_criteria req = Some criteria \<and>
    submit_referral s (rq_caseworker_id req) (rq_region req) (needs_of_criteria X criteria)
      (c_vulnerability_score criteria) (c_family_size criteria) st = (Inr (out, side), st1) \<and>
    availability_tx st' = availability_tx st @ sent \<and>
    sent \<in> shuffles updates (sent_by_others s (pos st) (pos st')) \<and>
    list_all2 (\<lambda>a u. up_bed_id u = show_uuid X (bed_id a) \<and>
        up_shelter_id u = show_uuid X (shelter_id a) \<and> up_region u = rq_region req \<and>
        up_status u = proto_BedStatus_as_i32 Proto_RESERVED)
      (side @ (case out of Matched a \<Rightarrow> [a] | Pending _ \<Rightarrow> [])) updates"
proof -
  obtain criteria out side st1 updates sent where "rq_criteria req = Some criteria"
    "submit_referral s (rq_caseworker_id req) (rq_region req) (needs_of_criteria X criteria)
      (c_vulnerability_score criteria) (c_family_size criteria) st = (Inr (out, side), st1)"
    "availability_tx st' = availability_tx st @ sent" "pos st \<le> pos st'"
    "sent \<in> shuffles updates (sent_by_others s (pos st) (pos st'))"
    and u: "list_all2 (\<lambda>a. update_of X a (rq_region req) Reserved) (to_publish out side) updates"
    by (rule match_referral_publishes [OF fair inv ok run])
  moreover have "list_all2 (\<lambda>a u. up_bed_id u = show_uuid X (bed_id a) \<and>
        up_shelter_id u = show_uuid X (shelter_id a) \<and> up_region u = rq_region req \<and>
        up_status u = proto_BedStatus_as_i32 Proto_RESERVED)
      (side @ (case out of Matched a \<Rightarrow> [a] | Pending _ \<Rightarrow> [])) updates"
    using u unfolding to_publish_def by (rule list_all2_mono) (simp add: update_of_def)
  ultimately show ?thesis by (intro exI conjI)
qed

lemma ex_match_matched:
  "\<exists>st' st1. match_referral ex_externals ex_script ex_request (ex_state ex_free) =
     (Inr (response_of ex_externals (Matched \<lparr>bed_id = 1, shelter_id = 1, referral_id = 100\<rparr>)), st') \<and>
     submit_referral ex_script ''cw'' ''north'' ex_needs 50 1 (ex_state ex_free) =
     (Inr (Matched \<lparr>bed_id = 1, shelter_id = 1, referral_id = 100\<rparr>, []), st1)"
proof -
  have "\<exists>st'. submit_referral ex_script ''cw'' ''north'' ex_needs 50 1 (ex_state ex_free) =
     (Inr (Matched \<lparr>bed_id = 1, shelter_id = 1, referral_id = 100\<rparr>, []), st')"
    using submit_referral_quiescent_Some [OF ex_script_alone, of "ex_state ex_free" "''north''"
      ex_needs "ex_bed ''available'' 0" "''cw''" 50 1] ex_inv(7) ex_free_quiescent
    by (simp add: ex_free_offers) (auto simp: ex_free_def ex_bed_def)
  with ex_criteria show ?thesis by (auto simp: match_referral_eq ex_request_def)
qed

theorem every_allocation_is_published_witness:
  "\<exists>st'. fst (match_referral ex_externals ex_script ex_request (ex_state ex_free)) =
      Inr (response_of ex_externals (Matched \<lparr>bed_id = 1, shelter_id = 1, referral_id = 100\<rparr>)) \<and>
    snd (match_referral ex_externals ex_script ex_request (ex_state ex_free)) = st' \<and>
    map up_bed_id (availability_tx st') = [show_uuid ex_externals 1]"
proof -
  obtain st' st1 where r: "match_referral ex_externals ex_script ex_request (ex_state ex_free) =
     (Inr (response_of ex_externals (Matched \<lparr>bed_id = 1, shelter_id = 1, referral_id = 100\<rparr>)), st')"
    and sub: "submit_referral ex_script ''cw'' ''north'' ex_needs 50 1 (ex_state ex_free) =
     (Inr (Matched \<lparr>bed_id = 1, shelter_id = 1, referral_id = 100\<rparr>, []), st1)"
    using ex_match_matched by blast
  have inv: "booking_inv (pool (ex_state ex_free))" using ex_inv(7) by simp
  have "\<forall>k. pos (ex_state ex_free) \<le> k \<longrightarrow> mv_fault (ex_script k) = None" by simp
  from every_allocation_is_published [OF ex_script_fair inv this r] sub ex_criteria r
  show ?thesis by (auto simp: ex_request_def list_all2_Cons1)
qed

text \<open>
  A subscriber's stream carries exactly the updates of its region that reached its
  receiver, in order, or all of them when it names no region; it never carries an error, not even
  after updates were missed.
\<close>

theorem stream_carries_the_region:
  "stream_availability region_filter items =
     map Inr (filter (\<lambda>u. region_filter = [] \<or> up_region u = region_filter)
       (concat (map (\<lambda>item. case item of Inl lagged \<Rightarrow> [] | Inr u \<Rightarrow> [u]) items)))"
  by (induction items) (auto simp: stream_availability_def List.map_filter_simps split: sum.split)

end
