(* ===== verification/Service_Properties.thy ===== *)
theory Service_Properties
  imports Session_Properties
begin

section \<open>Properties of the event path, of startup and of the simulator\<close>

text \<open>
  What the consumer, intake, startup and the simulator guarantee.
\<close>

subsection \<open>The consumer\<close>

text \<open>
  A run of the consumer over a sequence of received messages that is not ended by the overflow of
  the retry counter commits the offset of every message, in the order of receipt; when an offset is committed the event of its
  message is processed: its id is in the ledger, or its sequence number is not above the bed's,
  for every message that can be read and whose bed exists.  Messages that cannot be read do not
  stop the run.
\<close>

theorem consumer_processes_before_it_commits:
  assumes "fair_script UNIV s" and "booking_inv (pool (app c))"
    and "run_consumer X s commit_ok received c = Some (Inr c')"
  shows "booking_inv (pool (app c')) \<and>
    committed c' = committed c @ filter commit_ok (map msg_offset (messages received)) \<and>
    (\<forall>msg\<in>set (messages received). \<forall>e b ev. message_event X msg = Some (e, b, ev) \<longrightarrow>
       b \<in> b_id ` set (beds (pool (app c))) \<longrightarrow>
       e \<in> e_event_id ` set (applied_events (pool (app c'))) \<or>
       (\<exists>bd\<in>set (beds (pool (app c'))). b_id bd = b \<and>
          sint (ev_sequence ev) \<le> sint (b_last_event_sequence bd)))"
proof -
  have c': "by_program UNIV s (app c) (app c')"
    "committed c' = committed c @ filter commit_ok (map msg_offset (messages received))"
    "\<forall>msg\<in>set (messages received).
       message_done X (b_id ` set (beds (pool (app c)))) (pool (app c')) msg"
    using run_consumer_returns [OF assms(1,2) subset_refl assms(3)] by simp_all
  have "booking_inv (pool (app c'))" by (rule by_program_booking_inv [OF assms(1) c'(1) assms(2)])
  with c' show ?thesis
    unfolding message_done_def processed_def seq_at_least_def by simp
qed

definition ex_message :: kafka_message where
  "ex_message = \<lparr>msg_payload = Some [1], msg_offset = 3\<rparr>"

definition ex_consumer :: consumer where
  "ex_consumer = \<lparr>app = ex_state ex_won, committed = []\<rparr>"

lemma ex_message_event: "message_event ex_externals ex_message = Some (12, 1, ex_event 3)"
  by (simp add: message_event_def ex_message_def ex_externals_def parse_ids_def ex_event_def)

lemma ex_consumer_inv: "booking_inv (pool (app ex_consumer))" "ids_unused 2000 ex_script (app ex_consumer)"
  using ex_inv(2) ex_ids_unused(2) by (simp_all add: ex_consumer_def)

lemma ex_consumer_run:
  "\<exists>c'. run_consumer ex_externals ex_script (\<lambda>_. True) [Inl (), Inr ex_message] ex_consumer = Some (Inr c')"
  by (rule run_consumer_ends [OF ex_script_fair ex_script_ids, where N = 0])
     (simp_all add: ex_consumer_inv, simp add: ex_consumer_def)

theorem consumer_processes_before_it_commits_witness:
  "\<exists>c'. run_consumer ex_externals ex_script (\<lambda>_. True) [Inl (), Inr ex_message] ex_consumer =
      Some (Inr c') \<and> committed c' = [3]"
proof -
  obtain c' where r: "run_consumer ex_externals ex_script (\<lambda>_. True) [Inl (), Inr ex_message] ex_consumer
      = Some (Inr c')" using ex_consumer_run by blast
  from consumer_processes_before_it_commits [OF ex_script_fair ex_consumer_inv(1) r] r
  show ?thesis by (simp add: ex_message_def ex_consumer_def)
qed

text \<open>
  The consumer makes progress: once faults are over it comes to the end of any sequence of
  received messages, readable or not, whatever other sessions do meanwhile.
\<close>

theorem consumer_comes_to_the_end:
  assumes "fair_script UNIV s" and "distinct_ids H s" and "\<forall>k\<ge>N. mv_fault (s k) = None"
    and "N < 2 ^ 32" and "booking_inv (pool (app c))" and "ids_unused H s (app c)"
    and "max (pos (app c)) (N + 3) + 4 * length (messages received) + 2 \<le> H"
  shows "\<exists>c'. run_consumer X s commit_ok received c = Some (Inr c')"
  by (rule run_consumer_ends [OF assms(1-3) _ assms(4-7)]) (use assms(7) in simp)

theorem consumer_comes_to_the_end_witness:
  "\<exists>c'. run_consumer ex_externals ex_script (\<lambda>_. False) [Inr ex_message] ex_consumer = Some (Inr c')"
  by (rule consumer_comes_to_the_end [OF ex_script_fair ex_script_ids, where N = 0])
     (simp_all add: ex_consumer_inv, simp add: ex_consumer_def)

text \<open>
  C30.  A failing event is retried in place until it is done: if no query fails from move
  \<open>N\<close> on, at most \<open>N\<close> attempts fail, one more attempt succeeds, and
  then the loop returns. There is one pause for every failed attempt, the pause after the
  \<open>k\<close>-th is exactly 200 milliseconds times the smaller of \<open>k\<close> and 25,
  so at most 5 seconds, and if the bed exists the event is processed: its id is in the ledger or
  its sequence number is not above the bed's.
\<close>

theorem retry_succeeds_when_faults_end:
  assumes "fair_script UNIV s" and "distinct_ids H s" and "\<forall>k\<ge>N. mv_fault (s k) = None"
    and "booking_inv (pool st)" and "ids_unused H s st" and "max (pos st + 2) (N + 5) \<le> H"
    and "N < 2 ^ 32"
  shows "\<exists>pauses st1 st'. retry X s e b ns ev 0 [] st = Some (Inr pauses, st') \<and>
    (attempt X s e b ns ev ^^ length pauses) st st1 \<and>
    apply_and_notify X s e b ns ev st1 = (Inr (), st') \<and>
    length pauses \<le> N - pos st \<and>
    map unat pauses = map (\<lambda>k. 200 * min (Suc k) 25) [0..<length pauses] \<and>
    (\<forall>p\<in>set pauses. unat p \<le> 5000) \<and>
    (b \<in> b_id ` set (beds (pool st)) \<longrightarrow>
       e \<in> e_event_id ` set (applied_events (pool st')) \<or>
       (\<exists>bd\<in>set (beds (pool st')). b_id bd = b \<and>
          sint (ev_sequence ev) \<le> sint (b_last_event_sequence bd)))"
proof -
  obtain n st1 st' where r: "retry X s e b ns ev 0 [] st = Some (Inr ([] @ pauses_upto 0 n), st')"
      and n: "n \<le> N - pos st" and a: "(attempt X s e b ns ev ^^ n) st st1"
      and last: "apply_and_notify X s e b ns ev st1 = (Inr (), st')"
    using retry_ends [OF assms(1) UNIV_I assms(2,3) _ assms(4,5), of 0 X e b ns ev "[]"] assms(6)
      le_less_trans [OF diff_le_self assms(7)] by auto
  have len: "length (pauses_upto 0 n) = n" by (simp add: pauses_upto_def)
  have ms: "map unat (pauses_upto 0 n) = map (\<lambda>k. 200 * min (Suc k) 25) [0..<n]"
    by (rule pauses_upto_ms) (use n assms(7) in simp)
  have "\<forall>p\<in>set (map unat (pauses_upto 0 n)). p \<le> 5000" unfolding ms by simp
  then have "\<forall>p\<in>set (pauses_upto 0 n). unat p \<le> 5000" by simp
  moreover have "b \<in> b_id ` set (beds (pool st)) \<longrightarrow> processed (pool st') e b (ev_sequence ev)"
    using retry_processed [OF assms(1,4) _ r] by blast
  ultimately show ?thesis
    using r n a last ms len unfolding processed_def seq_at_least_def
    by (intro exI [of _ "pauses_upto 0 n"] exI [of _ st1] exI [of _ st']) simp
qed

lemma ex_attempt_fails:
  "\<exists>st'. apply_and_notify ex_externals (ex_failing 1) 12 1 Occupied (ex_event 3) (ex_state ex_won) =
     (Inl (Failed (Database Io_error)), st')"
proof -
  have "apply_tx 12 1 Occupied 1 0 ex_won =
      (Inr (Applied 1 False), ex_db ''occupied'' 1 ''matched'' [(''checked_in'', 7)] [12] \<lparr>applied_events :=
        [\<lparr>e_event_id = 12, e_bed_id = 1, e_applied_at = 0\<rparr>]\<rparr>)"
    by (simp add: apply_tx_def insert_applied_event_def ex_defs update_beds_def update_where_def
        reservation_lifecycle_def update_reservations_def)
  then show ?thesis
    by (simp add: apply_and_notify_def apply_bed_status_event_def allocate_and_notify_def
        allocate_for_bed_def exec_def run_tx_def ex_event_def)
qed

theorem retry_succeeds_when_faults_end_witness:
  "\<exists>pauses st'. retry ex_externals (ex_failing 1) 12 1 Occupied (ex_event 3) 0 [] (ex_state ex_won) =
     Some (Inr (200 # pauses), st') \<and>
     (12 \<in> e_event_id ` set (applied_events (pool st')) \<or>
      (\<exists>bd\<in>set (beds (pool st')). b_id bd = 1 \<and> 1 \<le> sint (b_last_event_sequence bd)))"
proof -
  let ?s = "ex_failing 1" and ?st = "ex_state ex_won"
  have fair: "fair_script UNIV ?s" by (simp add: fair_script_def)
  have ids: "distinct_ids 2000 ?s" "ids_unused 2000 ?s ?st"
    using ex_script_ids ex_ids_unused(2) [of "''reserved''"] by (simp_all add: distinct_ids_def ids_unused_def)
  have inv: "booking_inv (pool ?st)" using ex_inv(2) by simp
  have late: "\<forall>k\<ge>2. mv_fault (?s k) = None" by simp
  have known: "1 \<in> b_id ` set (beds (pool ?st))" by (simp add: ex_defs)
  have H: "max (pos ?st + 2) (2 + 5) \<le> (2000 :: nat)" "(2 :: nat) < 2 ^ 32" by simp_all
  obtain pauses st1 st' where r: "retry ex_externals ?s 12 1 Occupied (ex_event 3) 0 [] ?st =
      Some (Inr pauses, st')"
    and a: "(attempt ex_externals ?s 12 1 Occupied (ex_event 3) ^^ length pauses) ?st st1"
    and last: "apply_and_notify ex_externals ?s 12 1 Occupied (ex_event 3) st1 = (Inr (), st')"
    and "length pauses \<le> 2 - pos ?st"
    and ms: "map unat pauses = map (\<lambda>k. 200 * min (Suc k) 25) [0..<length pauses]"
    and "\<forall>p\<in>set pauses. unat p \<le> 5000"
    and finished: "1 \<in> b_id ` set (beds (pool ?st)) \<longrightarrow> 12 \<in> e_event_id ` set (applied_events (pool st')) \<or>
      (\<exists>bd\<in>set (beds (pool st')). b_id bd = 1 \<and> sint (ev_sequence (ex_event 3)) \<le> sint (b_last_event_sequence bd))"
    using retry_succeeds_when_faults_end [OF fair ids(1) late inv ids(2) H, of ex_externals 12 1 Occupied "ex_event 3"]
    by (elim exE conjE) (rule that)
  have "pauses \<noteq> []" using a last ex_attempt_fails by auto
  then obtain p ps where p: "pauses = p # ps" by (cases pauses) auto
  have "unat p = unat (200 :: u64)" using ms by (simp add: p upt_conv_Cons del: upt_Suc)
  then have "p = 200" by (simp only: word_unat_eq_iff)
  with r p finished known show ?thesis by (auto simp: ex_event_def)
qed

subsection \<open>Intake\<close>

text \<open>
  C31.  Intake publishes only what the rest of the system may rely on. When the request carries
  an event with three non-empty ids and one of the three statuses a terminal may report, it is
  sent; otherwise the call is refused as an invalid argument. The topic only grows by the record
  of such a request, keyed by the shelter of the event and with a payload that decodes to the
  event: by one record if the call is accepted, by none if it is refused, and by at most one if
  publishing fails.
\<close>

theorem intake_publishes_only_terminal_events:
  assumes "\<And>event. request = Some event \<Longrightarrow> decode_event X (encode_event X event) = Some event"
    and "producer_ok send"
    and "submit_bed_status X send topic request log = (x, log')"
  shows "\<exists>more. log' = log @ more \<and>
    (\<forall>r\<in>set more. rec_topic r = topic \<and> (\<exists>event. request = Some event \<and>
       decode_event X (rec_payload r) = Some event \<and> rec_key r = ev_shelter_id event \<and>
       ev_event_id event \<noteq> [] \<and> ev_shelter_id event \<noteq> [] \<and> ev_bed_id event \<noteq> [] \<and>
       BedStatus_from_proto (event_status X (ev_status event)) \<in> {Available, Occupied, Maintenance} \<and>
       event_status X (ev_status event) \<noteq> BED_STATUS_UNSPECIFIED)) \<and>
    (case x of Inr _ \<Rightarrow> length more = 1
     | Inl (Invalid_argument_status _) \<Rightarrow> more = [] | Inl _ \<Rightarrow> length more \<le> 1) \<and>
    ((\<exists>msg. x = Inl (Invalid_argument_status msg)) \<longleftrightarrow> (\<forall>event. request = Some event \<longrightarrow>
       ev_event_id event = [] \<or> ev_shelter_id event = [] \<or> ev_bed_id event = [] \<or>
       event_status X (ev_status event) \<in> {BED_STATUS_UNSPECIFIED, Proto_RESERVED}))"
  using assms(3)
proof (cases rule: submit_bed_status_cases)
  case (rejected msg)
  then show ?thesis
    using terminal_status_iff by (intro exI [of _ "[]"]) (auto simp: intake_event_def)
next
  case (sent event r)
  let ?r = "\<lparr>rec_topic = topic, rec_key = ev_shelter_id event, rec_payload = encode_event X event\<rparr>"
  obtain more where more: "log' = log @ more" "more = [?r] \<or> more = [] \<and> isl r"
    using assms(2) sent(3) unfolding producer_ok_def by (cases r) fastforce+
  with sent show ?thesis
    using assms(1) terminal_status_iff [of "event_status X (ev_status event)"]
    by (intro exI [of _ more]) (auto simp: intake_event_def terminal_statuses_def split: sum.splits)
qed

definition ex_producer :: producer where
  "ex_producer r log = (Inr (), log @ [r])"

lemma ex_producer_ok: "producer_ok ex_producer"
  by (simp add: producer_ok_def ex_producer_def)

lemma ex_round_trip: "decode_event ex_externals (encode_event ex_externals (ex_event 3)) = Some (ex_event 3)"
  by (simp add: ex_externals_def ex_event_def)

theorem intake_publishes_only_terminal_events_witness:
  "length (snd (submit_bed_status ex_externals ex_producer ''bed-events'' (Some (ex_event 3)) [])) \<le> 1"
proof -
  have "decode_event ex_externals (encode_event ex_externals event) = Some event"
    if "Some (ex_event 3) = Some event" for event
    using that ex_round_trip by auto
  moreover obtain x log' where r: "submit_bed_status ex_externals ex_producer ''bed-events''
      (Some (ex_event 3)) [] = (x, log')" by fastforce
  ultimately obtain more where "log' = [] @ more" "case x of Inr _ \<Rightarrow> length more = 1
     | Inl (Invalid_argument_status _) \<Rightarrow> more = [] | Inl _ \<Rightarrow> length more \<le> 1"
    using intake_publishes_only_terminal_events [OF _ ex_producer_ok] by blast
  with r show ?thesis by (simp split: sum.splits grpc_status.splits)
qed

text \<open>
  C32.  Intake protects the bookings. Take any requests to intake, well-formed or not, and any
  outcomes of their publishing: a consumer that receives payloads of the records that this has
  left in the topic, in any order and any number of times, keeps the invariant, whatever faults
  it meets and however other sessions run between its transactions as long as they, too, apply
  only the statuses a terminal may report. So when it has come through what it received, a bed
  is reserved exactly if an active reservation backs it, and a checked-in reservation is for an
  occupied bed.
\<close>

theorem intake_protects_the_bookings:
  assumes "\<forall>(send, request)\<in>set calls. producer_ok send \<and>
      (\<forall>event. request = Some event \<longrightarrow> decode_event X (encode_event X event) = Some event)"
    and "\<forall>msg\<in>set (messages received). \<forall>payload. msg_payload msg = Some payload \<longrightarrow>
      payload \<in> rec_payload ` set (intake_log X topic calls [])"
    and "fair_script terminal_statuses s" and "terminal_inv (pool (app c))"
    and "run_consumer X s commit_ok received c = Some (Inr c')"
  shows "terminal_inv (pool (app c')) \<and>
    (\<forall>b\<in>set (beds (pool (app c'))).
      (b_status b = ''reserved'' \<longleftrightarrow>
        (\<exists>v\<in>set (reservations (pool (app c'))). v_status v = ''active'' \<and> v_bed_id v = b_id b)) \<and>
      (\<forall>v\<in>set (reservations (pool (app c'))). v_status v = ''checked_in'' \<longrightarrow> v_bed_id v = b_id b \<longrightarrow>
        b_status b = ''occupied''))"
proof -
  have "\<forall>r\<in>set (intake_log X topic calls []). intake_record X topic r"
    by (rule intake_log_records [OF assms(1)]) simp
  with assms(2) have "\<forall>msg\<in>set (messages received). \<forall>payload. msg_payload msg = Some payload \<longrightarrow>
      (\<exists>r. intake_record X topic r \<and> payload = rec_payload r)" by blast
  from run_consumer_terminal_inv [OF this assms(3-5)] terminal_inv_backed show ?thesis by blast
qed

theorem intake_protects_the_bookings_witness:
  "\<exists>c'. run_consumer ex_externals ex_script (\<lambda>_. True) [Inl (), Inr ex_message] ex_consumer =
      Some (Inr c') \<and> terminal_inv (pool (app c'))"
proof -
  obtain c' where r: "run_consumer ex_externals ex_script (\<lambda>_. True) [Inl (), Inr ex_message] ex_consumer
      = Some (Inr c')" using ex_consumer_run by blast
  have log: "intake_log ex_externals ''bed-events'' [(ex_producer, None), (ex_producer, Some (ex_event 3))] [] =
      [\<lparr>rec_topic = ''bed-events'', rec_key = replicate 2 (CHR ''x''), rec_payload = [1]\<rparr>]"
    by (simp add: submit_bed_status_def ex_producer_def ex_externals_def ex_event_def)
  have calls: "\<forall>(send, request)\<in>set [(ex_producer, None), (ex_producer, Some (ex_event 3))]. producer_ok send \<and>
      (\<forall>event. request = Some event \<longrightarrow> decode_event ex_externals (encode_event ex_externals event) = Some event)"
    using ex_producer_ok ex_round_trip by auto
  have payloads: "\<forall>msg\<in>set (messages [Inl (), Inr ex_message]). \<forall>payload. msg_payload msg = Some payload \<longrightarrow>
      payload \<in> rec_payload ` set (intake_log ex_externals ''bed-events''
        [(ex_producer, None), (ex_producer, Some (ex_event 3))] [])"
    unfolding log by (simp add: ex_message_def)
  have "terminal_inv (pool (app ex_consumer))" using ex_inv(5) by (simp add: ex_consumer_def)
  from intake_protects_the_bookings [OF calls payloads ex_script_fair this r] r
  show ?thesis by blast
qed

subsection \<open>Codecs and startup\<close>

text \<open>
  C35.  The text and protobuf codecs of the domain enumerations: decoding a text gives a value
  exactly if the text is the encoding of that value, every other text is an error that carries
  it, and a value survives the round trip through its protobuf counterpart.
\<close>

theorem codecs_round_trip:
  "(UnitType_from_db_str s = Inr u \<longleftrightarrow> s = UnitType_as_db_str u) \<and>
   (BedStatus_from_db_str s = Inr b \<longleftrightarrow> s = BedStatus_as_db_str b) \<and>
   (ReferralStatus_from_db_str s = Inr r \<longleftrightarrow> s = ReferralStatus_as_db_str r) \<and>
   UnitType_from_db_str s \<in> insert (Inl (InvalidEnumValue (''unit_type='' @ s))) (range Inr) \<and>
   BedStatus_from_db_str s \<in> insert (Inl (InvalidEnumValue (''bed_status='' @ s))) (range Inr) \<and>
   ReferralStatus_from_db_str s \<in> insert (Inl (InvalidEnumValue (''referral_status='' @ s))) (range Inr) \<and>
   UnitType_from_proto (UnitType_to_proto u) = u \<and> BedStatus_from_proto (BedStatus_to_proto b) = b"
proof (intro conjI)
  show "UnitType_from_db_str s \<in> insert (Inl (InvalidEnumValue (''unit_type='' @ s))) (range Inr)"
    using unit_codec.of_str_total [of s] by blast
  show "BedStatus_from_db_str s \<in> insert (Inl (InvalidEnumValue (''bed_status='' @ s))) (range Inr)"
    using bed_status_codec.of_str_total [of s] by blast
  show "ReferralStatus_from_db_str s \<in> insert (Inl (InvalidEnumValue (''referral_status='' @ s))) (range Inr)"
    using referral_status_codec.of_str_total [of s] by blast
  show "UnitType_from_proto (UnitType_to_proto u) = u" by (cases u) simp_all
  show "BedStatus_from_proto (BedStatus_to_proto b) = b" by (cases b) simp_all
qed (rule unit_codec.of_str_Inr bed_status_codec.of_str_Inr referral_status_codec.of_str_Inr)+

text \<open>
  Connecting to the database ends: with a clock that advances by at least the pause of
  half a second between attempts, at most 121 attempts are made, the answer is that of the last
  attempt, all earlier ones failed, and an error is returned only after the budget of one minute.
\<close>

theorem connecting_respects_the_budget:
  assumes "clock_ok start CONNECT_RETRY_INTERVAL now"
  shows "\<exists>n\<in>{1..121}. connect_with_retry connect start now = Some (connect n) \<and>
    (\<forall>j\<in>{1..<n}. isl (connect j)) \<and> (isl (connect n) \<longrightarrow> start + 60000 \<le> now n)"
proof -
  obtain n where "n \<in> {1..121}" "retry_until connect now (start + 60000) 1 = Some (connect n)"
    "\<not> isl (connect n) \<or> start + 60000 \<le> now n" "\<forall>j\<in>{1..<n}. isl (connect j)"
    by (rule retry_within_budget [OF assms [unfolded budget_defs]])
  then show ?thesis
    by (intro bexI [of _ n]) (auto simp: connect_with_retry_def budget_defs)
qed

theorem connecting_respects_the_budget_witness:
  "connect_with_retry (\<lambda>k. if k < 3 then Inl Io_error else Inr ()) 0 (\<lambda>k. 500 * k) = Some (Inr ())"
proof -
  have "clock_ok 0 CONNECT_RETRY_INTERVAL (\<lambda>k. 500 * k)"
    by (simp add: clock_ok_def CONNECT_RETRY_INTERVAL_def)
  from connecting_respects_the_budget [OF this, of "\<lambda>k. if k < 3 then Inl Io_error else Inr ()"]
  show ?thesis by (auto split: if_splits)
qed

text \<open>
  Subscribing to the topic ends within the same bounds, and what it returns is a client that
  was both created and subscribed.
\<close>

theorem subscribing_respects_the_budget:
  assumes "clock_ok start KAFKA_CONNECT_RETRY_INTERVAL now"
  shows "\<exists>n\<in>{1..121}. \<exists>r. subscribe_with_retry create subscribe start now = Some r \<and>
    (case r of
       Inr c \<Rightarrow> create n = Inr c \<and> isl (subscribe n c) = False
     | Inl e \<Rightarrow> start + 60000 \<le> now n \<and>
         (create n = Inl e \<or> (\<exists>c. create n = Inr c \<and> subscribe n c = Inl e)))"
proof -
  let ?go = "\<lambda>k. case create k of Inl err \<Rightarrow> Inl err
    | Inr consumer \<Rightarrow> (case subscribe k consumer of Inl err \<Rightarrow> Inl err | Inr _ \<Rightarrow> Inr consumer)"
  obtain n where n: "n \<in> {1..121}" "retry_until ?go now (start + 60000) 1 = Some (?go n)"
    "\<not> isl (?go n) \<or> start + 60000 \<le> now n"
    by (rule retry_within_budget [OF assms [unfolded budget_defs], where attempt_at = ?go])
  have "case ?go n of
       Inr c \<Rightarrow> create n = Inr c \<and> isl (subscribe n c) = False
     | Inl e \<Rightarrow> start + 60000 \<le> now n \<and>
         (create n = Inl e \<or> (\<exists>c. create n = Inr c \<and> subscribe n c = Inl e))"
    using n(3) by (auto split: sum.splits)
  with n show ?thesis
    by (intro bexI [of _ n] exI [of _ "?go n"]) (simp_all add: subscribe_with_retry_def budget_defs)
qed

theorem subscribing_respects_the_budget_witness:
  "\<exists>c>1. subscribe_with_retry (\<lambda>k. Inr k) (\<lambda>k c. if k < 2 then Inl ''down'' else Inr ()) 0
     (\<lambda>k. 500 * k) = Some (Inr c)"
proof -
  have "clock_ok 0 KAFKA_CONNECT_RETRY_INTERVAL (\<lambda>k. 500 * k)"
    by (simp add: clock_ok_def KAFKA_CONNECT_RETRY_INTERVAL_def)
  from subscribing_respects_the_budget [OF this, of "\<lambda>k. Inr k"
      "\<lambda>k c. if k < 2 then Inl ''down'' else Inr ()"]
  show ?thesis
  proof (elim bexE exE conjE)
    fix n :: nat and r
    assume "subscribe_with_retry (\<lambda>k. Inr k) (\<lambda>k c. if k < 2 then Inl ''down'' else Inr ()) 0
        (\<lambda>k. 500 * k) = Some r"
      "case r of Inr c \<Rightarrow> Inr n = Inr c \<and> isl (if n < 2 then Inl ''down'' else Inr ()) = False
       | Inl e \<Rightarrow> 0 + 60000 \<le> 500 * n \<and>
         (Inr n = Inl e \<or> (\<exists>c. Inr n = Inr c \<and> (if n < 2 then Inl ''down'' else Inr ()) = Inl e))"
    then show ?thesis by (cases r) (auto split: if_splits)
  qed
qed

subsection \<open>The simulator\<close>

text \<open>
  The latency summary: for fewer than \<open>2 ^ 32\<close> samples of at most \<open>2 ^ 31\<close> milliseconds each,
  no addition, multiplication or index is out of range; the count and the sum are exact, the
  median, the 99th percentile and the maximum are samples in this order, more than half of the
  samples are at most the median, more than 99 percent at most the 99th percentile, and all at
  most the maximum.
\<close>

theorem latency_summary_is_correct:
  assumes "xs \<noteq> []" and "length xs < 2 ^ 32" and "\<forall>x\<in>set xs. \<bar>sint x\<bar> \<le> 2 ^ 31"
  shows "\<exists>m. print_summary xs = Inr (Some m) \<and>
    unat (sum_count m) = length xs \<and> sint (sum_total_ms m) = sum_list (map sint xs) \<and>
    {sum_p50_ms m, sum_p99_ms m, sum_max_ms m} \<subseteq> set xs \<and>
    sint (sum_p50_ms m) \<le> sint (sum_p99_ms m) \<and> sint (sum_p99_ms m) \<le> sint (sum_max_ms m) \<and>
    length xs < 2 * length (filter (\<lambda>x. sint x \<le> sint (sum_p50_ms m)) xs) \<and>
    99 * length xs < 100 * length (filter (\<lambda>x. sint x \<le> sint (sum_p99_ms m)) xs) \<and>
    (\<forall>x\<in>set xs. sint x \<le> sint (sum_max_ms m))"
proof -
  let ?ys = "sort_key sint xs" and ?n = "length xs"
  have pos: "0 < ?n" using assms(1) by simp
  have "\<bar>sint (0 :: i64)\<bar> + 2 ^ 31 * int (length ?ys) < 2 ^ 63"
    using assms(2) by simp
  then obtain t where t: "sum_i64 0 ?ys = Inr t"
    using sum_i64_small [of ?ys "2 ^ 31" 0] assms(3) by auto
  have total: "sint t = sum_list (map sint xs)"
    using sum_i64_Inr [OF t] by (simp flip: sum_mset_sum_list add: mset_map)
  have small: "99 * ?n < 2 ^ 64" using assms(2) by simp
  note eq = print_summary_eq [OF assms(1) small t]
  have i: "?n div 2 < ?n" "99 * ?n div 100 < ?n" using pos by linarith+
  have "?ys \<noteq> []" using assms(1) by (metis set_empty set_sort)
  then have last: "last ?ys = ?ys ! (?n - 1)" by (simp add: last_conv_nth)
  have mem: "?ys ! k \<in> set xs" if "k < ?n" for k
    using that nth_mem [of k ?ys] by simp
  have mono: "sint (?ys ! j) \<le> sint (?ys ! k)" if "j \<le> k" "k < ?n" for j k
    using sorted_nth_mono [of "map sint ?ys" j k] that by simp
  have max: "sint x \<le> sint (?ys ! (?n - 1))" if "x \<in> set xs" for x
  proof -
    have "x \<in> set ?ys" using that by simp
    then obtain j where "j < length ?ys" "x = ?ys ! j" by (metis in_set_conv_nth)
    then show ?thesis using mono [of j "?n - 1"] pos by simp
  qed
  have "?n < 2 * length (filter (\<lambda>x. sint x \<le> sint (?ys ! (?n div 2))) xs)"
    using sort_rank [OF i(1), of sint] by linarith
  moreover have "99 * ?n < 100 * length (filter (\<lambda>x. sint x \<le> sint (?ys ! (99 * ?n div 100))) xs)"
    using sort_rank [OF i(2), of sint] by linarith
  moreover have "?n div 2 \<le> 99 * ?n div 100" by linarith
  ultimately show ?thesis
    unfolding eq last
    using total mem i pos mono [of "?n div 2" "99 * ?n div 100"] mono [of "99 * ?n div 100" "?n - 1"]
      max small by (auto simp: unat_of_nat_usize)
qed

theorem latency_summary_is_correct_witness:
  "\<exists>m. print_summary [30, 10, 20] = Inr (Some m) \<and> (\<forall>x\<in>{30, 10, 20 :: i64}. sint x \<le> sint (sum_max_ms m))"
  using latency_summary_is_correct [of "[30, 10, 20]"] by auto

text \<open>
  What the listener records: as long as it does not stop by an overflow, one sample for
  each update up to the first other message, the exact difference between the clock on receipt
  and the time of the event.
\<close>

theorem listener_records_latencies:
  assumes "read_stream stream samples = ((e, again), samples')" and "\<forall>p. e \<noteq> Listener_panicked p"
  shows "map sint samples' = map sint samples @
    map (\<lambda>(t, m). case m of Update u \<Rightarrow> sint t - sint (up_event_timestamp_ms u) | _ \<Rightarrow> 0)
      (takeWhile (\<lambda>(t, m). \<exists>u. m = Update u) stream)"
  using assms
proof (induction stream samples rule: read_stream.induct)
  case (2 t u rest samples)
  obtain l where l: "sub_i64 t (up_event_timestamp_ms u) = Inr l"
    using 2(2,3) by (auto split: sum.splits)
  with 2 sub_i64_Inr [OF l] show ?case by (simp add: record_latency_def)
qed auto

theorem listener_records_latencies_witness:
  "map sint (snd (read_stream [(5, Stream_closed)] [1])) = [1]"
proof -
  have r: "read_stream [(5, Stream_closed)] [1] = ((Finished, False), [1])" by simp
  from listener_records_latencies [OF r] show ?thesis by simp
qed

text \<open>
  Seeding is a sequence of ordinary insertions, so it keeps the invariants whatever else
  runs and wherever it fails; when it succeeds every shelter has its number of beds in the answer, the
  beds of shelter number \<open>i\<close> are in region \<open>i mod 3\<close>, and every bed in the answer is in the
  database, in a shelter of the region that the answer gives.
\<close>

theorem seeding_creates_the_beds:
  assumes "fair_script terminal_statuses s" and "terminal_inv (pool st)"
    and "seed s m n draw st = (x, st')"
  shows "terminal_inv (pool st') \<and>
    (\<forall>out. x = Inr out \<longrightarrow>
       map sb_region out = concat (map (\<lambda>i. replicate (unat n)
         ([''north-metro'', ''south-metro'', ''east-county''] ! (i mod 3))) [0..<unat m]) \<and>
       (\<forall>sb\<in>set out. \<exists>b\<in>set (beds (pool st')). \<exists>sh\<in>set (shelters (pool st')).
          b_id b = sb_id sb \<and> b_shelter_id b = sb_shelter_id sb \<and>
          s_id sh = sb_shelter_id sb \<and> s_region sh = sb_region sb))"
proof -
  have "terminal_inv (pool st')"
    using seed_by_program [OF assms(3)] assms(1,2) terminal.steps unfolding by_program_def by blast
  moreover note seed_result [OF assms(1), of m n draw st _ st'] assms(3)
  ultimately show ?thesis unfolding seeded_in_def REGIONS_def by blast
qed

theorem seeding_creates_the_beds_witness:
  "terminal_inv (pool (snd (seed ex_script 12 8
     (\<lambda>i j. \<lparr>draw_unit = 0, draw_pets = 0, draw_sobriety = 0, draw_ada = 0, draw_occupied = 0\<rparr>)
     (ex_state empty_db))))"
proof -
  let ?draw = "\<lambda>i j. \<lparr>draw_unit = 0, draw_pets = 0, draw_sobriety = 0, draw_ada = 0, draw_occupied = 0\<rparr>"
  obtain x st' where r: "seed ex_script 12 8 ?draw (ex_state empty_db) = (x, st')" by fastforce
  have "terminal_inv (pool (ex_state empty_db))" by (simp add: empty_db_inv)
  from seeding_creates_the_beds [OF ex_script_fair this r] r show ?thesis by simp
qed

text \<open>
  A simulated terminal reports for its own bed with sequence numbers 1, 2, 3 and so on,
  alternating between available and occupied and starting with available; intake accepts each of
  these events and the consumer reads back the ids it was sent with.
\<close>

theorem terminals_report_in_sequence:
  assumes "externals_ok X" and "length ticks < 2 ^ 63"
  shows "\<exists>events. terminal_run X bed ticks terminal_start = Inr events \<and>
    length events = length ticks \<and>
    (\<forall>k<length ticks. sint (ev_sequence (events ! k)) = int k + 1 \<and>
       event_status X (ev_status (events ! k)) = (if even k then Proto_AVAILABLE else Proto_OCCUPIED) \<and>
       intake_event X (events ! k) \<and>
       parse_ids X (events ! k) = Some (fst (ticks ! k), sb_id bed))"
proof -
  have "sint (terminal_sequence terminal_start) + int (length ticks) < 2 ^ 63"
    using assms(2) by (simp add: terminal_start_def)
  then obtain events where e: "terminal_run X bed ticks terminal_start = Inr events"
    "length events = length ticks"
    "\<forall>k<length ticks. terminal_event X bed terminal_start k (ticks ! k) (events ! k)"
    using terminal_run_events by blast
  have "sint (ev_sequence (events ! k)) = int k + 1 \<and>
      event_status X (ev_status (events ! k)) = (if even k then Proto_AVAILABLE else Proto_OCCUPIED)"
    if "k < length ticks" for k
  proof -
    have "event_status X (proto_BedStatus_as_i32 st) = st" for st
      using assms(1) by (simp add: externals_ok_def)
    with e(3) that show ?thesis by (simp add: terminal_event_def terminal_start_def)
  qed
  with e terminal_event_intake [OF assms(1)] show ?thesis by blast
qed

theorem terminals_report_in_sequence_witness:
  "\<exists>events. terminal_run ex_externals \<lparr>sb_id = 1, sb_shelter_id = 1, sb_region = ''north-metro''\<rparr>
      [(21, 0), (22, 0)] terminal_start = Inr events \<and> length events = 2"
  using terminals_report_in_sequence [OF ex_externals_ok, of "[(21, 0), (22, 0)]"
      "\<lparr>sb_id = 1, sb_shelter_id = 1, sb_region = ''north-metro''\<rparr>"] by auto

text \<open>
  The counters of the simulated caseworkers: nothing is submitted when there is no region;
  otherwise the first counter is the number of rounds and the second is never above it.
\<close>

theorem caseworker_counts:
  assumes "length draws < 2 ^ 64"
    and "set (listing (set (map sb_region seeded))) = set (map sb_region seeded)"
    and "referrals_run listing submit seeded draws w = (counts, w')"
  shows "(seeded = [] \<longrightarrow> counts = Inr None \<and> w' = w) \<and>
    (seeded \<noteq> [] \<longrightarrow> (\<exists>submitted matched. counts = Inr (Some (submitted, matched)) \<and>
       unat submitted = length draws \<and> unat matched \<le> unat submitted))"
proof (cases "seeded = []")
  case True
  with assms(2,3) show ?thesis by (simp add: referrals_run_def Let_def)
next
  case False
  with assms(2) have ne: "listing (set (map sb_region seeded)) \<noteq> []" by force
  obtain sub mat w1 where r: "referral_rounds submit (listing (set (map sb_region seeded))) draws 0 0 w
      = (Inr (sub, mat), w1)" "unat sub = length draws" "unat mat \<le> unat sub"
    using referral_rounds_counts [of 0 draws 0 submit "listing (set (map sb_region seeded))" w] assms(1)
    by auto
  with ne assms(3) have "counts = Inr (Some (sub, mat))" by (simp add: referrals_run_def Let_def)
  with r(2,3) False show ?thesis by simp
qed

definition ex_draw :: referral_draw where
  "ex_draw = \<lparr>draw_region = 0, draw_unit_type = 0, draw_family_size = 1, draw_needs_pets = 50,
     draw_needs_sobriety = 50, draw_needs_ada = 50, draw_vulnerability = 70\<rparr>"

theorem caseworker_counts_witness:
  "\<exists>submitted matched. fst (referrals_run (\<lambda>_. [''north-metro''])
      (\<lambda>req w. (Inl (Internal_status ''down''), w))
      [\<lparr>sb_id = 1, sb_shelter_id = 1, sb_region = ''north-metro''\<rparr>] [ex_draw] ()) =
    Inr (Some (submitted, matched)) \<and> unat submitted = 1"
proof -
  let ?run = "referrals_run (\<lambda>_. [''north-metro'']) (\<lambda>req w. (Inl (Internal_status ''down''), w))
      [\<lparr>sb_id = 1, sb_shelter_id = 1, sb_region = ''north-metro''\<rparr>] [ex_draw] ()"
  have r: "?run = (fst ?run, snd ?run)" by (rule surjective_pairing)
  from caseworker_counts [OF _ _ r] show ?thesis by auto
qed

end
