(* ===== verification/Gaps.thy ===== *)
theory Gaps
  imports Service_Properties
begin

section \<open>Behaviour that falls short of the documentation\<close>

text \<open>
  What the model shows about four situations in which the code does not do what its comments or
  the README promise.  Each property states what the code does.
\<close>

text \<open>
  C36.  A check-out puts the client who leaves back in line.  When a bed that a client has
  occupied becomes available, the referral of that client is pending again and waits for this
  very bed, so that it wins the bed unless somebody of at least the same priority waits.
\<close>

theorem check_out_puts_the_client_back_in_line:
  assumes "booking_inv d" and "v \<in> set (reservations d)" and "v_status v = ''checked_in''"
    and "apply_tx e (v_bed_id v) Available sq now d = (Inr (Applied sh av), d')"
    and "i \<notin> v_id ` set (reservations d')"
  shows "\<exists>b\<in>set (beds d'). \<exists>r. b_id b = v_bed_id v \<and> b_status b = ''available'' \<and>
    r_id r = v_referral_id v \<and> waiting d' b r \<and>
    ((\<forall>q. waiting d' b q \<longrightarrow> q \<noteq> r \<longrightarrow> \<not> order_key q \<le> order_key r) \<longrightarrow>
       (\<exists>d''. allocate_tx (\<lambda>_. False) i now' (v_bed_id v) d' =
         (Inr (Some \<lparr>bed_id = v_bed_id v, shelter_id = b_shelter_id b,
                    referral_id = v_referral_id v\<rparr>), d'')))"
  using assms(4)
proof (cases rule: apply_tx_cases)
  case (applied c)
  have inv: "booking_inv d'" by (rule apply_tx_booking_inv [OF assms(1,4)])
  have live: "is_live v" using assms(3) by (simp add: is_live_def)
  have "releasing Available" by (simp add: releasing_def)
  from released_waits [OF assms(1) this assms(2) live refl, of e sq now, folded applied(7)]
  obtain b r where b: "b \<in> set (beds d')" "b_id b = v_bed_id v"
    "b_status b = BedStatus_as_db_str Available" "waiting d' b r" "r_id r = v_referral_id v" .
  then have av: "b_status b = ''available''" by simp
  obtain p where p: "waiting d' b p"
    "\<forall>q. waiting d' b q \<longrightarrow> \<not> (\<lambda>_. False) (r_id q) \<longrightarrow> order_key p \<le> order_key q"
    "allocate_tx (\<lambda>_. False) i now' (b_id b) d' =
      (Inr (Some \<lparr>bed_id = b_id b, shelter_id = b_shelter_id b, referral_id = r_id p\<rparr>),
       award (new_reservation i (b_id b) (r_id p) now') d')"
    using allocate_tx_awards [where locked = "\<lambda>_. False" and now = now', OF inv assms(5) b(1) av b(4)]
    by blast
  have "p = r" if "\<forall>q. waiting d' b q \<longrightarrow> q \<noteq> r \<longrightarrow> \<not> order_key q \<le> order_key r"
    using that p(1,2) b(4) by blast
  with p(3) b av show ?thesis by (intro bexI [of _ b] exI [of _ r]) auto
qed simp_all

theorem check_out_puts_the_client_back_in_line_witness:
  "\<exists>b\<in>set (beds ex_out). \<exists>r. b_id b = 1 \<and> b_status b = ''available'' \<and> r_id r = 2 \<and> waiting ex_out b r"
proof -
  let ?v = "\<lparr>v_id = 7, v_bed_id = 1, v_referral_id = 2, v_reserved_at = 9, v_status = ''checked_in''\<rparr>"
  have v: "?v \<in> set (reservations ex_in)" "v_status ?v = ''checked_in''" by (simp_all add: ex_db_def)
  have o: "apply_tx 12 (v_bed_id ?v) Available 2 9 ex_in = (Inr (Applied 1 True), ex_out)"
    using ex_check_out by simp
  have "8 \<notin> v_id ` set (reservations ex_out)" by (simp add: ex_db_def)
  from check_out_puts_the_client_back_in_line [OF ex_inv(3) v o this, of 9] show ?thesis
    by simp blast
qed

text \<open>Reading transactions of a session that runs alone leave the database alone.\<close>

lemma exec_read_pool:
  assumes "alone s" and "\<And>m d. snd (q m d) = d" and "exec s q st = (r, st')"
  shows "pool st' = pool st"
proof -
  obtain x d where q: "q (s (pos st)) (pool st) = (x, d)" by fastforce
  with assms(2) [of "s (pos st)" "pool st"] have "d = pool st" by simp
  with assms(3) q show ?thesis by (auto simp: exec_alone [OF assms(1)])
qed

lemma read_txs_pool:
  "snd (region_of_shelter_tx sh d) = d" "snd (available_count_tx rg d) = d"
  by (simp_all add: region_of_shelter_tx_def available_count_tx_def lift_sqlx_def split: sum.split)

lemma publish_alone_pool:
  assumes "alone s"
  shows "pool (publish_bed_update X s sh b ns ts st) = pool st"
proof -
  obtain r1 st1 where 1: "region_of_shelter s sh st = (r1, st1)" by fastforce
  have p1: "pool st1 = pool st"
    by (rule exec_read_pool [OF assms _ 1 [unfolded region_of_shelter_def]]) (rule read_txs_pool)
  show ?thesis
  proof (cases r1)
    case (Inl e)
    with 1 p1 show ?thesis by (simp add: publish_bed_update_def)
  next
    case (Inr rg)
    obtain r2 st2 where 2: "available_count_in_region s rg st1 = (r2, st2)" by fastforce
    have "pool st2 = pool st1"
      by (rule exec_read_pool [OF assms _ 2 [unfolded available_count_in_region_def]])
         (rule read_txs_pool)
    with p1 show ?thesis by (cases r2) (simp_all add: publish_bed_update_def 1 2 Inr)
  qed
qed

text \<open>
  C38.  A client who loses a reserved or occupied bed to maintenance is not tried against the
  other free beds: after the consumer has dealt with the event completely, with nobody else
  running, the client waits although an available bed suits, and that bed is still available.
\<close>

theorem maintenance_strands_the_client:
  assumes alone: "alone s" and inv: "booking_inv (pool st)"
    and v: "v \<in> set (reservations (pool st))" "is_live v"
    and fresh: "e \<notin> e_event_id ` set (applied_events (pool st))"
    and b: "b \<in> set (beds (pool st))" "b_id b = v_bed_id v"
      "sint (b_last_event_sequence b) < sint (ev_sequence ev)"
    and c: "c \<in> set (beds (pool st))" "b_status c = ''available''" "b_id c \<noteq> b_id b"
    and r: "r \<in> set (referrals (pool st))" "r_id r = v_referral_id v"
    and sh: "sh \<in> set (shelters (pool st))" "s_id sh = b_shelter_id c" "suits c (s_region sh) r"
  shows "\<exists>st'. apply_and_notify X s e (v_bed_id v) Maintenance ev st = (Inr (), st') \<and>
    c \<in> set (beds (pool st')) \<and> (\<exists>q. r_id q = v_referral_id v \<and> waiting (pool st') c q)"
proof -
  let ?bed = "v_bed_id v" and ?now = "mv_now (s (pos st))"
  let ?d = "applied_db e ?bed Maintenance (ev_sequence ev) ?now (pool st)"
  note ok = booking_inv_parts(1) [OF inv]
  obtain res d' where tx: "apply_tx e ?bed Maintenance (ev_sequence ev) ?now (pool st) = (res, d')"
    by fastforce
  have one: "x = b" if "fetch_optional (filter (\<lambda>x. b_id x = ?bed) (beds (pool st))) = Some x" for x
    using bed_by_id [OF ok b(1)] b(2) that by simp
  from tx have applied: "d' = ?d \<and> (\<exists>sh av. res = Inr (Applied sh av))"
  proof (cases rule: apply_tx_cases)
    case (stale x)
    with one [OF stale(2)] b(3) show ?thesis by simp
  qed (use fresh b(1,2) in auto)
  then obtain shl av where res: "res = Inr (Applied shl av)" by blast
  let ?st1 = "st\<lparr>pool := ?d, pos := Suc (pos st)\<rparr>"
  have a: "apply_bed_status_event s e ?bed Maintenance (ev_sequence ev) st = (Inr (Applied shl av), ?st1)"
    using tx applied res by (simp add: apply_bed_status_event_def exec_alone [OF alone])
  let ?b = "b\<lparr>b_status := ''maintenance'', b_last_event_sequence := ev_sequence ev\<rparr>"
  have okd: "schema_ok ?d"
    using apply_tx_booking_inv [OF inv] tx applied res booking_inv_parts(1) by blast
  have bd: "?b \<in> set (beds ?d)"
    unfolding applied_db_tables in_update_where using b(1,2) by (intro bexI [of _ b]) simp_all
  then have "allocate_tx locked i now ?bed ?d = (Inr None, ?d)" for locked i now
    using allocate_tx_early(2) [OF bed_by_id [OF okd bd]] b(2) by simp
  then have al: "allocate_for_bed s ?bed ?st1 = (Inr None, ?st1\<lparr>pos := Suc (pos ?st1)\<rparr>)"
    by (simp add: allocate_for_bed_def exec_alone [OF alone])
  let ?st' = "publish_bed_update X s shl ?bed Maintenance (ev_occurred_at_ms ev)
    (?st1\<lparr>pos := Suc (pos ?st1)\<rparr>)"
  have run: "apply_and_notify X s e ?bed Maintenance ev st = (Inr (), ?st')"
    by (simp add: apply_and_notify_def a allocate_and_notify_def al)
  have pool: "pool ?st' = ?d" by (simp add: publish_alone_pool [OF alone])
  have cd: "c \<in> set (beds ?d)"
    unfolding applied_db_tables in_update_where using c(1,3) b(2) by (intro bexI [of _ c]) simp_all
  let ?r = "r\<lparr>r_status := ''pending''\<rparr>"
  have "releasing Maintenance" by (simp add: releasing_def)
  note after = referrals_after_releasing [OF inv this v refl]
  have "?r \<in> set (referrals ?d)"
    unfolding applied_db_tables after in_update_where using r by (intro bexI [of _ r]) simp_all
  moreover have "suits c (s_region sh) ?r" using sh(3) by (simp add: suits_def)
  ultimately have "waiting ?d c ?r" using sh(1,2) by (auto simp: waiting_def applied_db_tables)
  then show ?thesis using run pool cd r(2) by (intro exI [of _ ?st'] conjI exI [of _ ?r]) simp_all
qed

definition ex_spare :: bed_row where
  "ex_spare = (ex_bed ''available'' 0)\<lparr>b_id := 2\<rparr>"

definition ex_two :: db where
  "ex_two = ex_won\<lparr>beds := beds ex_won @ [ex_spare]\<rparr>"

lemma ex_two_inv: "booking_inv ex_two"
proof -
  have "db_step UNIV ex_won ex_two"
    by (rule db_step.bed [of ex_spare])
       (simp_all add: insert_bed_row_def ex_two_def ex_spare_def ex_defs bed_check_def
         unit_type_check_def bed_status_check_def)
  from booking.reachable_holds [OF reachable_step [OF ex_won_reachable this]] show ?thesis .
qed

theorem maintenance_strands_the_client_witness:
  "\<exists>st'. apply_and_notify ex_externals ex_script 11 1 Maintenance (ex_event 4) (ex_state ex_two) =
      (Inr (), st') \<and> ex_spare \<in> set (beds (pool st')) \<and> b_status ex_spare = ''available'' \<and>
      (\<exists>q. r_id q = 2 \<and> waiting (pool st') ex_spare q)"
proof -
  let ?v = "\<lparr>v_id = 7, v_bed_id = 1, v_referral_id = 2, v_reserved_at = 9, v_status = ''active''\<rparr>"
  let ?b = "ex_bed ''reserved'' 0" and ?r = "ex_referral 2 90 5 ''matched''" and ?st = "ex_state ex_two"
  have inv: "booking_inv (pool ?st)" by (simp add: ex_two_inv)
  have v: "?v \<in> set (reservations (pool ?st))" "is_live ?v"
    by (simp_all add: ex_two_def ex_db_def is_live_def)
  have "\<exists>st'. apply_and_notify ex_externals ex_script 11 (v_bed_id ?v) Maintenance (ex_event 4) ?st =
      (Inr (), st') \<and> ex_spare \<in> set (beds (pool st')) \<and>
      (\<exists>q. r_id q = v_referral_id ?v \<and> waiting (pool st') ex_spare q)"
  proof (rule maintenance_strands_the_client [OF ex_script_alone inv v])
    show "?b \<in> set (beds (pool ?st))" "ex_spare \<in> set (beds (pool ?st))"
      "?r \<in> set (referrals (pool ?st))" "ex_shelter \<in> set (shelters (pool ?st))"
      by (simp_all add: ex_two_def ex_db_def)
    show "suits ex_spare (s_region ex_shelter) ?r"
      by (simp add: suits_def ex_spare_def ex_defs)
  qed (simp_all add: ex_two_def ex_spare_def ex_defs ex_event_def)
  then show ?thesis by (simp add: ex_spare_def ex_bed_def)
qed

text \<open>
  The state of a session in which nobody else uses the database: the database and the position,
  and on the channel what the other tasks of the engine have sent since it started.
\<close>

definition session_at :: "script \<Rightarrow> AppState \<Rightarrow> db \<Rightarrow> nat \<Rightarrow> AppState" where
  "session_at s st d k = st\<lparr>pool := d,
     availability_tx := availability_tx st @ sent_by_others s (pos st) k, pos := k\<rparr>"

lemma session_at_sel [simp]:
  "pool (session_at s st d k) = d" "pos (session_at s st d k) = k"
  "availability_tx (session_at s st d k) = availability_tx st @ sent_by_others s (pos st) k"
  "session_at s st (pool st) (pos st) = st"
  by (simp_all add: session_at_def)

lemma session_at_exec:
  assumes "mv_interfere (s k) = id" and "mv_fault (s k) = None" and "pos st \<le> k" and "q (s k) d = (r, d')"
  shows "exec s q (session_at s st d k) = (r, session_at s st d' (Suc k))"
  using assms by (simp add: exec_def run_tx_def session_at_def sent_by_others_def)

lemma session_at_fails:
  assumes "mv_interfere (s k) = id" and "mv_fault (s k) = Some Statement_fails" and "pos st \<le> k"
  shows "exec s q (session_at s st d k) =
    (Inl (Failed (Database Io_error)), session_at s st d (Suc k))"
  using assms by (simp add: exec_def run_tx_def session_at_def sent_by_others_def)

text \<open>
  C39.  A notification can be lost for good. When the event commits and the connection fails in
  the allocation pass that follows, the retry finds a duplicate and publishes nothing: the bed
  is occupied in the database, one pause was taken, and the channel got only what other tasks
  sent.
\<close>

theorem retry_loses_the_notification:
  assumes alone: "\<forall>k. mv_interfere (s k) = id"
    and fault: "\<forall>k. mv_fault (s k) = (if k = Suc (pos st) then Some Statement_fails else None)"
    and ok: "schema_ok (pool st)" and fresh: "e \<notin> e_event_id ` set (applied_events (pool st))"
    and b: "b \<in> set (beds (pool st))" "b_id b = bed"
      "sint (b_last_event_sequence b) < sint (ev_sequence ev)"
  shows "\<exists>st'. retry X s e bed Occupied ev 0 [] st = Some (Inr [backoff_ms 1], st') \<and>
    availability_tx st' = availability_tx st @ sent_by_others s (pos st) (pos st') \<and>
    b\<lparr>b_status := ''occupied'', b_last_event_sequence := ev_sequence ev\<rparr> \<in> set (beds (pool st'))"
proof -
  let ?p = "pos st" and ?at = "session_at s st"
  let ?d = "applied_db e bed Occupied (ev_sequence ev) (mv_now (s ?p)) (pool st)"
  obtain res d' where tx:
    "apply_tx e bed Occupied (ev_sequence ev) (mv_now (s ?p)) (pool st) = (res, d')" by fastforce
  have one: "x = b" if "fetch_optional (filter (\<lambda>x. b_id x = bed) (beds (pool st))) = Some x" for x
    using bed_by_id [OF ok b(1)] b(2) that by simp
  from tx have applied: "d' = ?d \<and> (\<exists>sh av. res = Inr (Applied sh av))"
  proof (cases rule: apply_tx_cases)
    case (stale x)
    with one [OF stale(2)] b(3) show ?thesis by simp
  qed (use fresh b(1,2) in auto)
  then obtain shl av where res: "res = Inr (Applied shl av)" by blast
  have "apply_bed_status_event s e bed Occupied (ev_sequence ev) (?at (pool st) ?p) =
      (Inr (Applied shl av), ?at ?d (Suc ?p))"
    unfolding apply_bed_status_event_def
    by (rule session_at_exec) (use alone fault tx applied res in simp_all)
  then have a: "apply_bed_status_event s e bed Occupied (ev_sequence ev) st =
      (Inr (Applied shl av), ?at ?d (Suc ?p))" by simp
  have "allocate_for_bed s bed (?at ?d (Suc ?p)) =
      (Inl (Failed (Database Io_error)), ?at ?d (Suc (Suc ?p)))"
    unfolding allocate_for_bed_def by (rule session_at_fails) (use alone fault in simp_all)
  then have first: "apply_and_notify X s e bed Occupied ev st =
      (Inl (Failed (Database Io_error)), ?at ?d (Suc (Suc ?p)))"
    by (simp add: apply_and_notify_def a allocate_and_notify_def)
  have "apply_tx e bed Occupied sq now ?d = (Inr Duplicate, ?d)" for sq now
    by (simp add: apply_tx_def insert_applied_event_def applied_db_tables)
  then have a2: "apply_bed_status_event s e bed Occupied (ev_sequence ev) (?at ?d (Suc (Suc ?p))) =
      (Inr Duplicate, ?at ?d (Suc (Suc (Suc ?p))))"
    unfolding apply_bed_status_event_def by (intro session_at_exec) (use alone fault in simp_all)
  let ?b = "b\<lparr>b_status := ''occupied'', b_last_event_sequence := ev_sequence ev\<rparr>"
  have bd: "?b \<in> set (beds ?d)"
    unfolding applied_db_tables in_update_where using b(1,2) by (intro bexI [of _ b]) simp_all
  have "allocate_tx locked i now bed ?d = (Inr None, ?d)" for locked i now
    using allocate_tx_early(2) [OF bed_by_id [OF applied_db_schema_ok [OF ok fresh] bd]] b(2) by simp
  then have al: "allocate_for_bed s bed (?at ?d (Suc (Suc (Suc ?p)))) =
      (Inr None, ?at ?d (Suc (Suc (Suc (Suc ?p)))))"
    unfolding allocate_for_bed_def by (intro session_at_exec) (use alone fault in simp_all)
  have second: "apply_and_notify X s e bed Occupied ev (?at ?d (Suc (Suc ?p))) =
      (Inr (), ?at ?d (Suc (Suc (Suc (Suc ?p)))))"
    by (simp add: apply_and_notify_def a2 allocate_and_notify_def al)
  have "retry X s e bed Occupied ev 0 [] st =
      Some (Inr [backoff_ms 1], ?at ?d (Suc (Suc (Suc (Suc ?p)))))"
    by (simp add: retry.simps [of X s e bed Occupied ev 0] first
        retry.simps [of X s e bed Occupied ev 1] second)
  then show ?thesis using bd by (intro exI [of _ "?at ?d (Suc (Suc (Suc (Suc ?p))))"]) simp
qed

theorem retry_loses_the_notification_witness:
  "\<exists>st'. retry ex_externals (ex_failing 1) 11 1 Occupied (ex_event 3) 0 [] (ex_state ex_won) =
     Some (Inr [backoff_ms 1], st') \<and> availability_tx st' = []"
proof -
  have b: "ex_bed ''reserved'' 0 \<in> set (beds (pool (ex_state ex_won)))" by (simp add: ex_db_def)
  have "\<exists>st'. retry ex_externals (ex_failing 1) 11 1 Occupied (ex_event 3) 0 [] (ex_state ex_won) =
     Some (Inr [backoff_ms 1], st') \<and>
     availability_tx st' = availability_tx (ex_state ex_won) @
       sent_by_others (ex_failing 1) (pos (ex_state ex_won)) (pos st') \<and>
     (ex_bed ''reserved'' 0)\<lparr>b_status := ''occupied'',
        b_last_event_sequence := ev_sequence (ex_event 3)\<rparr> \<in> set (beds (pool st'))"
    by (rule retry_loses_the_notification [OF _ _ _ _ b])
       (use booking_inv_parts(1) [OF ex_inv(2)] in
         \<open>simp_all add: ex_db_def ex_bed_def ex_event_def\<close>)
  then show ?thesis by auto
qed

text \<open>A call that fails publishes nothing.\<close>

lemma failed_call_is_silent:
  assumes "match_referral X s req st = (Inl err, st')"
  shows "availability_tx st' = availability_tx st @ sent_by_others s (pos st) (pos st')"
  using assms
proof (cases rule: match_referral_cases)
  case (failed criteria e)
  then show ?thesis using silent.submit_referral_R [OF failed(2)] by (simp add: silently_def)
qed simp_all

text \<open>
  When the smallest free bed that meets the criteria is waited for by a referral that comes before
  the new one, the first round of the search awards it to such a referral.
\<close>

lemma first_round_serves_another:
  assumes inv: "booking_inv d" and i: "i \<notin> r_id ` set (referrals d)"
    and v: "new \<notin> v_id ` set (reservations d)"
    and b: "offers d rg nd b" "\<forall>c. offers d rg nd c \<longrightarrow> b_id b \<le> b_id c"
    and r: "waiting d b r" "sint vu < sint (r_vulnerability_score r)"
  obtains d1 p where "insert_referral i cw rg nd vu fa now d = (Inr (), d1)"
    and "candidate_bed rg nd d1 = (Inr (Some (b_id b)), d1)"
    and "allocate_tx (\<lambda>_. False) new t (b_id b) d1 =
      (Inr (Some \<lparr>bed_id = b_id b, shelter_id = b_shelter_id b, referral_id = r_id p\<rparr>),
       award (new_reservation new (b_id b) (r_id p) t) d1)"
    and "waiting d b p" and "r_id p \<noteq> i"
proof -
  obtain d1 q where ins: "insert_referral i cw rg nd vu fa now d = (Inr (), d1)"
    and q: "insert_referral_row q d = Inr d1" "r_status q = ''pending''" "r_id q = i"
      "r_vulnerability_score q = vu"
    by (rule new_referral_inserted [OF i])
  note d1 = insert_referral_Inr [OF q(1)]
  have inv1: "booking_inv d1" by (rule insert_referral_row_inv [OF inv q(1,2)])
  have c: "candidate_bed rg nd d1 = (Inr (Some (b_id b)), d1)"
    by (rule smallest_candidate) (use b in \<open>simp_all add: offers_def d1\<close>)
  have w: "waiting d1 b x \<longleftrightarrow> waiting d b x" if "x \<noteq> q" for x
    using that by (auto simp: waiting_def d1)
  have key: "order_key r < order_key q" using r(2) q(4) order_key_le [of q r] by (simp flip: not_le)
  then have "r \<noteq> q" by blast
  have avail: "b \<in> set (beds d1)" "b_status b = ''available''" using b(1) d1 by (auto simp: offers_def)
  have "new \<notin> v_id ` set (reservations d1)" using v d1 by simp
  from allocate_tx_awards [OF inv1 this avail, of r "\<lambda>_. False" t] w [OF \<open>r \<noteq> q\<close>] r(1) obtain p where
    p: "waiting d1 b p" "order_key p \<le> order_key r" "allocate_tx (\<lambda>_. False) new t (b_id b) d1 =
      (Inr (Some \<lparr>bed_id = b_id b, shelter_id = b_shelter_id b, referral_id = r_id p\<rparr>),
       award (new_reservation new (b_id b) (r_id p) t) d1)" by blast
  have "p \<noteq> q" using p(2) key by auto
  with p(1) w have wp: "waiting d b p" by blast
  then have "p \<in> set (referrals d)" by (simp add: waiting_def)
  with i have "r_id p \<noteq> i" by (metis imageI)
  with ins c p(3) wp show thesis by (rule that)
qed

text \<open>
  C40.  A call can reserve a bed without anybody being told. Suppose that the session runs
  alone, that the smallest free bed that meets the criteria is waited for by a referral of a
  strictly higher score than the request's, that the ids drawn are unused, and that the
  connection fails exactly at the fourth query of the call. Then the search has awarded the bed
  to a referral that was waiting, the call answers with an error and drops the list of its side
  allocations: the reservation is in the database, and the channel got only what other tasks
  sent.
\<close>

theorem failed_call_hides_an_allocation:
  assumes alone: "\<forall>k. mv_interfere (s k) = id \<and> mv_locked (s k) = (\<lambda>_. False)"
    and fault: "\<forall>k. mv_fault (s k) = (if k = pos st + 3 then Some Statement_fails else None)"
    and inv: "booking_inv (pool st)"
    and i: "mv_uuid (s (pos st)) \<notin> r_id ` set (referrals (pool st))"
    and v: "mv_uuid (s (pos st + 2)) \<notin> v_id ` set (reservations (pool st))"
    and req: "rq_criteria req = Some criteria"
    and b: "offers (pool st) (rq_region req) (needs_of_criteria X criteria) b"
      "\<forall>c. offers (pool st) (rq_region req) (needs_of_criteria X criteria) c \<longrightarrow> b_id b \<le> b_id c"
    and r: "waiting (pool st) b r" "sint (c_vulnerability_score criteria) < sint (r_vulnerability_score r)"
  shows "\<exists>st' p. match_referral X s req st =
      (Inl (Status (Internal_status (''database error: '' @ show_sqlx X Io_error))), st') \<and>
    waiting (pool st) b p \<and>
    (\<exists>v\<in>set (reservations (pool st')). is_live v \<and> v_bed_id v = b_id b \<and> v_referral_id v = r_id p) \<and>
    availability_tx st' = availability_tx st @ sent_by_others s (pos st) (pos st')"
proof -
  let ?p = "pos st" and ?d = "pool st" and ?at = "session_at s st"
  let ?i = "mv_uuid (s ?p)" and ?rg = "rq_region req" and ?nd = "needs_of_criteria X criteria"
  obtain d1 p where ins: "insert_referral ?i (rq_caseworker_id req) ?rg ?nd
      (c_vulnerability_score criteria) (c_family_size criteria) (mv_now (s ?p)) ?d = (Inr (), d1)"
    and c: "candidate_bed ?rg ?nd d1 = (Inr (Some (b_id b)), d1)"
    and al: "allocate_tx (\<lambda>_. False) (mv_uuid (s (?p + 2))) (mv_now (s (?p + 2))) (b_id b) d1 =
      (Inr (Some \<lparr>bed_id = b_id b, shelter_id = b_shelter_id b, referral_id = r_id p\<rparr>),
       award (new_reservation (mv_uuid (s (?p + 2))) (b_id b) (r_id p) (mv_now (s (?p + 2)))) d1)"
    and p: "waiting ?d b p" "r_id p \<noteq> ?i"
    by (rule first_round_serves_another [OF inv i v b r])
  let ?v = "new_reservation (mv_uuid (s (?p + 2))) (b_id b) (r_id p) (mv_now (s (?p + 2)))"
  let ?d2 = "award ?v d1"
  have 1: "exec s (\<lambda>m. insert_referral ?i (rq_caseworker_id req) ?rg ?nd
      (c_vulnerability_score criteria) (c_family_size criteria) (mv_now m)) (?at ?d ?p) =
      (Inr (), ?at d1 (Suc ?p))"
    by (rule session_at_exec) (use alone fault ins in simp_all)
  have 2: "exec s (\<lambda>_. candidate_bed ?rg ?nd) (?at d1 (Suc ?p)) =
      (Inr (Some (b_id b)), ?at d1 (Suc (Suc ?p)))"
    by (rule session_at_exec) (use alone fault c in simp_all)
  have 3: "allocate_for_bed s (b_id b) (?at d1 (Suc (Suc ?p))) =
      (Inr (Some \<lparr>bed_id = b_id b, shelter_id = b_shelter_id b, referral_id = r_id p\<rparr>),
       ?at ?d2 (Suc (Suc (Suc ?p))))"
    unfolding allocate_for_bed_def by (rule session_at_exec) (use alone fault al in simp_all)
  have 4: "exec s (\<lambda>_. candidate_bed ?rg ?nd) (?at ?d2 (Suc (Suc (Suc ?p)))) =
      (Inl (Failed (Database Io_error)), ?at ?d2 (Suc (Suc (Suc (Suc ?p)))))"
    by (rule session_at_fails) (use alone fault in simp_all)
  have "submit_loop (Suc (Suc 498)) s ?i ?rg ?nd [] (?at d1 (Suc ?p)) =
      (Inl (Failed (Database Io_error)), ?at ?d2 (Suc (Suc (Suc (Suc ?p)))))"
    unfolding submit_loop.simps(2) 2 3 4 try_bind_simps option.case using p(2) by simp
  then have run: "match_referral X s req st =
      (Inl (Status (Internal_status (''database error: '' @ show_sqlx X Io_error))),
       ?at ?d2 (Suc (Suc (Suc (Suc ?p)))))"
    using 1 req by (simp add: match_referral_def submit_referral_def Let_def)
  have "?v \<in> set (reservations ?d2)" "is_live ?v" "v_bed_id ?v = b_id b" "v_referral_id ?v = r_id p"
    by (simp_all add: award_tables new_reservation_def is_live_def)
  with p(1) show ?thesis
    using run failed_call_is_silent [OF run]
    by (intro exI [of _ "?at ?d2 (Suc (Suc (Suc (Suc ?p))))"] exI [of _ p] conjI bexI [of _ ?v]) simp_all
qed

theorem failed_call_hides_an_allocation_witness:
  "\<exists>st'. match_referral ex_externals (ex_failing 3) ex_request (ex_state ex_wait) =
      (Inl (Status (Internal_status ''database error: error'')), st') \<and> availability_tx st' = [] \<and>
    (\<exists>v\<in>set (reservations (pool st')). is_live v \<and> v_bed_id v = 1)"
proof -
  let ?st = "ex_state ex_wait" and ?b = "ex_bed ''available'' 0" and ?r = "ex_referral 2 90 5 ''pending''"
  have "\<exists>st' p. match_referral ex_externals (ex_failing 3) ex_request ?st =
      (Inl (Status (Internal_status (''database error: '' @ show_sqlx ex_externals Io_error))), st') \<and>
    waiting (pool ?st) ?b p \<and>
    (\<exists>v\<in>set (reservations (pool st')). is_live v \<and> v_bed_id v = b_id ?b \<and> v_referral_id v = r_id p) \<and>
    availability_tx st' = availability_tx ?st @ sent_by_others (ex_failing 3) (pos ?st) (pos st')"
  proof (rule failed_call_hides_an_allocation [where r = ?r])
    show "rq_criteria ex_request = Some (the (rq_criteria ex_request))" by (simp add: ex_request_def)
    show "offers (pool ?st) (rq_region ex_request)
        (needs_of_criteria ex_externals (the (rq_criteria ex_request))) ?b"
      unfolding ex_criteria
      by (simp add: offers_def candidate_filter_def ex_request_def ex_needs_def ex_defs)
    show "\<forall>c. offers (pool ?st) (rq_region ex_request)
        (needs_of_criteria ex_externals (the (rq_criteria ex_request))) c \<longrightarrow> b_id ?b \<le> b_id c"
      by (simp add: offers_def ex_defs)
    show "waiting (pool ?st) ?b ?r" by (simp add: waiting_def suits_def ex_defs)
    show "booking_inv (pool ?st)" using ex_inv(1) by simp
  qed (simp_all add: ex_request_def ex_defs)
  then show ?thesis by (auto simp: ex_externals_def ex_bed_def)
qed

end
