(* ===== verification/Statements.thy ===== *)
theory Statements
  imports System
begin

section \<open>The transactions statement by statement (crates/matching-engine/src/matcher.rs)\<close>

text \<open>
  \<open>allocate_tx\<close> and \<open>apply_tx\<close> are functions of one database.  The code sends their statements to
  Postgres one at a time, and between two of them other sessions go on.  Here both transactions
  are programs: trees of statements, each with the continuation that reads its answer, one
  continuation per \<open>await\<close> of the source.  A statement sees the committed rows and the rows that
  its own transaction has written so far (READ COMMITTED, the isolation level of a pool that
  sets none); what it writes are new versions of rows, which commit installs.
\<close>

subsection \<open>Statements, answers, row versions and locks\<close>

datatype statement =
    Select_bed_for_update uuid
  | Select_region uuid
  | Select_referral_skip_locked string BedAttributes
  | Insert_reservation reservation_row
  | Update_bed_status uuid string
  | Update_referral_status uuid string
  | Insert_applied_event applied_event_row
  | Update_bed_event uuid string i64
  | Check_in_reservations uuid
  | Release_reservations uuid
  | Repend_referral uuid

datatype answer =
    Bed (bed_of: "bed_row option")
  | Region (region_of: "sqlx_error + string")
  | Referral (referral_of: "referral_row option")
  | Inserted (inserted_of: "sqlx_error + unit")
  | Rows_affected (rows_of: nat)
  | Returned (returned_of: "uuid option")

datatype version =
    Bed_version bed_row
  | Referral_version referral_row
  | Reservation_version reservation_row
  | New_reservation reservation_row
  | New_event applied_event_row

datatype row_lock =
    Bed_lock uuid
  | Referral_lock uuid
  | Reservation_lock uuid
  | Event_lock uuid
  | Active_bed_entry uuid
  | Active_referral_entry uuid

text \<open>Installing a version replaces the row with its primary key; a new row is appended.\<close>

definition put :: "('a \<Rightarrow> 'k) \<Rightarrow> 'a \<Rightarrow> 'a list \<Rightarrow> 'a list" where
  "put key y rows = update_where (\<lambda>x. key x = key y) (\<lambda>_. y) rows"

fun install :: "version \<Rightarrow> db \<Rightarrow> db" where
  "install (Bed_version b) d = d\<lparr>beds := put b_id b (beds d)\<rparr>"
| "install (Referral_version r) d = d\<lparr>referrals := put r_id r (referrals d)\<rparr>"
| "install (Reservation_version v) d = d\<lparr>reservations := put v_id v (reservations d)\<rparr>"
| "install (New_reservation v) d = d\<lparr>reservations := reservations d @ [v]\<rparr>"
| "install (New_event e) d = d\<lparr>applied_events := applied_events d @ [e]\<rparr>"

text \<open>What a transaction sees: the committed database with its own versions on top.\<close>

definition view :: "version list \<Rightarrow> db \<Rightarrow> db" where
  "view written d = fold install written d"

text \<open>
  The answer of a statement on the database it sees.  \<open>skip\<close> says which referral rows other
  transactions hold locked.
\<close>

fun answer_of :: "(uuid \<Rightarrow> bool) \<Rightarrow> statement \<Rightarrow> db \<Rightarrow> answer" where
  "answer_of skip (Select_bed_for_update bed) d =
     Bed (fetch_optional (filter (\<lambda>b. b_id b = bed) (beds d)))"
| "answer_of skip (Select_region shelter) d =
     Region (fetch_one (map s_region (filter (\<lambda>s. s_id s = shelter) (shelters d))))"
| "answer_of skip (Select_referral_skip_locked region bed_attrs) d =
     Referral (choose_referral skip region bed_attrs d)"
| "answer_of skip (Insert_reservation v) d =
     Inserted (map_sum id (\<lambda>_. ()) (insert_reservation_row v d))"
| "answer_of skip (Update_bed_status bed status) d =
     Rows_affected (length (filter (\<lambda>b. b_id b = bed) (beds d)))"
| "answer_of skip (Update_referral_status referral status) d =
     Rows_affected (length (filter (\<lambda>r. r_id r = referral) (referrals d)))"
| "answer_of skip (Insert_applied_event e) d = Rows_affected (fst (insert_applied_event e d))"
| "answer_of skip (Update_bed_event bed status sequence) d =
     Rows_affected (length (filter (\<lambda>b. b_id b = bed) (beds d)))"
| "answer_of skip (Check_in_reservations bed) d =
     Rows_affected (length (filter (\<lambda>v. v_bed_id v = bed \<and> v_status v = ''active'') (reservations d)))"
| "answer_of skip (Release_reservations bed) d =
     Returned (map_option v_referral_id
       (fetch_optional (filter (\<lambda>v. v_bed_id v = bed \<and> is_live v) (reservations d))))"
| "answer_of skip (Repend_referral referral) d =
     Rows_affected (length (filter (\<lambda>r. r_id r = referral \<and> r_status r = ''matched'') (referrals d)))"

text \<open>The versions a statement writes.\<close>

fun versions_of :: "statement \<Rightarrow> db \<Rightarrow> version list" where
  "versions_of (Select_bed_for_update bed) d = []"
| "versions_of (Select_region shelter) d = []"
| "versions_of (Select_referral_skip_locked region bed_attrs) d = []"
| "versions_of (Insert_reservation v) d =
     (case insert_reservation_row v d of Inl e \<Rightarrow> [] | Inr _ \<Rightarrow> [New_reservation v])"
| "versions_of (Update_bed_status bed status) d =
     map (\<lambda>b. Bed_version (b\<lparr>b_status := status\<rparr>)) (filter (\<lambda>b. b_id b = bed) (beds d))"
| "versions_of (Update_referral_status referral status) d =
     map (\<lambda>r. Referral_version (r\<lparr>r_status := status\<rparr>)) (filter (\<lambda>r. r_id r = referral) (referrals d))"
| "versions_of (Insert_applied_event e) d =
     (if fst (insert_applied_event e d) = 0 then [] else [New_event e])"
| "versions_of (Update_bed_event bed status sequence) d =
     map (\<lambda>b. Bed_version (b\<lparr>b_status := status, b_last_event_sequence := sequence\<rparr>))
       (filter (\<lambda>b. b_id b = bed) (beds d))"
| "versions_of (Check_in_reservations bed) d =
     map (\<lambda>v. Reservation_version (v\<lparr>v_status := ''checked_in''\<rparr>))
       (filter (\<lambda>v. v_bed_id v = bed \<and> v_status v = ''active'') (reservations d))"
| "versions_of (Release_reservations bed) d =
     map (\<lambda>v. Reservation_version (v\<lparr>v_status := ''released''\<rparr>))
       (filter (\<lambda>v. v_bed_id v = bed \<and> is_live v) (reservations d))"
| "versions_of (Repend_referral referral) d =
     map (\<lambda>r. Referral_version (r\<lparr>r_status := ''pending''\<rparr>))
       (filter (\<lambda>r. r_id r = referral \<and> r_status r = ''matched'') (referrals d))"

text \<open>
  The locks a statement takes: the rows it selects for update or writes, and for an insertion
  the entries it makes in the unique indexes.
\<close>

fun locks_of :: "(uuid \<Rightarrow> bool) \<Rightarrow> statement \<Rightarrow> db \<Rightarrow> row_lock set" where
  "locks_of skip (Select_bed_for_update bed) d =
     (\<lambda>b. Bed_lock (b_id b)) ` set (filter (\<lambda>b. b_id b = bed) (beds d))"
| "locks_of skip (Select_region shelter) d = {}"
| "locks_of skip (Select_referral_skip_locked region bed_attrs) d =
     (case choose_referral skip region bed_attrs d of
        None \<Rightarrow> {} | Some r \<Rightarrow> {Referral_lock (r_id r)})"
| "locks_of skip (Insert_reservation v) d =
     (case insert_reservation_row v d of
        Inl e \<Rightarrow> {}
      | Inr _ \<Rightarrow> {Reservation_lock (v_id v), Active_bed_entry (v_bed_id v),
                  Active_referral_entry (v_referral_id v)})"
| "locks_of skip (Update_bed_status bed status) d =
     (\<lambda>b. Bed_lock (b_id b)) ` set (filter (\<lambda>b. b_id b = bed) (beds d))"
| "locks_of skip (Update_referral_status referral status) d =
     (\<lambda>r. Referral_lock (r_id r)) ` set (filter (\<lambda>r. r_id r = referral) (referrals d))"
| "locks_of skip (Insert_applied_event e) d =
     (if fst (insert_applied_event e d) = 0 then {} else {Event_lock (e_event_id e)})"
| "locks_of skip (Update_bed_event bed status sequence) d =
     (\<lambda>b. Bed_lock (b_id b)) ` set (filter (\<lambda>b. b_id b = bed) (beds d))"
| "locks_of skip (Check_in_reservations bed) d =
     (\<lambda>v. Reservation_lock (v_id v)) `
       set (filter (\<lambda>v. v_bed_id v = bed \<and> v_status v = ''active'') (reservations d))"
| "locks_of skip (Release_reservations bed) d =
     (\<lambda>v. Reservation_lock (v_id v)) `
       set (filter (\<lambda>v. v_bed_id v = bed \<and> is_live v) (reservations d))"
| "locks_of skip (Repend_referral referral) d =
     (\<lambda>r. Referral_lock (r_id r)) `
       set (filter (\<lambda>r. r_id r = referral \<and> r_status r = ''matched'') (referrals d))"

subsection \<open>Programs\<close>

text \<open>What the two transactions return to their callers.\<close>

datatype reply =
    Allocation "failure + AllocationResult option"
  | Application "failure + ApplyOutcome"

text \<open>
  A transaction that returns without \<open>tx.commit()\<close>, by an early return, by the question-mark
  operator or by a panic, is dropped and rolled back.
\<close>

datatype program =
    Commit reply
  | Rollback reply
  | Execute statement "answer \<Rightarrow> program"

text \<open>\<open>allocate_for_bed\<close>, from its last await backwards.\<close>

definition allocate_done :: "uuid \<Rightarrow> bed_row \<Rightarrow> referral_row \<Rightarrow> program" where
  "allocate_done bed b r =
     Commit (Allocation (Inr (Some \<lparr>bed_id = bed, shelter_id = b_shelter_id b,
                                   referral_id = r_id r\<rparr>)))"

definition allocate_match :: "uuid \<Rightarrow> bed_row \<Rightarrow> referral_row \<Rightarrow> program" where
  "allocate_match bed b r =
     Execute (Update_referral_status (r_id r) ''matched'') (\<lambda>_. allocate_done bed b r)"

definition allocate_reserve :: "uuid \<Rightarrow> bed_row \<Rightarrow> referral_row \<Rightarrow> program" where
  "allocate_reserve bed b r =
     Execute (Update_bed_status bed ''reserved'') (\<lambda>_. allocate_match bed b r)"

definition allocate_write ::
  "uuid \<Rightarrow> timestamp \<Rightarrow> uuid \<Rightarrow> bed_row \<Rightarrow> referral_row \<Rightarrow> program" where
  "allocate_write reservation_id now bed b r =
     Execute (Insert_reservation \<lparr>v_id = reservation_id, v_bed_id = bed, v_referral_id = r_id r,
                v_reserved_at = now, v_status = ''active''\<rparr>) (\<lambda>a.
       case inserted_of a of
         Inl e \<Rightarrow> Rollback (Allocation (Inl (Failed (Database e))))
       | Inr _ \<Rightarrow> allocate_reserve bed b r)"

definition allocate_choose ::
  "uuid \<Rightarrow> timestamp \<Rightarrow> uuid \<Rightarrow> bed_row \<Rightarrow> string \<Rightarrow> BedAttributes \<Rightarrow> program" where
  "allocate_choose reservation_id now bed b region bed_attrs =
     Execute (Select_referral_skip_locked region bed_attrs) (\<lambda>a.
       case referral_of a of
         None \<Rightarrow> Rollback (Allocation (Inr None))
       | Some r \<Rightarrow>
         (case UnitType_from_db_str (r_unit_type_required r) of
            Inl e \<Rightarrow> Rollback (Allocation (Inl (Failed e)))
          | Inr required \<Rightarrow>
              if \<not> is_eligible bed_attrs
                   \<lparr>unit_type_required = required,
                    needs_pet_friendly = r_needs_pet_friendly r,
                    needs_sobriety_free = r_needs_sobriety_free r,
                    needs_ada_accessible = r_needs_ada_accessible r\<rparr>
              then Rollback (Allocation (Inl (Panicked
                     ''SQL eligibility filter and is_eligible() have drifted apart'')))
              else allocate_write reservation_id now bed b r))"

definition allocate_locked :: "uuid \<Rightarrow> timestamp \<Rightarrow> uuid \<Rightarrow> bed_row \<Rightarrow> program" where
  "allocate_locked reservation_id now bed b =
     Execute (Select_region (b_shelter_id b)) (\<lambda>a.
       case region_of a of
         Inl e \<Rightarrow> Rollback (Allocation (Inl (Failed (Database e))))
       | Inr region \<Rightarrow>
         (case UnitType_from_db_str (b_unit_type b) of
            Inl e \<Rightarrow> Rollback (Allocation (Inl (Failed e)))
          | Inr unit \<Rightarrow>
              allocate_choose reservation_id now bed b region
                \<lparr>unit_type = unit, allows_pets = b_allows_pets b,
                 sobriety_required = b_sobriety_required b,
                 ada_accessible = b_ada_accessible b\<rparr>))"

definition allocate_program :: "uuid \<Rightarrow> timestamp \<Rightarrow> uuid \<Rightarrow> program" where
  "allocate_program reservation_id now bed =
     Execute (Select_bed_for_update bed) (\<lambda>a.
       case bed_of a of
         None \<Rightarrow> Rollback (Allocation (Inr None))
       | Some b \<Rightarrow>
           if b_status b \<noteq> ''available'' then Rollback (Allocation (Inr None))
           else allocate_locked reservation_id now bed b)"

text \<open>\<open>apply_bed_status_event\<close>, from its last await backwards.\<close>

definition apply_finish :: "BedStatus \<Rightarrow> bed_row \<Rightarrow> program" where
  "apply_finish new_status b =
     Commit (Application (Inr (Applied (b_shelter_id b)
       (new_status = Available \<and> b_status b \<noteq> ''available''))))"

definition apply_lifecycle :: "uuid \<Rightarrow> BedStatus \<Rightarrow> bed_row \<Rightarrow> program" where
  "apply_lifecycle bed new_status b =
     (if new_status = Occupied
      then Execute (Check_in_reservations bed) (\<lambda>_. apply_finish new_status b)
      else if new_status \<in> set [Available, Maintenance]
      then Execute (Release_reservations bed) (\<lambda>a.
             case returned_of a of
               Some referral \<Rightarrow>
                 Execute (Repend_referral referral) (\<lambda>_. apply_finish new_status b)
             | None \<Rightarrow> apply_finish new_status b)
      else apply_finish new_status b)"

definition apply_update :: "uuid \<Rightarrow> BedStatus \<Rightarrow> i64 \<Rightarrow> bed_row \<Rightarrow> program" where
  "apply_update bed new_status sequence b =
     Execute (Update_bed_event bed (BedStatus_as_db_str new_status) sequence)
       (\<lambda>_. apply_lifecycle bed new_status b)"

definition apply_locked :: "uuid \<Rightarrow> BedStatus \<Rightarrow> i64 \<Rightarrow> program" where
  "apply_locked bed new_status sequence =
     Execute (Select_bed_for_update bed) (\<lambda>a.
       case bed_of a of
         None \<Rightarrow> Rollback (Application (Inr UnknownBed))
       | Some b \<Rightarrow>
           if sint sequence \<le> sint (b_last_event_sequence b)
           then Rollback (Application (Inr Stale))
           else apply_update bed new_status sequence b)"

definition apply_program :: "uuid \<Rightarrow> uuid \<Rightarrow> BedStatus \<Rightarrow> i64 \<Rightarrow> timestamp \<Rightarrow> program" where
  "apply_program event bed new_status sequence now =
     Execute (Insert_applied_event \<lparr>e_event_id = event, e_bed_id = bed, e_applied_at = now\<rparr>) (\<lambda>a.
       if rows_of a = 0 then Rollback (Application (Inr Duplicate))
       else apply_locked bed new_status sequence)"

text \<open>A call of one of the two, with the values the server and the process supply.\<close>

datatype request =
    Allocate uuid timestamp uuid
  | Apply uuid uuid BedStatus i64 timestamp

fun program_of :: "request \<Rightarrow> program" where
  "program_of (Allocate reservation_id now bed) = allocate_program reservation_id now bed"
| "program_of (Apply event bed new_status sequence now) =
     apply_program event bed new_status sequence now"

fun atomically :: "(uuid \<Rightarrow> bool) \<Rightarrow> request \<Rightarrow> db \<Rightarrow> reply \<times> db" where
  "atomically skip (Allocate reservation_id now bed) d =
     map_prod Allocation id (allocate_tx skip reservation_id now bed d)"
| "atomically skip (Apply event bed new_status sequence now) d =
     map_prod Application id (apply_tx event bed new_status sequence now d)"

text \<open>A program that runs alone, with the versions written so far.\<close>

primrec run_alone :: "(uuid \<Rightarrow> bool) \<Rightarrow> program \<Rightarrow> version list \<Rightarrow> db \<Rightarrow> reply \<times> db" where
  "run_alone skip (Commit r) written d = (r, view written d)"
| "run_alone skip (Rollback r) written d = (r, d)"
| "run_alone skip (Execute st k) written d =
     run_alone skip (k (answer_of skip st (view written d)))
       (written @ versions_of st (view written d)) d"

subsection \<open>Installing what an update wrote is the update\<close>

lemma fold_put:
  assumes "distinct (map key xs)" and "\<And>x. key (f x) = key x"
  shows "fold (put key) (map f (filter P xs)) xs = update_where P f xs"
proof -
  have "fold (put key) (map f (filter P ys)) (zs @ ys) = zs @ update_where P f ys"
    if "distinct (map key (zs @ ys))" for ys zs
    using that
  proof (induction ys arbitrary: zs)
    case (Cons y ys)
    have fresh: "key y \<notin> key ` set (zs @ ys)" using Cons.prems by auto
    have others: "key x \<noteq> key y" if "x \<in> set (zs @ ys)" for x
      using imageI [OF that, of key] fresh by auto
    have put_y: "put key (f y) (zs @ y # ys) = zs @ f y # ys"
      using others assms(2) by (auto simp: put_def update_where_def intro!: map_idI)
    have zs: "distinct (map key ((zs @ [if P y then f y else y]) @ ys))"
      using Cons.prems assms(2) by auto
    from Cons.IH [OF this] show ?case
      by (cases "P y") (simp_all add: put_y update_where_def)
  qed (simp add: update_where_def)
  from this [of "[]" xs] assms(1) show ?thesis by simp
qed

lemma view_simps [simp]:
  "view [] d = d" "view (x # xs) d = view xs (install x d)"
  "view (xs @ ys) d = view ys (view xs d)"
  by (simp_all add: view_def)

lemma view_bed_versions:
  "view (map (\<lambda>b. Bed_version (f b)) bs) d = d\<lparr>beds := fold (put b_id) (map f bs) (beds d)\<rparr>"
  by (induction bs arbitrary: d) simp_all

lemma view_referral_versions:
  "view (map (\<lambda>r. Referral_version (f r)) rs) d =
     d\<lparr>referrals := fold (put r_id) (map f rs) (referrals d)\<rparr>"
  by (induction rs arbitrary: d) simp_all

lemma view_reservation_versions:
  "view (map (\<lambda>v. Reservation_version (f v)) vs) d =
     d\<lparr>reservations := fold (put v_id) (map f vs) (reservations d)\<rparr>"
  by (induction vs arbitrary: d) simp_all

lemma view_updates:
  "distinct (map b_id (beds d)) \<Longrightarrow> (\<And>b. b_id (f b) = b_id b) \<Longrightarrow>
     view (map (\<lambda>b. Bed_version (f b)) (filter P (beds d))) d = update_beds P f d"
  "distinct (map r_id (referrals d)) \<Longrightarrow> (\<And>r. r_id (g r) = r_id r) \<Longrightarrow>
     view (map (\<lambda>r. Referral_version (g r)) (filter Q (referrals d))) d = update_referrals Q g d"
  "distinct (map v_id (reservations d)) \<Longrightarrow> (\<And>v. v_id (h v) = v_id v) \<Longrightarrow>
     view (map (\<lambda>v. Reservation_version (h v)) (filter R (reservations d))) d =
     update_reservations R h d"
  by (simp_all add: view_bed_versions view_referral_versions view_reservation_versions fold_put
      table_update_defs)

subsection \<open>A transaction that runs alone is the atomic one\<close>

lemmas allocate_tail = allocate_reserve_def allocate_match_def allocate_done_def

lemma view_set_status:
  assumes "schema_ok d"
  shows "view (versions_of (Update_bed_status bed status) d) d = set_bed_status bed status d"
    and "view (versions_of (Update_referral_status referral status) d) d =
      set_referral_status referral status d"
  using schema_ok_keys [OF assms]
  by (simp_all add: view_updates set_bed_status_def set_referral_status_def del: view_simps)

lemma allocate_write_alone:
  assumes "schema_ok d"
  shows "run_alone skip (allocate_write i now bed b r) [] d =
    (case insert_reservation_row (new_reservation i bed (r_id r) now) d of
       Inl e \<Rightarrow> (Allocation (Inl (Failed (Database e))), d)
     | Inr _ \<Rightarrow> (Allocation (Inr (Some \<lparr>bed_id = bed, shelter_id = b_shelter_id b,
                   referral_id = r_id r\<rparr>)), award (new_reservation i bed (r_id r) now) d))"
proof (cases "insert_reservation_row (new_reservation i bed (r_id r) now) d")
  case (Inl e)
  then show ?thesis by (simp add: allocate_write_def new_reservation_def)
next
  case (Inr d1)
  let ?v = "new_reservation i bed (r_id r) now"
  have d1: "d1 = install (New_reservation ?v) d" using insert_reservation_Inr [OF Inr] by simp
  have ok: "schema_ok d1" by (rule insert_reservation_schema_ok [OF assms Inr])
  let ?d2 = "set_bed_status bed ''reserved'' d1"
  have "schema_ok ?d2"
    unfolding set_bed_status_def
    by (rule schema_ok_update_beds [OF ok]) (simp_all add: bed_status_check_def)
  note views = view_set_status(1) [OF ok, of bed "''reserved''"]
    view_set_status(2) [OF this, of "r_id r" "''matched''"]
  show ?thesis
    using Inr views d1
    by (simp add: allocate_write_def allocate_tail new_reservation_def award_def
        del: versions_of.simps(5,6))
qed

lemma allocate_alone:
  assumes "schema_ok d"
  shows "run_alone skip (allocate_program i now bed) [] d =
    map_prod Allocation id (allocate_tx skip i now bed d)"
proof (cases "fetch_optional (filter (\<lambda>b. b_id b = bed) (beds d))")
  case None
  then show ?thesis by (simp add: allocate_program_def allocate_tx_def)
next
  case (Some b)
  have writes: "run_alone skip (allocate_write i now bed b r) [] d =
      map_prod Allocation id
        (try_bind (lift_insert (insert_reservation_row \<lparr>v_id = i, v_bed_id = bed,
             v_referral_id = r_id r, v_reserved_at = now, v_status = ''active''\<rparr> d) d) (\<lambda>_ d.
           (Inr (Some \<lparr>bed_id = bed, shelter_id = b_shelter_id b, referral_id = r_id r\<rparr>),
            set_referral_status (r_id r) ''matched'' (set_bed_status bed ''reserved'' d))))" for r
    unfolding allocate_write_alone [OF assms] new_reservation_def [symmetric]
    by (cases "insert_reservation_row (new_reservation i bed (r_id r) now) d")
      (auto simp: award_def dest: insert_reservation_Inr)
  show ?thesis
  proof (cases "filter (\<lambda>s. s_id s = b_shelter_id b) (shelters d)")
    case Nil
    with Some show ?thesis
      by (simp add: allocate_program_def allocate_locked_def allocate_tx_def)
  next
    case (Cons sh shs)
    with Some show ?thesis
      by (simp add: allocate_program_def allocate_locked_def allocate_choose_def allocate_tx_def
          writes Let_def split: sum.split option.split)
  qed
qed

lemma lifecycle_alone:
  assumes "schema_ok (view written d)"
  shows "run_alone skip (apply_lifecycle bed ns b) written d =
    (Application (Inr (Applied (b_shelter_id b) (ns = Available \<and> b_status b \<noteq> ''available''))),
     reservation_lifecycle ns bed (view written d))"
proof -
  let ?d = "view written d"
  have keys: "distinct (map r_id (referrals ?d))" "distinct (map v_id (reservations ?d))"
    using schema_ok_keys [OF assms] by simp_all
  have released: "view (versions_of (Release_reservations bed) ?d) ?d =
      snd (release_reservations bed ?d)"
    using keys by (simp add: view_updates release_reservations_def)
  have check_in: "view (versions_of (Check_in_reservations bed) ?d) ?d =
      update_reservations (\<lambda>v. v_bed_id v = bed \<and> v_status v = ''active'')
        (\<lambda>v. v\<lparr>v_status := ''checked_in''\<rparr>) ?d"
    using keys by (simp add: view_updates)
  have repend: "view (versions_of (Repend_referral q) e) e =
      update_referrals (\<lambda>r. r_id r = q \<and> r_status r = ''matched'')
        (\<lambda>r. r\<lparr>r_status := ''pending''\<rparr>) e" if "referrals e = referrals ?d" for q e
    using view_updates(2) [of e "r_status_update (\<lambda>_. ''pending'')"] keys(1) that by simp
  have same: "referrals (snd (release_reservations bed ?d)) = referrals ?d"
    by (simp add: release_reservations_def update_reservations_def)
  show ?thesis
  proof (cases "releasing ns")
    case True
    have prog: "apply_lifecycle bed ns b = Execute (Release_reservations bed) (\<lambda>a.
        case returned_of a of
          Some referral \<Rightarrow> Execute (Repend_referral referral) (\<lambda>_. apply_finish ns b)
        | None \<Rightarrow> apply_finish ns b)"
      using True by (auto simp: apply_lifecycle_def releasing_def)
    have spec: "reservation_lifecycle ns bed ?d =
        (case fetch_optional (filter (\<lambda>v. v_bed_id v = bed \<and> is_live v) (reservations ?d)) of
           Some v \<Rightarrow> update_referrals (\<lambda>r. r_id r = v_referral_id v \<and> r_status r = ''matched'')
             (\<lambda>r. r\<lparr>r_status := ''pending''\<rparr>) (snd (release_reservations bed ?d))
         | None \<Rightarrow> snd (release_reservations bed ?d))"
      using True
      by (auto simp: reservation_lifecycle_def releasing_def release_reservations_def
          split: option.split)
    show ?thesis
      by (cases "fetch_optional (filter (\<lambda>v. v_bed_id v = bed \<and> is_live v) (reservations ?d))")
        (simp_all add: prog spec apply_finish_def released repend [OF same]
          del: versions_of.simps fetch_optional_None)
  next
    case False
    then consider "ns = Occupied" | "ns = Reserved" by (cases ns) (auto simp: releasing_def)
    then show ?thesis
    proof cases
      case 1
      with check_in show ?thesis
        by (simp add: apply_lifecycle_def apply_finish_def reservation_lifecycle_def
            del: versions_of.simps)
    next
      case 2
      then show ?thesis
        by (simp add: apply_lifecycle_def apply_finish_def reservation_lifecycle_def)
    qed
  qed
qed

lemma apply_alone:
  assumes "schema_ok d"
  shows "run_alone skip (apply_program event bed ns sq now) [] d =
    map_prod Application id (apply_tx event bed ns sq now d)"
proof (cases "event \<in> e_event_id ` set (applied_events d)")
  case True
  then show ?thesis by (simp add: apply_program_def apply_tx_def insert_applied_event_def)
next
  case False
  let ?e = "\<lparr>e_event_id = event, e_bed_id = bed, e_applied_at = now\<rparr>"
  let ?d1 = "d\<lparr>applied_events := applied_events d @ [?e]\<rparr>"
  let ?set = "\<lambda>b. b\<lparr>b_status := BedStatus_as_db_str ns, b_last_event_sequence := sq\<rparr>"
  have ok: "schema_ok ?d1" using assms False by (simp add: schema_ok_def)
  have upd: "view (versions_of (Update_bed_event bed (BedStatus_as_db_str ns) sq) ?d1) ?d1 =
      update_beds (\<lambda>b. b_id b = bed) ?set ?d1"
    using schema_ok_keys [OF ok] by (simp add: view_updates(1) [of ?d1 ?set, simplified])
  have ok2: "schema_ok (update_beds (\<lambda>b. b_id b = bed) ?set ?d1)"
    by (rule schema_ok_update_beds [OF ok]) simp_all
  show ?thesis
  proof (cases "fetch_optional (filter (\<lambda>b. b_id b = bed) (beds d))")
    case None
    with False show ?thesis
      by (simp add: apply_program_def apply_locked_def apply_tx_def insert_applied_event_def)
  next
    case (Some b)
    note life = lifecycle_alone [of "[New_event ?e] @
        versions_of (Update_bed_event bed (BedStatus_as_db_str ns) sq) ?d1" d skip bed ns b]
    have "view ([New_event ?e] @
        versions_of (Update_bed_event bed (BedStatus_as_db_str ns) sq) ?d1) d =
        update_beds (\<lambda>b. b_id b = bed) ?set ?d1"
      unfolding view_simps(3) by (simp add: upd del: versions_of.simps)
    with life ok2 False Some show ?thesis
      by (simp add: apply_program_def apply_locked_def apply_update_def apply_tx_def
          insert_applied_event_def Let_def
          del: versions_of.simps(8))
  qed
qed

lemma program_alone:
  "schema_ok d \<Longrightarrow> run_alone skip (program_of q) [] d = atomically skip q d"
  by (cases q) (simp_all add: allocate_alone apply_alone)

end
