(* ===== verification/Interleaving.thy ===== *)
theory Interleaving
  imports Statements
begin

section \<open>Concurrent transactions, statement by statement\<close>

text \<open>
  The database server with any number of transactions of the matcher in flight.  A statement
  waits while another transaction holds a lock that it needs, except that
  \<open>FOR UPDATE SKIP LOCKED\<close> passes over the locked rows; a transaction keeps its locks to its end.
  Only a commit changes the stored rows.  A transaction can be dropped at any moment (a lost
  connection, a cancelled request, a crash of the process).  Single statements on the pool that
  write, the insertions of referrals, shelters and beds, commit at once.
\<close>

record transaction =
  call :: request
  rest :: program
  written :: "version list"
  held :: "row_lock set"

record server =
  stored :: db
  running :: "nat \<Rightarrow> transaction option"

definition held_by_others :: "server \<Rightarrow> nat \<Rightarrow> row_lock set" where
  "held_by_others c t = (\<Union>x\<in>{x. \<exists>t'. t' \<noteq> t \<and> running c t' = Some x}. held x)"

definition skips :: "server \<Rightarrow> nat \<Rightarrow> uuid \<Rightarrow> bool" where
  "skips c t i \<longleftrightarrow> Referral_lock i \<in> held_by_others c t"

fun reports :: "request \<Rightarrow> BedStatus set" where
  "reports (Allocate reservation_id now bed) = {}"
| "reports (Apply event bed new_status sequence now) = {new_status}"

definition opened :: "request \<Rightarrow> transaction" where
  "opened q = \<lparr>call = q, rest = program_of q, written = [], held = {}\<rparr>"

definition executed ::
  "(uuid \<Rightarrow> bool) \<Rightarrow> statement \<Rightarrow> (answer \<Rightarrow> program) \<Rightarrow> db \<Rightarrow> transaction \<Rightarrow> transaction" where
  "executed skip st k d x = x\<lparr>rest := k (answer_of skip st d),
     written := written x @ versions_of st d, held := held x \<union> locks_of skip st d\<rparr>"

inductive server_step :: "BedStatus set \<Rightarrow> server \<Rightarrow> server \<Rightarrow> bool" for A where
  entering: "running c t = None \<Longrightarrow> reports q \<subseteq> A \<Longrightarrow>
     server_step A c (c\<lparr>running := (running c)(t \<mapsto> opened q)\<rparr>)"
| statement: "running c t = Some x \<Longrightarrow> rest x = Execute st k \<Longrightarrow> d = view (written x) (stored c) \<Longrightarrow>
     locks_of (skips c t) st d \<inter> held_by_others c t = {} \<Longrightarrow>
     server_step A c (c\<lparr>running := (running c)(t \<mapsto> executed (skips c t) st k d x)\<rparr>)"
| committing: "running c t = Some x \<Longrightarrow> rest x = Commit r \<Longrightarrow>
     server_step A c (c\<lparr>stored := view (written x) (stored c),
       running := (running c)(t := None)\<rparr>)"
| dropping: "running c t = Some x \<Longrightarrow> server_step A c (c\<lparr>running := (running c)(t := None)\<rparr>)"
| new_referral: "insert_referral i caseworker region needs vulnerability family now (stored c) =
       (Inr (), d') \<Longrightarrow> server_step A c (c\<lparr>stored := d'\<rparr>)"
| new_shelter: "insert_shelter_row s (stored c) = Inr d' \<Longrightarrow> server_step A c (c\<lparr>stored := d'\<rparr>)"
| new_bed: "insert_bed_row b (stored c) = Inr d' \<Longrightarrow> b_status b \<in> {''occupied'', ''available''} \<Longrightarrow>
     server_step A c (c\<lparr>stored := d'\<rparr>)"

definition idle_server :: "db \<Rightarrow> server" where
  "idle_server d = \<lparr>stored = d, running = (\<lambda>_. None)\<rparr>"

subsection \<open>What the locks protect\<close>

text \<open>
  A change of the stored rows that leaves alone what the locks \<open>h\<close> protect: the locked rows, the
  reservations of a locked bed, the index entries of a locked referral, and the keys reserved
  by insertions in flight.
\<close>

definition undisturbed :: "row_lock set \<Rightarrow> db \<Rightarrow> db \<Rightarrow> bool" where
  "undisturbed h d d' \<longleftrightarrow>
     set (shelters d) \<subseteq> set (shelters d') \<and>
     (\<forall>b\<in>set (beds d). Bed_lock (b_id b) \<in> h \<longrightarrow> b \<in> set (beds d')) \<and>
     (\<forall>r\<in>set (referrals d). Referral_lock (r_id r) \<in> h \<longrightarrow> r \<in> set (referrals d')) \<and>
     (\<forall>e. Event_lock e \<in> h \<longrightarrow> e \<notin> e_event_id ` set (applied_events d) \<longrightarrow>
        e \<notin> e_event_id ` set (applied_events d')) \<and>
     (\<forall>i. Reservation_lock i \<in> h \<longrightarrow> i \<notin> v_id ` set (reservations d) \<longrightarrow>
        i \<notin> v_id ` set (reservations d')) \<and>
     (\<forall>bed. Bed_lock bed \<in> h \<longrightarrow> filter (\<lambda>v. v_bed_id v = bed) (reservations d') =
        filter (\<lambda>v. v_bed_id v = bed) (reservations d)) \<and>
     (\<forall>v\<in>set (reservations d'). is_active v \<longrightarrow> Referral_lock (v_referral_id v) \<in> h \<longrightarrow>
        (\<exists>w\<in>set (reservations d). is_active w \<and> v_referral_id w = v_referral_id v))"

lemma undisturbedD:
  assumes "undisturbed h d d'"
  shows "s \<in> set (shelters d) \<Longrightarrow> s \<in> set (shelters d')"
    and "b \<in> set (beds d) \<Longrightarrow> Bed_lock (b_id b) \<in> h \<Longrightarrow> b \<in> set (beds d')"
    and "r \<in> set (referrals d) \<Longrightarrow> Referral_lock (r_id r) \<in> h \<Longrightarrow> r \<in> set (referrals d')"
    and "Event_lock e \<in> h \<Longrightarrow> e \<notin> e_event_id ` set (applied_events d) \<Longrightarrow>
      e \<notin> e_event_id ` set (applied_events d')"
    and "Reservation_lock i \<in> h \<Longrightarrow> i \<notin> v_id ` set (reservations d) \<Longrightarrow>
      i \<notin> v_id ` set (reservations d')"
    and "Bed_lock bed \<in> h \<Longrightarrow> filter (\<lambda>v. v_bed_id v = bed) (reservations d') =
      filter (\<lambda>v. v_bed_id v = bed) (reservations d)"
    and "v \<in> set (reservations d') \<Longrightarrow> is_active v \<Longrightarrow> Referral_lock (v_referral_id v) \<in> h \<Longrightarrow>
      \<exists>w\<in>set (reservations d). is_active w \<and> v_referral_id w = v_referral_id v"
  using assms by (simp_all add: undisturbed_def subset_iff)

text \<open>The three kinds of change: an insertion, an award, an applied event.\<close>

lemma insert_undisturbed:
  "insert_shelter_row s d = Inr d' \<Longrightarrow> undisturbed h d d'"
  "insert_bed_row b d = Inr d' \<Longrightarrow> undisturbed h d d'"
  "insert_referral_row r d = Inr d' \<Longrightarrow> undisturbed h d d'"
  by (auto simp: undisturbed_def insert_shelter_row_def insert_bed_row_def insert_referral_row_def
      split: if_splits)

lemma award_undisturbed:
  assumes "{Bed_lock (v_bed_id v), Referral_lock (v_referral_id v), Reservation_lock (v_id v)} \<inter> h = {}"
  shows "undisturbed h d (award v d)"
  unfolding undisturbed_def award_tables
proof (intro conjI ballI allI impI)
  fix b assume "b \<in> set (beds d)" "Bed_lock (b_id b) \<in> h"
  with assms show "b \<in> set (update_where (\<lambda>b. b_id b = v_bed_id v) (b_status_update (\<lambda>_. ''reserved'')) (beds d))"
    by (auto simp: in_update_where intro!: bexI [of _ b])
next
  fix r assume "r \<in> set (referrals d)" "Referral_lock (r_id r) \<in> h"
  with assms show "r \<in> set (update_where (\<lambda>r. r_id r = v_referral_id v) (r_status_update (\<lambda>_. ''matched'')) (referrals d))"
    by (auto simp: in_update_where intro!: bexI [of _ r])
qed (use assms in auto)

lemma applied_undisturbed:
  assumes inv: "booking_inv d" and "Event_lock event \<notin> h" "Bed_lock bed \<notin> h"
    and free: "\<And>v. releasing ns \<Longrightarrow> v \<in> set (reservations d) \<Longrightarrow> is_live v \<Longrightarrow> v_bed_id v = bed \<Longrightarrow>
      Referral_lock (v_referral_id v) \<notin> h"
  shows "undisturbed h d (applied_db event bed ns sq now d)"
  unfolding undisturbed_def
proof (intro conjI ballI allI impI)
  fix b assume "b \<in> set (beds d)" "Bed_lock (b_id b) \<in> h"
  with assms(3) show "b \<in> set (beds (applied_db event bed ns sq now d))"
    by (auto simp: applied_db_tables in_update_where intro!: bexI [of _ b])
next
  fix r assume r: "r \<in> set (referrals d)" "Referral_lock (r_id r) \<in> h"
  show "r \<in> set (referrals (applied_db event bed ns sq now d))"
  proof (cases "releasing ns \<and> (\<exists>v\<in>set (reservations d). is_live v \<and> v_bed_id v = bed)")
    case True
    then obtain v where v: "releasing ns" "v \<in> set (reservations d)" "is_live v" "v_bed_id v = bed"
      by blast
    with free r have "r_id r \<noteq> v_referral_id v" by metis
    with r(1) show ?thesis
      by (simp add: applied_db_tables referrals_after_releasing [OF inv v] in_update_where)
        (rule bexI [of _ r], simp_all)
  qed (use r in \<open>simp add: applied_db_tables referrals_after_unheld\<close>)
next
  fix i assume "Bed_lock i \<in> h"
  with assms(3) have "i \<noteq> bed" by blast
  then have "reservation_after ns bed v = v" if "v_bed_id v = i" for v
    using that by (auto simp: reservation_after_def)
  then have "map (reservation_after ns bed) (filter (\<lambda>v. v_bed_id v = i) (reservations d)) =
      filter (\<lambda>v. v_bed_id v = i) (reservations d)"
    by (intro map_idI) simp
  then show "filter (\<lambda>v. v_bed_id v = i) (reservations (applied_db event bed ns sq now d)) =
      filter (\<lambda>v. v_bed_id v = i) (reservations d)"
    by (simp add: applied_db_tables filter_map comp_def)
next
  fix v assume "v \<in> set (reservations (applied_db event bed ns sq now d))" "is_active v"
  then obtain w where "w \<in> set (reservations d)" "v = reservation_after ns bed w"
    by (auto simp: applied_db_tables)
  with \<open>is_active v\<close> reservation_after_active [of ns bed w]
  show "\<exists>w\<in>set (reservations d). is_active w \<and> v_referral_id w = v_referral_id v"
    by (intro bexI [of _ w]) simp_all
qed (use assms in \<open>auto simp: applied_db_tables\<close>)

subsection \<open>The points a transaction can be at\<close>

definition available_bed :: "db \<Rightarrow> uuid \<Rightarrow> bed_row \<Rightarrow> bool" where
  "available_bed d bed b \<longleftrightarrow> b \<in> set (beds d) \<and> b_id b = bed \<and> b_status b = ''available''"

definition housed :: "db \<Rightarrow> bed_row \<Rightarrow> shelter_row \<Rightarrow> UnitType \<Rightarrow> bool" where
  "housed d b s u \<longleftrightarrow> s \<in> set (shelters d) \<and> s_id s = b_shelter_id b \<and>
     UnitType_from_db_str (b_unit_type b) = Inr u"

definition winner :: "db \<Rightarrow> uuid \<Rightarrow> bed_row \<Rightarrow> shelter_row \<Rightarrow> UnitType \<Rightarrow> referral_row \<Rightarrow> bool" where
  "winner d bed b s u r \<longleftrightarrow> available_bed d bed b \<and> housed d b s u \<and>
     r \<in> set (referrals d) \<and> pending_filter (s_region s) (attrs_of u b) r"

definition insertable :: "db \<Rightarrow> reservation_row \<Rightarrow> bool" where
  "insertable d v \<longleftrightarrow>
     insert_reservation_row v d = Inr (d\<lparr>reservations := reservations d @ [v]\<rparr>)"

definition applicable :: "db \<Rightarrow> uuid \<Rightarrow> uuid \<Rightarrow> i64 \<Rightarrow> bed_row \<Rightarrow> bool" where
  "applicable d event bed sequence b \<longleftrightarrow> event \<notin> e_event_id ` set (applied_events d) \<and>
     b \<in> set (beds d) \<and> b_id b = bed \<and> sint (b_last_event_sequence b) < sint sequence"

definition award_locks :: "reservation_row \<Rightarrow> row_lock set" where
  "award_locks v = {Bed_lock (v_bed_id v), Referral_lock (v_referral_id v),
     Reservation_lock (v_id v), Active_bed_entry (v_bed_id v),
     Active_referral_entry (v_referral_id v)}"

definition live_on :: "uuid \<Rightarrow> db \<Rightarrow> reservation_row list" where
  "live_on bed d = filter (\<lambda>v. v_bed_id v = bed \<and> is_live v) (reservations d)"

definition active_on :: "uuid \<Rightarrow> db \<Rightarrow> reservation_row list" where
  "active_on bed d = filter (\<lambda>v. v_bed_id v = bed \<and> v_status v = ''active'') (reservations d)"

definition event_versions ::
  "uuid \<Rightarrow> uuid \<Rightarrow> BedStatus \<Rightarrow> i64 \<Rightarrow> timestamp \<Rightarrow> bed_row \<Rightarrow> version list" where
  "event_versions event bed ns sq now b =
     [New_event \<lparr>e_event_id = event, e_bed_id = bed, e_applied_at = now\<rparr>,
      Bed_version (b\<lparr>b_status := BedStatus_as_db_str ns, b_last_event_sequence := sq\<rparr>)]"

definition released_versions :: "uuid \<Rightarrow> db \<Rightarrow> version list" where
  "released_versions bed d =
     map (\<lambda>v. Reservation_version (v\<lparr>v_status := ''released''\<rparr>)) (live_on bed d)"

definition checked_in_versions :: "uuid \<Rightarrow> db \<Rightarrow> version list" where
  "checked_in_versions bed d =
     map (\<lambda>v. Reservation_version (v\<lparr>v_status := ''checked_in''\<rparr>)) (active_on bed d)"

text \<open>
  \<open>point d q p ws h\<close>: over the stored rows \<open>d\<close>, the transaction of the call \<open>q\<close> may have the rest
  \<open>p\<close> to execute, the versions \<open>ws\<close> written and the locks \<open>h\<close> held.
\<close>

inductive point :: "db \<Rightarrow> request \<Rightarrow> program \<Rightarrow> version list \<Rightarrow> row_lock set \<Rightarrow> bool" for d where
  given_up: "point d q (Rollback r) ws h"
| allocating: "point d (Allocate i now bed) (allocate_program i now bed) [] {}"
| bed_locked: "available_bed d bed b \<Longrightarrow>
     point d (Allocate i now bed) (allocate_locked i now bed b) [] {Bed_lock bed}"
| choosing: "available_bed d bed b \<Longrightarrow> housed d b s u \<Longrightarrow>
     point d (Allocate i now bed) (allocate_choose i now bed b (s_region s) (attrs_of u b)) []
       {Bed_lock bed}"
| chosen: "winner d bed b s u r \<Longrightarrow>
     point d (Allocate i now bed) (allocate_write i now bed b r) []
       {Bed_lock bed, Referral_lock (r_id r)}"
| reserved: "winner d bed b s u r \<Longrightarrow> v = new_reservation i bed (r_id r) now \<Longrightarrow> insertable d v \<Longrightarrow>
     point d (Allocate i now bed) (allocate_reserve bed b r) [New_reservation v] (award_locks v)"
| bed_taken: "winner d bed b s u r \<Longrightarrow> v = new_reservation i bed (r_id r) now \<Longrightarrow> insertable d v \<Longrightarrow>
     point d (Allocate i now bed) (allocate_match bed b r)
       [New_reservation v, Bed_version (b\<lparr>b_status := ''reserved''\<rparr>)] (award_locks v)"
| awarded: "winner d bed b s u r \<Longrightarrow> v = new_reservation i bed (r_id r) now \<Longrightarrow> insertable d v \<Longrightarrow>
     point d (Allocate i now bed) (allocate_done bed b r)
       [New_reservation v, Bed_version (b\<lparr>b_status := ''reserved''\<rparr>),
        Referral_version (r\<lparr>r_status := ''matched''\<rparr>)] (award_locks v)"
| applying: "point d (Apply event bed ns sq now) (apply_program event bed ns sq now) [] {}"
| recorded: "event \<notin> e_event_id ` set (applied_events d) \<Longrightarrow>
     point d (Apply event bed ns sq now) (apply_locked bed ns sq)
       [New_event \<lparr>e_event_id = event, e_bed_id = bed, e_applied_at = now\<rparr>] {Event_lock event}"
| located: "applicable d event bed sq b \<Longrightarrow>
     point d (Apply event bed ns sq now) (apply_update bed ns sq b)
       [New_event \<lparr>e_event_id = event, e_bed_id = bed, e_applied_at = now\<rparr>]
       {Event_lock event, Bed_lock bed}"
| updated: "applicable d event bed sq b \<Longrightarrow>
     point d (Apply event bed ns sq now) (apply_lifecycle bed ns b)
       (event_versions event bed ns sq now b) {Event_lock event, Bed_lock bed}"
| checked_in: "applicable d event bed sq b \<Longrightarrow> ns = Occupied \<Longrightarrow>
     point d (Apply event bed ns sq now) (apply_finish ns b)
       (event_versions event bed ns sq now b @ checked_in_versions bed d)
       ({Event_lock event, Bed_lock bed} \<union> (\<lambda>v. Reservation_lock (v_id v)) ` set (active_on bed d))"
| unheld: "applicable d event bed sq b \<Longrightarrow> releasing ns \<Longrightarrow> live_on bed d = [] \<Longrightarrow>
     point d (Apply event bed ns sq now) (apply_finish ns b)
       (event_versions event bed ns sq now b) {Event_lock event, Bed_lock bed}"
| released: "applicable d event bed sq b \<Longrightarrow> releasing ns \<Longrightarrow> live_on bed d = v # vs \<Longrightarrow>
     point d (Apply event bed ns sq now)
       (Execute (Repend_referral (v_referral_id v)) (\<lambda>_. apply_finish ns b))
       (event_versions event bed ns sq now b @ released_versions bed d)
       ({Event_lock event, Bed_lock bed} \<union> (\<lambda>v. Reservation_lock (v_id v)) ` set (live_on bed d))"
| repended: "applicable d event bed sq b \<Longrightarrow> releasing ns \<Longrightarrow> live_on bed d = v # vs \<Longrightarrow>
     r \<in> set (referrals d) \<Longrightarrow> r_id r = v_referral_id v \<Longrightarrow>
     point d (Apply event bed ns sq now) (apply_finish ns b)
       (event_versions event bed ns sq now b @ released_versions bed d @
        [Referral_version (r\<lparr>r_status := ''pending''\<rparr>)])
       ({Event_lock event, Bed_lock bed, Referral_lock (r_id r)} \<union>
        (\<lambda>v. Reservation_lock (v_id v)) ` set (live_on bed d))"

subsection \<open>What others do leaves a transaction at its point\<close>

lemma insertable_iff:
  assumes "schema_ok d" and "v_status v = ''active''"
  shows "insertable d v \<longleftrightarrow> v_id v \<notin> v_id ` set (reservations d) \<and>
    v_bed_id v \<in> b_id ` set (beds d) \<and> v_referral_id v \<in> r_id ` set (referrals d) \<and>
    (\<forall>w\<in>set (reservations d). is_active w \<longrightarrow>
       v_bed_id w \<noteq> v_bed_id v \<and> v_referral_id w \<noteq> v_referral_id v)"
proof -
  have "unique_where v_bed_id is_active (reservations d)"
    "unique_where v_referral_id is_active (reservations d)"
    using assms(1) by (simp_all add: schema_ok_def)
  moreover have "is_active v" "reservation_status_check (v_status v)"
    using assms(2) by (simp_all add: is_active_def reservation_status_check_def)
  moreover have "key \<notin> f ` {w \<in> set (reservations d). is_active w} \<longleftrightarrow>
      (\<forall>w\<in>set (reservations d). is_active w \<longrightarrow> f w \<noteq> key)" for key and f :: "_ \<Rightarrow> uuid"
    by blast
  ultimately show ?thesis
    by (simp add: insertable_def insert_reservation_row_def unique_where_append) blast
qed

lemma filter_bed_undisturbed:
  assumes "undisturbed h d d'" and "Bed_lock bed \<in> h"
  shows "filter (\<lambda>v. v_bed_id v = bed \<and> P v) (reservations d') =
    filter (\<lambda>v. v_bed_id v = bed \<and> P v) (reservations d)"
proof -
  have "filter P (filter (\<lambda>v. v_bed_id v = bed) (reservations d')) =
      filter P (filter (\<lambda>v. v_bed_id v = bed) (reservations d))"
    by (simp only: undisturbedD(6) [OF assms])
  then show ?thesis by (simp add: conj_commute)
qed

lemma on_bed_undisturbed:
  assumes "undisturbed h d d'" and "Bed_lock bed \<in> h"
  shows "live_on bed d' = live_on bed d" "active_on bed d' = active_on bed d"
    "released_versions bed d' = released_versions bed d"
    "checked_in_versions bed d' = checked_in_versions bed d"
  using filter_bed_undisturbed [OF assms]
  by (simp_all add: live_on_def active_on_def released_versions_def checked_in_versions_def)

lemma available_undisturbed:
  "undisturbed h d d' \<Longrightarrow> Bed_lock bed \<in> h \<Longrightarrow> available_bed d bed b \<Longrightarrow> available_bed d' bed b"
  using undisturbedD(2) by (auto simp: available_bed_def)

lemma housed_undisturbed: "undisturbed h d d' \<Longrightarrow> housed d b s u \<Longrightarrow> housed d' b s u"
  using undisturbedD(1) by (auto simp: housed_def)

lemma winner_undisturbed:
  "undisturbed h d d' \<Longrightarrow> Bed_lock bed \<in> h \<Longrightarrow> Referral_lock (r_id r) \<in> h \<Longrightarrow>
     winner d bed b s u r \<Longrightarrow> winner d' bed b s u r"
  using available_undisturbed housed_undisturbed undisturbedD(3) unfolding winner_def by blast

lemma applicable_undisturbed:
  "undisturbed h d d' \<Longrightarrow> Bed_lock bed \<in> h \<Longrightarrow> Event_lock event \<in> h \<Longrightarrow>
     applicable d event bed sq b \<Longrightarrow> applicable d' event bed sq b"
  using undisturbedD(2,4) unfolding applicable_def by metis

lemma insertable_undisturbed:
  assumes und: "undisturbed (award_locks v) d d'" and ok: "schema_ok d" "schema_ok d'"
    and w: "winner d' bed b s u r" and v: "v = new_reservation i bed (r_id r) now"
    and ins: "insertable d v"
  shows "insertable d' v"
proof -
  have locks: "Bed_lock bed \<in> award_locks v" "Referral_lock (r_id r) \<in> award_locks v"
    "Reservation_lock i \<in> award_locks v"
    using v by (simp_all add: award_locks_def)
  have act: "v_status v = ''active''" using v by simp
  note old = ins [unfolded insertable_iff [OF ok(1) act]]
  have "v_bed_id w \<noteq> bed" if "w \<in> set (reservations d')" "is_active w" for w
  proof
    assume "v_bed_id w = bed"
    with that have "w \<in> set (filter (\<lambda>v. v_bed_id v = bed \<and> is_active v) (reservations d))"
      using filter_bed_undisturbed [OF und locks(1), of is_active, symmetric] by simp
    then have "w \<in> set (reservations d)" "v_bed_id w = v_bed_id v" using v by simp_all
    with old that(2) show False by blast
  qed
  moreover have "v_referral_id w \<noteq> r_id r" if "w \<in> set (reservations d')" "is_active w" for w
    using undisturbedD(7) [OF und that] locks(2) old v by auto
  moreover have "bed \<in> b_id ` set (beds d')" "r_id r \<in> r_id ` set (referrals d')"
    using w by (auto simp: winner_def available_bed_def)
  moreover have "i \<notin> v_id ` set (reservations d')"
    using undisturbedD(5) [OF und locks(3)] old v by simp
  ultimately show ?thesis
    unfolding insertable_iff [OF ok(2) act] using v by simp
qed

lemma point_undisturbed:
  assumes "point d q p ws h" and und: "undisturbed h d d'" and ok: "schema_ok d" "schema_ok d'"
  shows "point d' q p ws h"
  using assms(1)
proof cases
  case (bed_locked bed b i now)
  then have "available_bed d' bed b" using available_undisturbed [OF und] by simp
  with bed_locked show ?thesis by (simp add: point.bed_locked)
next
  case (choosing bed b s u i now)
  then have "available_bed d' bed b" "housed d' b s u"
    using available_undisturbed [OF und] housed_undisturbed [OF und] by simp_all
  with choosing show ?thesis by (simp add: point.choosing)
next
  case (chosen bed b s u r i now)
  then have "winner d' bed b s u r" using winner_undisturbed [OF und] by simp
  with chosen show ?thesis by (simp add: point.chosen)
next
  case (reserved bed b s u r v i now)
  have w: "winner d' bed b s u r"
    by (rule winner_undisturbed [OF und _ _ reserved(5)]) (simp_all add: reserved award_locks_def)
  have "insertable d' v"
    by (rule insertable_undisturbed [OF und [unfolded reserved(4)] ok w reserved(6,7)])
  with w reserved show ?thesis by (simp add: point.reserved)
next
  case (bed_taken bed b s u r v i now)
  have w: "winner d' bed b s u r"
    by (rule winner_undisturbed [OF und _ _ bed_taken(5)]) (simp_all add: bed_taken award_locks_def)
  have "insertable d' v"
    by (rule insertable_undisturbed [OF und [unfolded bed_taken(4)] ok w bed_taken(6,7)])
  with w bed_taken show ?thesis by (simp add: point.bed_taken)
next
  case (awarded bed b s u r v i now)
  have w: "winner d' bed b s u r"
    by (rule winner_undisturbed [OF und _ _ awarded(5)]) (simp_all add: awarded award_locks_def)
  have "insertable d' v"
    by (rule insertable_undisturbed [OF und [unfolded awarded(4)] ok w awarded(6,7)])
  with w awarded show ?thesis by (simp add: point.awarded)
next
  case (recorded event bed ns sq now)
  then have "event \<notin> e_event_id ` set (applied_events d')"
    using undisturbedD(4) [OF und, of event] by simp
  with recorded show ?thesis by (simp add: point.recorded)
next
  case (located event bed sq b ns now)
  then have "applicable d' event bed sq b" using applicable_undisturbed [OF und] by simp
  with located show ?thesis by (simp add: point.located)
next
  case (updated event bed sq b ns now)
  then have "applicable d' event bed sq b" using applicable_undisturbed [OF und] by simp
  with updated show ?thesis by (simp add: point.updated)
next
  case (checked_in event bed sq b ns now)
  then have "applicable d' event bed sq b" using applicable_undisturbed [OF und] by simp
  moreover have "Bed_lock bed \<in> h" using checked_in by simp
  ultimately show ?thesis
    using checked_in(1-3,6) point.checked_in [of d' event bed sq b ns now]
    by (simp add: on_bed_undisturbed [OF und] checked_in(4))
next
  case (unheld event bed sq b ns now)
  then have "applicable d' event bed sq b" using applicable_undisturbed [OF und] by simp
  moreover have "Bed_lock bed \<in> h" using unheld by simp
  ultimately show ?thesis
    using unheld(1-3,6,7) point.unheld [of d' event bed sq b ns now]
    by (simp add: on_bed_undisturbed [OF und] unheld(4))
next
  case (released event bed sq b ns v vs now)
  then have "applicable d' event bed sq b" using applicable_undisturbed [OF und] by simp
  moreover have "Bed_lock bed \<in> h" using released by simp
  ultimately show ?thesis
    using released(1-3,6,7) point.released [of d' event bed sq b ns v vs now]
    by (simp add: on_bed_undisturbed [OF und] released(4))
next
  case (repended event bed sq b ns v vs r now)
  then have "applicable d' event bed sq b" using applicable_undisturbed [OF und] by simp
  moreover have "Bed_lock bed \<in> h" "Referral_lock (r_id r) \<in> h" using repended by simp_all
  moreover have "r \<in> set (referrals d')" by (rule undisturbedD(3) [OF und repended(8)]) fact
  ultimately show ?thesis
    using repended(1-3,6,7,9) point.repended [of d' event bed sq b ns v vs r now]
    by (simp add: on_bed_undisturbed [OF und] repended(4))
qed (simp_all add: point.given_up point.allocating point.applying)

end
