(* ===== verification/Serialization.thy ===== *)
theory Serialization
  imports Interleaving
begin

section \<open>Every concurrent run is a run of atomic transactions\<close>

text \<open>
  A statement takes a transaction from one of its points to the next, and a commit at the last
  point has exactly the effect of the atomic transaction on the rows stored at that moment.
\<close>

subsection \<open>One statement\<close>

lemma filter_by_key:
  assumes "distinct (map key xs)" and "x \<in> set xs"
  shows "filter (\<lambda>y. key y = key x) xs = [x]"
  using assms
proof (induction xs)
  case (Cons y ys)
  show ?case
  proof (cases "x = y")
    case True
    with Cons.prems(1) have "key z \<noteq> key x" if "z \<in> set ys" for z
      using imageI [OF that, of key] by auto
    then have "filter (\<lambda>z. key z = key x) ys = []" by (simp add: filter_empty_conv)
    with True show ?thesis by simp
  next
    case False
    with Cons.prems have "x \<in> set ys" by simp
    with Cons.prems(1) have "key y \<noteq> key x" by auto
    with Cons \<open>x \<in> set ys\<close> show ?thesis by simp
  qed
qed simp

lemma event_view_frames [simp]:
  "reservations (view (event_versions event bed ns sq now b) d) = reservations d"
  "referrals (view (event_versions event bed ns sq now b) d) = referrals d"
  "referrals (view (released_versions bed d0) d) = referrals d"
  by (simp_all add: event_versions_def released_versions_def view_reservation_versions)

lemma select_bed_statement:
  assumes "schema_ok d"
  obtains (none) "answer_of skip (Select_bed_for_update bed) d = Bed None"
  | (found) b where "answer_of skip (Select_bed_for_update bed) d = Bed (Some b)"
      "b \<in> set (beds d)" "b_id b = bed" "locks_of skip (Select_bed_for_update bed) d = {Bed_lock bed}"
proof (cases "fetch_optional (filter (\<lambda>b. b_id b = bed) (beds d))")
  case (Some b)
  note b = fetch_filter_Some [OF Some]
  then have "filter (\<lambda>x. b_id x = bed) (beds d) = [b]"
    using filter_by_key [OF schema_ok_keys(2) [OF assms]] by auto
  with Some b found show thesis by simp
qed (simp add: none)

text \<open>The chosen referral passes the checks that follow.\<close>

lemma chosen_checks:
  assumes "UnitType_from_db_str (b_unit_type b) = Inr u" and "pending_filter region (attrs_of u b) r"
  shows "UnitType_from_db_str (r_unit_type_required r) = Inr u"
    and "is_eligible (attrs_of u b) (needs_of u r)"
  using assms by (auto simp: pending_filter_def unit_codec.of_str_Inr is_eligible_iff)

definition advances ::
  "(uuid \<Rightarrow> bool) \<Rightarrow> db \<Rightarrow> request \<Rightarrow> program \<Rightarrow> version list \<Rightarrow> row_lock set \<Rightarrow> bool" where
  "advances skip d q p ws h \<longleftrightarrow>
     (case p of
        Execute st k \<Rightarrow> point d q (k (answer_of skip st (view ws d)))
          (ws @ versions_of st (view ws d)) (h \<union> locks_of skip st (view ws d))
      | _ \<Rightarrow> True)"

lemma allocating_advances:
  assumes "schema_ok d"
  shows "advances skip d (Allocate i now bed) (allocate_program i now bed) [] {}"
proof (rule select_bed_statement [OF assms, of skip bed])
  assume "answer_of skip (Select_bed_for_update bed) d = Bed None"
  then show ?thesis
    by (simp add: advances_def allocate_program_def point.given_up del: answer_of.simps)
next
  fix b assume b: "answer_of skip (Select_bed_for_update bed) d = Bed (Some b)"
    "b \<in> set (beds d)" "b_id b = bed" "locks_of skip (Select_bed_for_update bed) d = {Bed_lock bed}"
  then have "available_bed d bed b" if "b_status b = ''available''"
    using that by (simp add: available_bed_def)
  with b show ?thesis
    by (simp add: advances_def allocate_program_def point.given_up point.bed_locked
        del: answer_of.simps locks_of.simps)
qed

lemma bed_locked_advances:
  assumes "available_bed d bed b"
  shows "advances skip d (Allocate i now bed) (allocate_locked i now bed b) [] {Bed_lock bed}"
proof (cases "fetch_one (map s_region (filter (\<lambda>s. s_id s = b_shelter_id b) (shelters d)))")
  case (Inl e)
  then show ?thesis by (simp add: advances_def allocate_locked_def point.given_up)
next
  case (Inr region)
  then obtain s where s: "fetch_optional (filter (\<lambda>s. s_id s = b_shelter_id b) (shelters d)) = Some s"
    "region = s_region s"
    by (cases "filter (\<lambda>s. s_id s = b_shelter_id b) (shelters d)") simp_all
  note s' = fetch_filter_Some [OF s(1)]
  have next_point: "point d (Allocate i now bed) (allocate_choose i now bed b region (attrs_of u b)) []
      {Bed_lock bed}" if "UnitType_from_db_str (b_unit_type b) = Inr u" for u
    unfolding s(2) by (rule point.choosing [OF assms]) (use s' that in \<open>simp add: housed_def\<close>)
  show ?thesis
    using Inr next_point
    by (simp add: advances_def allocate_locked_def point.given_up attrs_of_def split: sum.split)
qed

lemma choosing_advances:
  assumes "available_bed d bed b" and "housed d b s u"
  shows "advances skip d (Allocate i now bed)
    (allocate_choose i now bed b (s_region s) (attrs_of u b)) [] {Bed_lock bed}"
proof (cases "choose_referral skip (s_region s) (attrs_of u b) d")
  case None
  then show ?thesis by (simp add: advances_def allocate_choose_def point.given_up)
next
  case (Some r)
  note r = choose_referral_Some(1,2) [OF Some]
  have "winner d bed b s u r" using assms r by (simp add: winner_def)
  from point.chosen [OF this, of i now] show ?thesis
    using Some chosen_checks [OF _ r(2)] assms(2)
    by (simp add: advances_def allocate_choose_def housed_def needs_of_def insert_commute)
qed

lemma chosen_advances:
  assumes "winner d bed b s u r"
  shows "advances skip d (Allocate i now bed) (allocate_write i now bed b r) []
    {Bed_lock bed, Referral_lock (r_id r)}"
proof (cases "insert_reservation_row (new_reservation i bed (r_id r) now) d")
  case (Inl e)
  then show ?thesis
    by (simp add: advances_def allocate_write_def point.given_up new_reservation_def)
next
  case (Inr d1)
  let ?v = "new_reservation i bed (r_id r) now"
  have "insertable d ?v" using Inr insert_reservation_Inr [OF Inr] by (simp add: insertable_def)
  from point.reserved [OF assms refl this]
  show ?thesis
    using Inr
    by (simp add: advances_def allocate_write_def award_locks_def new_reservation_def insert_commute)
qed

lemma reserved_advances:
  assumes ok: "schema_ok d" and w: "winner d bed b s u r"
    and v: "v = new_reservation i bed (r_id r) now" and ins: "insertable d v"
  shows "advances skip d (Allocate i now bed) (allocate_reserve bed b r) [New_reservation v] (award_locks v)"
    and "advances skip d (Allocate i now bed) (allocate_match bed b r)
      [New_reservation v, Bed_version (b\<lparr>b_status := ''reserved''\<rparr>)] (award_locks v)"
proof -
  have "filter (\<lambda>x. b_id x = bed) (beds d) = [b]"
    using filter_by_key [OF schema_ok_keys(2) [OF ok]] w by (auto simp: winner_def available_bed_def)
  with point.bed_taken [OF w v ins]
  show "advances skip d (Allocate i now bed) (allocate_reserve bed b r) [New_reservation v] (award_locks v)"
    using w v
    by (simp add: advances_def allocate_reserve_def award_locks_def winner_def available_bed_def insert_absorb)
  have "filter (\<lambda>x. r_id x = r_id r) (referrals d) = [r]"
    using filter_by_key [OF schema_ok_keys(3) [OF ok]] w by (auto simp: winner_def)
  with point.awarded [OF w v ins]
  show "advances skip d (Allocate i now bed) (allocate_match bed b r)
      [New_reservation v, Bed_version (b\<lparr>b_status := ''reserved''\<rparr>)] (award_locks v)"
    using v by (simp add: advances_def allocate_match_def award_locks_def insert_absorb)
qed

lemma applying_advances:
  "advances skip d (Apply event bed ns sq now) (apply_program event bed ns sq now) [] {}"
proof (cases "event \<in> e_event_id ` set (applied_events d)")
  case True
  then show ?thesis
    by (simp add: advances_def apply_program_def insert_applied_event_def point.given_up)
next
  case False
  from point.recorded [OF this, of bed ns sq now] False show ?thesis
    by (simp add: advances_def apply_program_def insert_applied_event_def)
qed

lemma recorded_advances:
  assumes ok: "schema_ok d" and new: "event \<notin> e_event_id ` set (applied_events d)"
  shows "advances skip d (Apply event bed ns sq now) (apply_locked bed ns sq)
    [New_event \<lparr>e_event_id = event, e_bed_id = bed, e_applied_at = now\<rparr>] {Event_lock event}"
    (is "advances _ _ _ _ [?E] _")
proof -
  have ok1: "schema_ok (view [?E] d)" using ok new by (simp add: schema_ok_def)
  show ?thesis
  proof (rule select_bed_statement [OF ok1, of skip bed])
    assume "answer_of skip (Select_bed_for_update bed) (view [?E] d) = Bed None"
    then show ?thesis
      by (simp add: advances_def apply_locked_def point.given_up)
  next
    fix b assume b: "answer_of skip (Select_bed_for_update bed) (view [?E] d) = Bed (Some b)"
      "b \<in> set (beds (view [?E] d))" "b_id b = bed"
      "locks_of skip (Select_bed_for_update bed) (view [?E] d) = {Bed_lock bed}"
    have next_point: "point d (Apply event bed ns sq now) (apply_update bed ns sq b) [?E]
        {Event_lock event, Bed_lock bed}" if "\<not> sint sq \<le> sint (b_last_event_sequence b)"
      by (rule point.located) (use b(2,3) new that in \<open>simp add: applicable_def\<close>)
    with b show ?thesis
      by (simp add: advances_def apply_locked_def point.given_up insert_commute
          del: answer_of.simps locks_of.simps view_simps)
  qed
qed

lemma located_advances:
  assumes ok: "schema_ok d" and app: "applicable d event bed sq b"
  shows "advances skip d (Apply event bed ns sq now) (apply_update bed ns sq b)
    [New_event \<lparr>e_event_id = event, e_bed_id = bed, e_applied_at = now\<rparr>]
    {Event_lock event, Bed_lock bed}"
proof -
  have "filter (\<lambda>x. b_id x = bed) (beds d) = [b]"
    using filter_by_key [OF schema_ok_keys(2) [OF ok]] app by (auto simp: applicable_def)
  with point.updated [OF app, of ns now] app show ?thesis
    by (simp add: advances_def apply_update_def event_versions_def applicable_def insert_absorb
        insert_commute)
qed

lemma updated_advances:
  assumes app: "applicable d event bed sq b"
  shows "advances skip d (Apply event bed ns sq now) (apply_lifecycle bed ns b)
    (event_versions event bed ns sq now b) {Event_lock event, Bed_lock bed}"
proof (cases "releasing ns")
  case True
  then have prog: "apply_lifecycle bed ns b = Execute (Release_reservations bed) (\<lambda>a.
      case returned_of a of
        Some referral \<Rightarrow> Execute (Repend_referral referral) (\<lambda>_. apply_finish ns b)
      | None \<Rightarrow> apply_finish ns b)"
    by (auto simp: apply_lifecycle_def releasing_def)
  show ?thesis
  proof (cases "live_on bed d")
    case Nil
    from point.unheld [OF app True this, of now] Nil show ?thesis
      by (simp add: advances_def prog live_on_def)
  next
    case (Cons v vs)
    from point.released [OF app True this, of now] Cons show ?thesis
      by (simp add: advances_def prog live_on_def released_versions_def insert_commute
          del: set_filter)
  qed
next
  case False
  show ?thesis
  proof (cases "ns = Occupied")
    case True
    from point.checked_in [OF app True, of now] True show ?thesis
      by (simp add: advances_def apply_lifecycle_def active_on_def checked_in_versions_def)
  next
    case other: False
    with False have "ns = Reserved" by (cases ns) (auto simp: releasing_def)
    then show ?thesis by (simp add: advances_def apply_lifecycle_def apply_finish_def)
  qed
qed

lemma live_on_set: "v \<in> set (live_on bed d) \<longleftrightarrow> v \<in> set (reservations d) \<and> v_bed_id v = bed \<and> is_live v"
  by (auto simp: live_on_def)

text \<open>The referral of a live reservation is matched, so re-pending finds and locks its row.\<close>

lemma matched_row:
  assumes inv: "booking_inv d" and v: "v \<in> set (live_on bed d)"
  obtains r where "r \<in> set (referrals d)" "r_id r = v_referral_id v" "r_status r = ''matched''"
    "filter (\<lambda>x. r_id x = v_referral_id v \<and> r_status x = ''matched'') (referrals d) = [r]"
proof -
  have live: "v \<in> set (reservations d)" "is_live v" using v by (simp_all add: live_on_set)
  obtain r where r: "r \<in> set (referrals d)" "r_id r = v_referral_id v"
    using schema_ok_reservation [OF booking_inv_parts(1) [OF inv] live(1)] by blast
  have m: "r_status r = ''matched''" by (rule live_matched [OF inv r(1) live r(2)])
  have "filter (\<lambda>x. r_id x = r_id r) (referrals d) = [r]"
    by (rule filter_by_key [OF schema_ok_keys(3) [OF booking_inv_parts(1) [OF inv]] r(1)])
  then have "filter (\<lambda>x. r_status x = ''matched'') (filter (\<lambda>x. r_id x = r_id r) (referrals d)) = [r]"
    using m by simp
  then have "filter (\<lambda>x. r_id x = v_referral_id v \<and> r_status x = ''matched'') (referrals d) = [r]"
    by (simp add: r(2) conj_commute)
  with r m show thesis by (rule that)
qed

lemma released_advances:
  assumes inv: "booking_inv d" and app: "applicable d event bed sq b" and rel: "releasing ns"
    and vs: "live_on bed d = v # vs"
  shows "advances skip d (Apply event bed ns sq now)
    (Execute (Repend_referral (v_referral_id v)) (\<lambda>_. apply_finish ns b))
    (event_versions event bed ns sq now b @ released_versions bed d)
    ({Event_lock event, Bed_lock bed} \<union> (\<lambda>v. Reservation_lock (v_id v)) ` set (live_on bed d))"
proof -
  have "v \<in> set (live_on bed d)" using vs by simp
  then obtain r where r: "r \<in> set (referrals d)" "r_id r = v_referral_id v"
    "filter (\<lambda>x. r_id x = v_referral_id v \<and> r_status x = ''matched'') (referrals d) = [r]"
    by (rule matched_row [OF inv])
  from point.repended [OF app rel vs r(1,2), of now] r(3) show ?thesis
    by (simp add: advances_def insert_commute)
qed

lemma final_advances:
  "advances skip d q (Rollback r) ws h" "advances skip d q (allocate_done bed b rr) ws h"
  "advances skip d q (apply_finish ns b) ws h"
  by (simp_all add: advances_def allocate_done_def apply_finish_def)

lemma point_advances:
  assumes "point d q p ws h" and inv: "booking_inv d"
  shows "advances skip d q p ws h"
proof -
  note ok = booking_inv_parts(1) [OF inv]
  note steps = allocating_advances bed_locked_advances choosing_advances chosen_advances
    reserved_advances applying_advances recorded_advances located_advances updated_advances
    released_advances final_advances
  from assms(1) show ?thesis
    by (induction rule: point.induct) (rule steps; (rule ok inv | assumption))+
qed

subsection \<open>The commit\<close>

lemma put_update:
  assumes "distinct (map key xs)" and "x \<in> set xs" and "key (f x) = key x"
  shows "put key (f x) xs = update_where (\<lambda>y. key y = key x) f xs"
  using distinct_key_eq [OF assms(1) _ assms(2)] assms(3) by (auto simp: put_def update_where_def)

lemma award_view:
  assumes ok: "schema_ok d" and w: "winner d bed b s u r"
    and v: "v = new_reservation i bed (r_id r) now"
  shows "view [New_reservation v, Bed_version (b\<lparr>b_status := ''reserved''\<rparr>),
      Referral_version (r\<lparr>r_status := ''matched''\<rparr>)] d = award v d"
  using put_update [OF schema_ok_keys(2) [OF ok], of b "b_status_update (\<lambda>_. ''reserved'')"]
    put_update [OF schema_ok_keys(3) [OF ok], of r "r_status_update (\<lambda>_. ''matched'')"] w v
  by (auto simp: award_def set_bed_status_def set_referral_status_def table_update_defs winner_def
      available_bed_def)

lemma event_view:
  assumes ok: "schema_ok d" and app: "applicable d event bed sq b"
  shows "view (event_versions event bed ns sq now b) d =
    update_beds (\<lambda>b. b_id b = bed)
      (\<lambda>b. b\<lparr>b_status := BedStatus_as_db_str ns, b_last_event_sequence := sq\<rparr>)
      (d\<lparr>applied_events := applied_events d @
         [\<lparr>e_event_id = event, e_bed_id = bed, e_applied_at = now\<rparr>]\<rparr>)"
  using put_update [OF schema_ok_keys(2) [OF ok], of b
      "\<lambda>b. b\<lparr>b_status := BedStatus_as_db_str ns, b_last_event_sequence := sq\<rparr>"] app
  by (auto simp: event_versions_def update_beds_def applicable_def)

lemma released_view:
  assumes "schema_ok d" and "reservations e = reservations d"
  shows "view (released_versions bed d) e = snd (release_reservations bed e)"
    and "view (checked_in_versions bed d) e =
      update_reservations (\<lambda>v. v_bed_id v = bed \<and> v_status v = ''active'')
        (\<lambda>v. v\<lparr>v_status := ''checked_in''\<rparr>) e"
  using view_updates(3) [of e "v_status_update (\<lambda>_. ''released'')"]
    view_updates(3) [of e "v_status_update (\<lambda>_. ''checked_in'')"] schema_ok_keys(4) [OF assms(1)] assms(2)
  by (simp_all add: released_versions_def checked_in_versions_def live_on_def active_on_def
      release_reservations_def)

lemma repended_view:
  assumes inv: "booking_inv d" and vs: "live_on bed d = v # vs"
    and r: "r \<in> set (referrals d)" "r_id r = v_referral_id v" and e: "referrals e = referrals d"
  shows "view [Referral_version (r\<lparr>r_status := ''pending''\<rparr>)] e =
    update_referrals (\<lambda>r. r_id r = v_referral_id v \<and> r_status r = ''matched'')
      (\<lambda>r. r\<lparr>r_status := ''pending''\<rparr>) e"
proof -
  have v: "v \<in> set (live_on bed d)" using vs by simp
  note keys = schema_ok_keys(3) [OF booking_inv_parts(1) [OF inv]]
  have "x = r" if "x \<in> set (referrals d)" "r_id x = v_referral_id v" for x
    using distinct_key_eq [OF keys that(1) r(1)] that(2) r(2) by simp
  moreover have "r_status r = ''matched''"
    using live_matched [OF inv r(1) _ _ r(2)] v by (simp add: live_on_set)
  ultimately have "update_where (\<lambda>x. r_id x = v_referral_id v \<and> r_status x = ''matched'') f (referrals d) =
      update_where (\<lambda>x. r_id x = r_id r) f (referrals d)" for f
    using r(2) by (intro update_where_eq) auto
  then show ?thesis
    using put_update [OF keys r(1), of "r_status_update (\<lambda>_. ''pending'')"] e
    by (simp add: update_referrals_def)
qed

text \<open>The tables that an event leaves, at each of its last points.\<close>

lemma applied_view:
  assumes inv: "booking_inv d" and app: "applicable d event bed sq b"
  shows "ns = Occupied \<Longrightarrow> view (event_versions event bed ns sq now b @ checked_in_versions bed d) d =
      applied_db event bed ns sq now d"
    and "releasing ns \<Longrightarrow> live_on bed d = [] \<Longrightarrow> view (event_versions event bed ns sq now b) d =
      applied_db event bed ns sq now d"
    and "ns = Reserved \<Longrightarrow> view (event_versions event bed ns sq now b) d =
      applied_db event bed ns sq now d"
    and "releasing ns \<Longrightarrow> live_on bed d = v # vs \<Longrightarrow> r \<in> set (referrals d) \<Longrightarrow>
      r_id r = v_referral_id v \<Longrightarrow>
      view (event_versions event bed ns sq now b @ released_versions bed d @
        [Referral_version (r\<lparr>r_status := ''pending''\<rparr>)]) d = applied_db event bed ns sq now d"
proof -
  note ok = booking_inv_parts(1) [OF inv]
  let ?d = "view (event_versions event bed ns sq now b) d"
  have start: "applied_db event bed ns sq now d = reservation_lifecycle ns bed ?d"
    unfolding applied_db_def event_view [OF ok app] ..
  have rel: "reservation_lifecycle ns bed ?d =
      (case fetch_optional (live_on bed d) of
         Some v \<Rightarrow> update_referrals (\<lambda>r. r_id r = v_referral_id v \<and> r_status r = ''matched'')
           (\<lambda>r. r\<lparr>r_status := ''pending''\<rparr>) (snd (release_reservations bed ?d))
       | None \<Rightarrow> snd (release_reservations bed ?d))" if "releasing ns"
    using that
    by (auto simp: reservation_lifecycle_def releasing_def release_reservations_def live_on_def
        split: option.split)
  note views = released_view [OF ok, of ?d bed, simplified]
  show "view (event_versions event bed ns sq now b @ checked_in_versions bed d) d =
      applied_db event bed ns sq now d" if "ns = Occupied"
    using start views(2) that by (simp add: reservation_lifecycle_def)
  show "?d = applied_db event bed ns sq now d" if "ns = Reserved"
    using start that by (simp add: reservation_lifecycle_def)
  show "?d = applied_db event bed ns sq now d" if "releasing ns" "live_on bed d = []"
    using views(1) that by (simp add: start rel released_versions_def)
  show "view (event_versions event bed ns sq now b @ released_versions bed d @
        [Referral_version (r\<lparr>r_status := ''pending''\<rparr>)]) d = applied_db event bed ns sq now d"
    if "releasing ns" "live_on bed d = v # vs" "r \<in> set (referrals d)" "r_id r = v_referral_id v"
    using repended_view [OF inv that(2-4), of "snd (release_reservations bed ?d)"] that views(1)
    by (simp add: start rel release_reservations_def update_reservations_def)
qed

lemma point_commit:
  assumes "point d q (Commit reply) ws h" and inv: "booking_inv d"
  obtains (award) i now bed b s u r v where "q = Allocate i now bed" "winner d bed b s u r"
      "v = new_reservation i bed (r_id r) now" "insertable d v" "h = award_locks v"
      "reply = Allocation (Inr (Some \<lparr>bed_id = bed, shelter_id = b_shelter_id b, referral_id = r_id r\<rparr>))"
      "view ws d = award v d"
  | (event) event bed ns sq now b where "q = Apply event bed ns sq now"
      "applicable d event bed sq b" "{Event_lock event, Bed_lock bed} \<subseteq> h"
      "\<And>v. releasing ns \<Longrightarrow> v \<in> set (live_on bed d) \<Longrightarrow> Referral_lock (v_referral_id v) \<in> h"
      "reply = Application (Inr (Applied (b_shelter_id b) (ns = Available \<and> b_status b \<noteq> ''available'')))"
      "view ws d = applied_db event bed ns sq now d"
  using assms(1)
proof cases
  case (awarded bed b s u r v i now)
  with award_view [OF booking_inv_parts(1) [OF inv]] show ?thesis
    by (intro award) (simp_all add: allocate_done_def)
next
  case (updated event bed sq b ns now)
  then have "ns = Reserved" by (cases ns) (simp_all add: apply_lifecycle_def)
  with updated applied_view(3) [OF inv updated(5)] show ?thesis
    by (intro event) (simp_all add: apply_lifecycle_def apply_finish_def releasing_def)
next
  case (checked_in event bed sq b ns now)
  with applied_view(1) [OF inv checked_in(5)] show ?thesis
    by (intro event) (auto simp: apply_finish_def releasing_def)
next
  case (unheld event bed sq b ns now)
  with applied_view(2) [OF inv unheld(5)] show ?thesis
    by (intro event) (simp_all add: apply_finish_def)
next
  case (repended event bed sq b ns v vs r now)
  have only: "w = v" if "w \<in> set (live_on bed d)" for w
    using no_double_bookingD [OF inv, of w v] that repended(7)
    by (metis list.set_intros(1) live_on_set)
  have "Referral_lock (v_referral_id w) \<in> h" if "w \<in> set (live_on bed d)" for w
    using only [OF that] repended(4,9) by simp
  with repended applied_view(4) [OF inv repended(5-9)] show ?thesis
    by (intro event) (simp_all add: apply_finish_def)
qed (simp_all add: allocate_program_def allocate_locked_def allocate_choose_def allocate_write_def
    allocate_reserve_def allocate_match_def apply_program_def apply_locked_def apply_update_def)

lemma winner_is_choice:
  assumes ok: "schema_ok d" and w: "winner d bed b s u r"
  shows "choose_referral (\<lambda>k. k \<noteq> r_id r) (s_region s) (attrs_of u b) d = Some r"
proof -
  let ?skip = "\<lambda>k. k \<noteq> r_id r"
  have r: "r \<in> set (referrals d)" "pending_filter (s_region s) (attrs_of u b) r"
    using w by (simp_all add: winner_def)
  obtain x where x: "choose_referral ?skip (s_region s) (attrs_of u b) d = Some x"
    using choose_referral_None [of ?skip "s_region s" "attrs_of u b" d] r by fastforce
  with choose_referral_Some(1,3) [OF x] distinct_key_eq [OF schema_ok_keys(3) [OF ok] _ r(1)]
  show ?thesis by simp
qed

text \<open>
  A commit is the atomic transaction on the rows stored at that moment; for an allocation, the
  atomic one that passes over every referral but the chosen one.
\<close>

lemma point_commit_atomic:
  assumes "point d q (Commit reply) ws h" and inv: "booking_inv d"
  shows "\<exists>skip. atomically skip q d = (reply, view ws d)"
  using assms
proof (cases rule: point_commit)
  case (award i now bed b s u r v)
  let ?skip = "\<lambda>k. k \<noteq> r_id r"
  note ok = booking_inv_parts(1) [OF inv]
  have w: "available_bed d bed b" "housed d b s u" using award(2) by (simp_all add: winner_def)
  have bed: "fetch_optional (filter (\<lambda>b. b_id b = bed) (beds d)) = Some b"
    using bed_by_id [OF ok] w(1) by (auto simp: available_bed_def)
  have shelter: "fetch_optional (filter (\<lambda>s. s_id s = b_shelter_id b) (shelters d)) = Some s"
    using fetch_by_key [OF schema_ok_keys(1) [OF ok], of s] w(2) by (auto simp: housed_def)
  have "b_status b = ''available''" "UnitType_from_db_str (b_unit_type b) = Inr u"
    using w by (simp_all add: available_bed_def housed_def)
  note run = allocate_tx_decides [OF bed this(1) shelter this(2), of ?skip i now]
  have "allocate_tx ?skip i now bed d =
      (Inr (Some \<lparr>bed_id = bed, shelter_id = b_shelter_id b, referral_id = r_id r\<rparr>), award v d)"
    unfolding run using award(3,4) winner_is_choice [OF ok award(2)] by (simp add: insertable_def)
  with award show ?thesis by (intro exI [of _ ?skip]) simp
next
  case (event event bed ns sq now b)
  have "fetch_optional (filter (\<lambda>b. b_id b = bed) (beds d)) = Some b"
    using bed_by_id [OF booking_inv_parts(1) [OF inv]] event(2) by (auto simp: applicable_def)
  then have "apply_tx event bed ns sq now d =
      (Inr (Applied (b_shelter_id b) (ns = Available \<and> b_status b \<noteq> ''available'')),
       applied_db event bed ns sq now d)"
    using event(2) by (simp add: apply_tx_def insert_applied_event_def applicable_def applied_db_def)
  with event show ?thesis by simp
qed

subsection \<open>The other replies\<close>

text \<open>
  A transaction that gives up does so on the answer of a statement, and its reply is the one the
  atomic transaction gives on the rows stored at that moment, which it leaves as they are.  Up
  to the choice of the referral the rest of the program, run alone, is the whole of it.
\<close>

lemma rest_alone:
  assumes ok: "schema_ok d"
  shows "available_bed d bed b \<Longrightarrow>
      run_alone skip (allocate_program i now bed) [] d = run_alone skip (allocate_locked i now bed b) [] d"
    and "housed d b s u \<Longrightarrow> run_alone skip (allocate_locked i now bed b) [] d =
      run_alone skip (allocate_choose i now bed b (s_region s) (attrs_of u b)) [] d"
    and "housed d b s u \<Longrightarrow> choose_referral skip (s_region s) (attrs_of u b) d = Some r \<Longrightarrow>
      run_alone skip (allocate_choose i now bed b (s_region s) (attrs_of u b)) [] d =
      run_alone skip (allocate_write i now bed b r) [] d"
    and "event \<notin> e_event_id ` set (applied_events d) \<Longrightarrow>
      run_alone skip (apply_program event bed ns sq now) [] d =
      run_alone skip (apply_locked bed ns sq)
        [New_event \<lparr>e_event_id = event, e_bed_id = bed, e_applied_at = now\<rparr>] d"
proof -
  assume "available_bed d bed b"
  then show "run_alone skip (allocate_program i now bed) [] d =
      run_alone skip (allocate_locked i now bed b) [] d"
    using bed_by_id [OF ok, of b] by (auto simp: available_bed_def allocate_program_def)
next
  assume "housed d b s u"
  then show "run_alone skip (allocate_locked i now bed b) [] d =
      run_alone skip (allocate_choose i now bed b (s_region s) (attrs_of u b)) [] d"
    using filter_by_key [OF schema_ok_keys(1) [OF ok], of s]
    by (auto simp: housed_def allocate_locked_def attrs_of_def)
next
  assume "housed d b s u" and r: "choose_referral skip (s_region s) (attrs_of u b) d = Some r"
  then show "run_alone skip (allocate_choose i now bed b (s_region s) (attrs_of u b)) [] d =
      run_alone skip (allocate_write i now bed b r) [] d"
    using chosen_checks [OF _ choose_referral_Some(2) [OF r]]
    by (simp add: housed_def allocate_choose_def needs_of_def)
next
  assume "event \<notin> e_event_id ` set (applied_events d)"
  then show "run_alone skip (apply_program event bed ns sq now) [] d =
      run_alone skip (apply_locked bed ns sq)
        [New_event \<lparr>e_event_id = event, e_bed_id = bed, e_applied_at = now\<rparr>] d"
    by (simp add: apply_program_def insert_applied_event_def)
qed

lemma point_alone:
  assumes "point d q p ws h" and inv: "booking_inv d"
    and gives_up: "p = Execute st k" "k (answer_of skip st (view ws d)) = Rollback reply"
  shows "\<exists>skip. atomically skip q d = (reply, d)"
proof -
  note ok = booking_inv_parts(1) [OF inv]
  have alone: "run_alone skip p ws d = (reply, d)" using gives_up by simp
  note start = program_alone [OF ok, symmetric]
  from assms(1) show ?thesis
  proof cases
    case (allocating i now bed)
    with alone show ?thesis by (intro exI [of _ skip]) (simp add: start)
  next
    case (bed_locked bed b i now)
    with alone rest_alone(1) [OF ok] show ?thesis by (intro exI [of _ skip]) (simp add: start)
  next
    case (choosing bed b s u i now)
    with alone rest_alone(1,2) [OF ok] show ?thesis by (intro exI [of _ skip]) (simp add: start)
  next
    case (chosen bed b s u r i now)
    let ?skip = "\<lambda>k. k \<noteq> r_id r"
    have st: "st = Insert_reservation \<lparr>v_id = i, v_bed_id = bed, v_referral_id = r_id r,
        v_reserved_at = now, v_status = ''active''\<rparr>"
      using gives_up(1) chosen by (simp add: allocate_write_def)
    have "run_alone ?skip p ws d = (reply, d)" using gives_up by (simp add: st)
    moreover have "available_bed d bed b" "housed d b s u" using chosen(5) by (simp_all add: winner_def)
    ultimately show ?thesis
      using chosen rest_alone(1-3) [OF ok] winner_is_choice [OF ok chosen(5)]
      by (intro exI [of _ ?skip]) (simp add: start)
  next
    case (applying event bed ns sq now)
    with alone show ?thesis by (intro exI [of _ skip]) (simp add: start)
  next
    case (recorded event bed ns sq now)
    with alone rest_alone(4) [OF ok] show ?thesis by (intro exI [of _ skip]) (simp add: start)
  qed (use gives_up in \<open>auto simp: allocate_reserve_def allocate_match_def allocate_done_def
      apply_update_def apply_lifecycle_def apply_finish_def split: if_splits option.splits\<close>)
qed

end
