(* ===== verification/Refinement.thy ===== *)
theory Refinement
  imports System
begin

section \<open>Simulations between step systems\<close>

text \<open>
  A concrete system whose states carry an invariant \<open>I\<close>; every step of it is seen by \<open>abs\<close> as one
  step of the abstract system or as no step.
\<close>

locale simulation =
  fixes cstep :: "'c \<Rightarrow> 'c \<Rightarrow> bool" and astep :: "'a \<Rightarrow> 'a \<Rightarrow> bool"
    and abs :: "'c \<Rightarrow> 'a" and I :: "'c \<Rightarrow> bool"
  assumes keeps: "I c \<Longrightarrow> cstep c c' \<Longrightarrow> I c'"
    and seen: "I c \<Longrightarrow> cstep c c' \<Longrightarrow> abs c' = abs c \<or> astep (abs c) (abs c')"
begin

lemma run_keeps: "cstep\<^sup>*\<^sup>* c c' \<Longrightarrow> I c \<Longrightarrow> I c'"
  by (induction rule: rtranclp_induct) (auto intro: keeps)

lemma run_seen: "cstep\<^sup>*\<^sup>* c c' \<Longrightarrow> I c \<Longrightarrow> astep\<^sup>*\<^sup>* (abs c) (abs c')"
proof (induction rule: rtranclp_induct)
  case (step c1 c2)
  then have "I c1" using run_keeps by blast
  with step seen have "abs c2 = abs c1 \<or> astep (abs c1) (abs c2)" by blast
  with step show ?case by (auto intro: rtranclp.rtrancl_into_rtrancl)
qed simp

lemma lift_invariant:
  "cstep\<^sup>*\<^sup>* c c' \<Longrightarrow> I c \<Longrightarrow> (\<And>a a'. astep a a' \<Longrightarrow> P a \<Longrightarrow> P a') \<Longrightarrow> P (abs c) \<Longrightarrow> P (abs c')"
proof -
  assume step: "\<And>a a'. astep a a' \<Longrightarrow> P a \<Longrightarrow> P a'" and "P (abs c)"
  have "P a'" if "astep\<^sup>*\<^sup>* (abs c) a'" for a'
    using that by (induction rule: rtranclp_induct) (use \<open>P (abs c)\<close> step in auto)
  then show "cstep\<^sup>*\<^sup>* c c' \<Longrightarrow> I c \<Longrightarrow> P (abs c')" using run_seen by blast
qed

end

text \<open>Two simulations, one above the other, are a simulation.\<close>

locale stacked_simulation =
  fine: simulation cstep mstep abs I + coarse: simulation mstep astep abs' I'
  for cstep :: "'c \<Rightarrow> 'c \<Rightarrow> bool" and mstep :: "'m \<Rightarrow> 'm \<Rightarrow> bool" and abs and I
    and astep :: "'a \<Rightarrow> 'a \<Rightarrow> bool" and abs' and I'
begin

lemma stacked_keeps: "I c \<and> I' (abs c) \<Longrightarrow> cstep c c' \<Longrightarrow> I c' \<and> I' (abs c')"
  using fine.keeps fine.seen coarse.keeps by metis

lemma stacked_seen:
  "I c \<and> I' (abs c) \<Longrightarrow> cstep c c' \<Longrightarrow> abs' (abs c') = abs' (abs c) \<or> astep (abs' (abs c)) (abs' (abs c'))"
  using fine.seen coarse.seen by metis

end

sublocale stacked_simulation \<subseteq> whole: simulation cstep astep "\<lambda>c. abs' (abs c)" "\<lambda>c. I c \<and> I' (abs c)"
  by unfold_locales (use stacked_keeps stacked_seen in blast)+

end
