(* ===== verification/Board.thy ===== *)
theory Board
  imports Refinement
begin

section \<open>The contract of the matcher: a board of beds and a line of people\<close>

text \<open>
  What the matcher promises, without rows, texts or reservations: a board that shows the status
  of every bed and who holds it, and the line of those who wait.  An award gives an available
  bed to somebody in line; a report sets the status of a bed, and one that makes it available or
  takes it into maintenance sends its holder back to the line.  The database refines the board.
\<close>

record board =
  bd_status :: "uuid \<Rightarrow> BedStatus option"
  bd_holder :: "uuid \<Rightarrow> uuid option"
  bd_line :: "uuid set"

definition award_on_board :: "uuid \<Rightarrow> uuid \<Rightarrow> board \<Rightarrow> board" where
  "award_on_board bed person B = B\<lparr>bd_status := (bd_status B)(bed \<mapsto> Reserved),
     bd_holder := (bd_holder B)(bed \<mapsto> person), bd_line := bd_line B - {person}\<rparr>"

definition report_on_board :: "uuid \<Rightarrow> BedStatus \<Rightarrow> board \<Rightarrow> board" where
  "report_on_board bed status B =
     (if status \<in> {Available, Maintenance}
      then B\<lparr>bd_status := (bd_status B)(bed \<mapsto> status), bd_holder := (bd_holder B)(bed := None),
             bd_line := bd_line B \<union> set_option (bd_holder B bed)\<rparr>
      else B\<lparr>bd_status := (bd_status B)(bed \<mapsto> status)\<rparr>)"

inductive board_step :: "BedStatus set \<Rightarrow> board \<Rightarrow> board \<Rightarrow> bool" for A where
  join: "person \<notin> bd_line B \<Longrightarrow> person \<notin> ran (bd_holder B) \<Longrightarrow>
     board_step A B (B\<lparr>bd_line := insert person (bd_line B)\<rparr>)"
| award: "bd_status B bed = Some Available \<Longrightarrow> person \<in> bd_line B \<Longrightarrow>
     board_step A B (award_on_board bed person B)"
| report: "bd_status B bed = Some old \<Longrightarrow> status \<in> A \<Longrightarrow>
     board_step A B (report_on_board bed status B)"
| put_up: "bd_status B bed = None \<Longrightarrow> bd_holder B bed = None \<Longrightarrow> status \<in> {Available, Occupied} \<Longrightarrow>
     board_step A B (B\<lparr>bd_status := (bd_status B)(bed \<mapsto> status)\<rparr>)"

text \<open>
  The contract: nobody holds two beds, nobody holds a bed and waits, and a bed that is free or in
  maintenance has no holder.
\<close>

definition board_ok :: "board \<Rightarrow> bool" where
  "board_ok B \<longleftrightarrow>
     (\<forall>bed bed' person. bd_holder B bed = Some person \<longrightarrow> bd_holder B bed' = Some person \<longrightarrow> bed = bed') \<and>
     (\<forall>bed person. bd_holder B bed = Some person \<longrightarrow> person \<notin> bd_line B) \<and>
     (\<forall>bed. bd_status B bed \<in> {None, Some Available, Some Maintenance} \<longrightarrow> bd_holder B bed = None)"

lemma board_step_ok: "board_step A B B' \<Longrightarrow> board_ok B \<Longrightarrow> board_ok B'"
proof (induction rule: board_step.induct)
  case (join person B)
  then show ?case by (auto simp: board_ok_def ran_def)
next
  case (award B bed person)
  then show ?case by (auto simp: board_ok_def award_on_board_def)
next
  case (report B bed old status)
  then show ?case by (auto simp: board_ok_def report_on_board_def)
next
  case (put_up B bed status)
  then show ?case by (auto simp: board_ok_def)
qed

subsection \<open>The board that a database shows\<close>

definition status_shown :: "db \<Rightarrow> uuid \<Rightarrow> BedStatus option" where
  "status_shown d bed =
     (case fetch_optional (filter (\<lambda>b. b_id b = bed) (beds d)) of
        None \<Rightarrow> None
      | Some b \<Rightarrow> (case BedStatus_from_db_str (b_status b) of Inl e \<Rightarrow> None | Inr st \<Rightarrow> Some st))"

definition holder_shown :: "db \<Rightarrow> uuid \<Rightarrow> uuid option" where
  "holder_shown d bed = map_option v_referral_id
     (fetch_optional (filter (\<lambda>v. v_bed_id v = bed \<and> is_live v) (reservations d)))"

definition line_shown :: "db \<Rightarrow> uuid set" where
  "line_shown d = r_id ` set (filter (\<lambda>r. r_status r = ''pending'') (referrals d))"

definition board_of :: "db \<Rightarrow> board" where
  "board_of d = \<lparr>bd_status = status_shown d, bd_holder = holder_shown d, bd_line = line_shown d\<rparr>"

lemma board_of_sel [simp]:
  "bd_status (board_of d) = status_shown d" "bd_holder (board_of d) = holder_shown d"
  "bd_line (board_of d) = line_shown d"
  by (simp_all add: board_of_def)

lemma option_fun_eqI: "(\<And>x y. f x = Some y \<longleftrightarrow> g x = Some y) \<Longrightarrow> f = g"
  by (rule ext) (metis not_None_eq)

lemma status_shown_iff:
  assumes "schema_ok d"
  shows "status_shown d bed = Some st \<longleftrightarrow>
    (\<exists>b\<in>set (beds d). b_id b = bed \<and> b_status b = BedStatus_as_db_str st)"
proof
  assume "status_shown d bed = Some st"
  then obtain b where b: "fetch_optional (filter (\<lambda>b. b_id b = bed) (beds d)) = Some b"
    "BedStatus_from_db_str (b_status b) = Inr st"
    by (auto simp: status_shown_def split: option.splits sum.splits)
  with fetch_filter_Some [OF b(1)] bed_status_codec.of_str_Inr
  show "\<exists>b\<in>set (beds d). b_id b = bed \<and> b_status b = BedStatus_as_db_str st" by blast
next
  assume "\<exists>b\<in>set (beds d). b_id b = bed \<and> b_status b = BedStatus_as_db_str st"
  then obtain b where b: "b \<in> set (beds d)" "b_id b = bed" "b_status b = BedStatus_as_db_str st" by blast
  with bed_by_id [OF assms b(1)] show "status_shown d bed = Some st"
    by (simp add: status_shown_def bed_status_codec.of_to)
qed

lemma status_shown_None:
  assumes "schema_ok d"
  shows "status_shown d bed = None \<longleftrightarrow> bed \<notin> b_id ` set (beds d)"
proof -
  have "\<exists>st. status_shown d (b_id b) = Some st" if b: "b \<in> set (beds d)" for b
  proof -
    have "bed_status_check (b_status b)" using schema_ok_bed [OF assms b] by (simp add: bed_check_def)
    then have "b_status b \<in> {BedStatus_as_db_str Available, BedStatus_as_db_str Reserved,
        BedStatus_as_db_str Occupied, BedStatus_as_db_str Maintenance}"
      by (simp add: bed_status_check_def)
    then show ?thesis using b status_shown_iff [OF assms] by blast
  qed
  moreover have "bed \<in> b_id ` set (beds d)" if "status_shown d bed = Some st" for st
    using that unfolding status_shown_iff [OF assms] by auto
  ultimately show ?thesis by (metis (no_types, lifting) image_iff not_None_eq)
qed

lemma holder_shown_iff:
  assumes "booking_inv d"
  shows "holder_shown d bed = Some person \<longleftrightarrow>
    (\<exists>v\<in>set (reservations d). is_live v \<and> v_bed_id v = bed \<and> v_referral_id v = person)"
proof
  assume "holder_shown d bed = Some person"
  then obtain v where v: "fetch_optional (filter (\<lambda>v. v_bed_id v = bed \<and> is_live v) (reservations d)) = Some v"
    "v_referral_id v = person"
    by (auto simp: holder_shown_def)
  with fetch_filter_Some [OF v(1)]
  show "\<exists>v\<in>set (reservations d). is_live v \<and> v_bed_id v = bed \<and> v_referral_id v = person" by blast
next
  assume "\<exists>v\<in>set (reservations d). is_live v \<and> v_bed_id v = bed \<and> v_referral_id v = person"
  then obtain v where v: "v \<in> set (reservations d)" "is_live v" "v_bed_id v = bed" "v_referral_id v = person"
    by blast
  obtain w where w: "fetch_optional (filter (\<lambda>v. v_bed_id v = bed \<and> is_live v) (reservations d)) = Some w"
    using fetch_filter_exists [of v "reservations d" "\<lambda>v. v_bed_id v = bed \<and> is_live v"] v by auto
  have "w = v"
    using no_double_bookingD [OF assms _ v(1) _ v(2)] fetch_filter_Some [OF w] v(3) by simp
  with w v show "holder_shown d bed = Some person" by (simp add: holder_shown_def)
qed

lemma line_shown_iff:
  "person \<in> line_shown d \<longleftrightarrow> (\<exists>r\<in>set (referrals d). r_status r = ''pending'' \<and> r_id r = person)"
  by (auto simp: line_shown_def)

text \<open>The tables of two databases with the same content show the same board.\<close>

lemma board_ofI:
  assumes inv: "booking_inv d'"
    and st: "\<And>bed st. (\<exists>b\<in>set (beds d'). b_id b = bed \<and> b_status b = BedStatus_as_db_str st) \<longleftrightarrow>
      bd_status B bed = Some st"
    and hold: "\<And>bed person. (\<exists>v\<in>set (reservations d'). is_live v \<and> v_bed_id v = bed \<and> v_referral_id v = person) \<longleftrightarrow>
      bd_holder B bed = Some person"
    and wait: "\<And>person. (\<exists>r\<in>set (referrals d'). r_status r = ''pending'' \<and> r_id r = person) \<longleftrightarrow>
      person \<in> bd_line B"
  shows "board_of d' = B"
proof -
  note ok = booking_inv_parts(1) [OF inv]
  have "status_shown d' = bd_status B"
    by (rule option_fun_eqI) (simp only: status_shown_iff [OF ok] st)
  moreover have "holder_shown d' = bd_holder B"
    by (rule option_fun_eqI) (simp only: holder_shown_iff [OF inv] hold)
  moreover have "line_shown d' = bd_line B"
    by (rule set_eqI) (simp only: line_shown_iff wait)
  ultimately show ?thesis by (simp add: board_of_def)
qed

subsection \<open>The transactions on the board\<close>

lemma updated_beds_iff:
  assumes "\<And>b. b_id (f b) = b_id b"
  shows "(\<exists>b'\<in>set (update_where (\<lambda>b. b_id b = bed) f (beds d)). b_id b' = k \<and> P b') \<longleftrightarrow>
    (\<exists>b\<in>set (beds d). b_id b = k \<and> P (if k = bed then f b else b))"
  using assms by (auto simp: set_update_where)

lemma updated_referrals_iff:
  assumes "\<And>r. r_id (f r) = r_id r"
  shows "(\<exists>r'\<in>set (update_where (\<lambda>r. r_id r = i) f (referrals d)). P r' \<and> r_id r' = k) \<longleftrightarrow>
    (\<exists>r\<in>set (referrals d). P (if k = i then f r else r) \<and> r_id r = k)"
  using assms by (auto simp: set_update_where)

lemma award_shown:
  assumes inv: "booking_inv d" and inv': "booking_inv (award v d)" and v: "is_live v"
    and b: "b \<in> set (beds d)" "b_id b = v_bed_id v" "b_status b = ''available''"
  shows "board_of (award v d) = award_on_board (v_bed_id v) (v_referral_id v) (board_of d)"
proof (rule board_ofI [OF inv'])
  note ok = booking_inv_parts(1) [OF inv]
  have reserved: "''reserved'' = BedStatus_as_db_str st \<longleftrightarrow> st = Reserved" for st
    by (cases st) simp_all
  show "(\<exists>b\<in>set (beds (award v d)). b_id b = bed \<and> b_status b = BedStatus_as_db_str st) \<longleftrightarrow>
      bd_status (award_on_board (v_bed_id v) (v_referral_id v) (board_of d)) bed = Some st" for bed st
    using b by (auto simp: award_on_board_def award_tables updated_beds_iff status_shown_iff [OF ok] reserved)
  have unheld: "v_bed_id w \<noteq> v_bed_id v" if "w \<in> set (reservations d)" "is_live w" for w
    using booking_inv_parts(3) [OF inv] b that by (auto simp: free_beds_unheld_def)
  show "(\<exists>w\<in>set (reservations (award v d)). is_live w \<and> v_bed_id w = bed \<and> v_referral_id w = person) \<longleftrightarrow>
      bd_holder (award_on_board (v_bed_id v) (v_referral_id v) (board_of d)) bed = Some person" for bed person
    using v unheld by (auto simp: award_on_board_def award_tables holder_shown_iff [OF inv])
  show "(\<exists>r\<in>set (referrals (award v d)). r_status r = ''pending'' \<and> r_id r = person) \<longleftrightarrow>
      person \<in> bd_line (award_on_board (v_bed_id v) (v_referral_id v) (board_of d))" for person
    by (auto simp: award_on_board_def award_tables updated_referrals_iff line_shown_iff)
qed

lemma report_shown:
  assumes inv: "booking_inv d" and inv': "booking_inv (applied_db event bed ns sq now d)"
    and b: "b \<in> set (beds d)" "b_id b = bed"
  shows "board_of (applied_db event bed ns sq now d) = report_on_board bed ns (board_of d)"
proof (rule board_ofI [OF inv'])
  note ok = booking_inv_parts(1) [OF inv]
  have ns: "BedStatus_as_db_str ns = BedStatus_as_db_str st \<longleftrightarrow> ns = st" for st
    by (rule bed_status_codec.to_str_inject)
  show "(\<exists>b\<in>set (beds (applied_db event bed ns sq now d)). b_id b = k \<and> b_status b = BedStatus_as_db_str st) \<longleftrightarrow>
      bd_status (report_on_board bed ns (board_of d)) k = Some st" for k st
  proof -
    have "(\<exists>b\<in>set (beds (applied_db event bed ns sq now d)). b_id b = k \<and> b_status b = BedStatus_as_db_str st) \<longleftrightarrow>
        (if k = bed then ns = st else status_shown d k = Some st)"
      using b by (auto simp: applied_db_tables updated_beds_iff status_shown_iff [OF ok] ns)
    then show ?thesis by (simp add: report_on_board_def)
  qed
  have live: "(\<exists>w\<in>set (reservations (applied_db event bed ns sq now d)).
        is_live w \<and> v_bed_id w = k \<and> v_referral_id w = person) \<longleftrightarrow>
      \<not> (k = bed \<and> releasing ns) \<and>
      (\<exists>w\<in>set (reservations d). is_live w \<and> v_bed_id w = k \<and> v_referral_id w = person)" for k person
    by (auto simp: applied_db_tables reservation_after_live)
  show "(\<exists>w\<in>set (reservations (applied_db event bed ns sq now d)).
        is_live w \<and> v_bed_id w = k \<and> v_referral_id w = person) \<longleftrightarrow>
      bd_holder (report_on_board bed ns (board_of d)) k = Some person" for k person
    unfolding live by (auto simp: report_on_board_def releasing_def holder_shown_iff [OF inv])
  show "(\<exists>r\<in>set (referrals (applied_db event bed ns sq now d)). r_status r = ''pending'' \<and> r_id r = person) \<longleftrightarrow>
      person \<in> bd_line (report_on_board bed ns (board_of d))" for person
  proof (cases "releasing ns \<and> (\<exists>v\<in>set (reservations d). is_live v \<and> v_bed_id v = bed)")
    case True
    then obtain v where v: "releasing ns" "v \<in> set (reservations d)" "is_live v" "v_bed_id v = bed"
      by blast
    have holder: "holder_shown d bed = Some (v_referral_id v)"
      unfolding holder_shown_iff [OF inv] using v by blast
    obtain r where "r \<in> set (referrals d)" "r_id r = v_referral_id v"
      using schema_ok_reservation [OF ok v(2)] by blast
    then show ?thesis
      using v(1) by (auto simp: report_on_board_def releasing_def applied_db_tables holder
          referrals_after_releasing [OF inv v] updated_referrals_iff line_shown_iff)
  next
    case False
    then have "holder_shown d bed = None" if "releasing ns"
      using that holder_shown_iff [OF inv, of bed] by (metis not_None_eq)
    with False show ?thesis
      by (auto simp: report_on_board_def releasing_def applied_db_tables referrals_after_unheld line_shown_iff)
  qed
qed

lemma insertion_shown:
  assumes "insert_referral_row r d = Inr d'" and "r_status r = ''pending''"
  shows "board_of d' = board_of d\<lparr>bd_line := insert (r_id r) (bd_line (board_of d))\<rparr>"
  using insert_referral_Inr [OF assms(1)] assms(2)
  by (auto simp: board_of_def status_shown_def [abs_def] holder_shown_def [abs_def] line_shown_def)

lemma new_bed_shown:
  assumes inv: "booking_inv d" and inv': "booking_inv d'" and ins: "insert_bed_row b d = Inr d'"
    and st: "b_status b = BedStatus_as_db_str status"
  shows "board_of d' = board_of d\<lparr>bd_status := (bd_status (board_of d))(b_id b \<mapsto> status)\<rparr>"
proof (rule board_ofI [OF inv'])
  note ok = booking_inv_parts(1) [OF inv]
  have d': "d' = d\<lparr>beds := beds d @ [b]\<rparr>" and fresh: "b_id b \<notin> b_id ` set (beds d)"
    using ins by (auto simp: insert_bed_row_def split: if_splits)
  then have others: "b_id x \<noteq> b_id b" if "x \<in> set (beds d)" for x using that by (metis imageI)
  have same: "BedStatus_as_db_str status = BedStatus_as_db_str st \<longleftrightarrow> status = st" for st
    by (rule bed_status_codec.to_str_inject)
  show "(\<exists>x\<in>set (beds d'). b_id x = k \<and> b_status x = BedStatus_as_db_str st) \<longleftrightarrow>
      bd_status (board_of d\<lparr>bd_status := (bd_status (board_of d))(b_id b \<mapsto> status)\<rparr>) k = Some st" for k st
  proof -
    have "(\<exists>x\<in>set (beds d'). b_id x = k \<and> b_status x = BedStatus_as_db_str st) \<longleftrightarrow>
        (if k = b_id b then status = st else status_shown d k = Some st)"
      unfolding status_shown_iff [OF ok] using others by (auto simp: d' st same)
    then show ?thesis by simp
  qed
qed (use ins holder_shown_iff [OF inv] in
    \<open>auto simp: line_shown_iff insert_bed_row_def split: if_splits\<close>)

lemma reordered_shown:
  assumes inv: "booking_inv d" and re: "reordered d d'"
  shows "board_of d' = board_of d"
  by (rule board_ofI [OF reordered_booking_inv [OF assms]])
    (simp_all add: reordered_sets [OF re] status_shown_iff [OF booking_inv_parts(1) [OF inv]]
      holder_shown_iff [OF inv] line_shown_iff)

subsection \<open>The database refines the board\<close>

lemma award_db_step:
  assumes inv: "booking_inv d" and tx: "allocate_tx locked i now bed d = (Inr (Some a), d')"
  shows "board_of d' = award_on_board bed (referral_id a) (board_of d) \<and> bed_id a = bed \<and>
    status_shown d bed = Some Available \<and> referral_id a \<in> line_shown d"
  using tx
proof (cases rule: allocate_tx_cases)
  case (won b s u r)
  note ok = booking_inv_parts(1) [OF inv]
  have r: "r \<in> set (referrals d)" "r_status r = ''pending''"
    using choose_referral_Some(1,2) [OF won(7)] by (simp_all add: pending_filter_def)
  have "status_shown d bed = Some Available"
    unfolding status_shown_iff [OF ok] using won(1-3) by auto
  moreover have "r_id r \<in> line_shown d" unfolding line_shown_iff using r by blast
  moreover have "booking_inv (award (new_reservation i bed (r_id r) now) d)"
    using allocate_tx_booking_inv [OF inv tx] won(10) by simp
  ultimately show ?thesis
    using award_shown [OF inv, of "new_reservation i bed (r_id r) now" b] won by simp
qed simp_all

lemma report_db_step:
  assumes inv: "booking_inv d" and tx: "apply_tx event bed ns sq now d = (Inr (Applied sh av), d')"
  shows "board_of d' = report_on_board bed ns (board_of d) \<and> (\<exists>old. status_shown d bed = Some old)"
  using tx
proof (cases rule: apply_tx_cases)
  case (applied b)
  note ok = booking_inv_parts(1) [OF inv]
  have "bed \<in> b_id ` set (beds d)" using applied(3,4) by blast
  then have "\<exists>old. status_shown d bed = Some old"
    using status_shown_None [OF ok, of bed] by auto
  moreover have "booking_inv (applied_db event bed ns sq now d)"
    using apply_tx_booking_inv [OF inv tx] applied(7) by simp
  ultimately show ?thesis
    using report_shown [OF inv _ applied(3,4)] applied(7) by simp
qed simp_all

lemma fresh_person:
  assumes inv: "booking_inv d" and fresh: "person \<notin> r_id ` set (referrals d)"
  shows "person \<notin> line_shown d" "person \<notin> ran (holder_shown d)"
proof -
  show "person \<notin> line_shown d" using fresh by (auto simp: line_shown_def)
  have False if "holder_shown d bed = Some person" for bed
  proof -
    from that obtain v where v: "v \<in> set (reservations d)" "v_referral_id v = person"
      unfolding holder_shown_iff [OF inv] by blast
    obtain r where r: "r \<in> set (referrals d)" "r_id r = v_referral_id v"
      using schema_ok_reservation [OF booking_inv_parts(1) [OF inv] v(1)] by blast
    from imageI [OF r(1), of r_id] r(2) v(2) fresh show False by simp
  qed
  then show "person \<notin> ran (holder_shown d)" by (auto simp: ran_def)
qed

lemma fresh_bed:
  assumes inv: "booking_inv d" and fresh: "bed \<notin> b_id ` set (beds d)"
  shows "status_shown d bed = None" "holder_shown d bed = None"
proof -
  show "status_shown d bed = None"
    using status_shown_None [OF booking_inv_parts(1) [OF inv]] fresh by blast
  have False if "holder_shown d bed = Some person" for person
  proof -
    from that obtain v where v: "v \<in> set (reservations d)" "v_bed_id v = bed"
      unfolding holder_shown_iff [OF inv] by blast
    obtain b where b: "b \<in> set (beds d)" "b_id b = v_bed_id v"
      using schema_ok_reservation [OF booking_inv_parts(1) [OF inv] v(1)] by blast
    from imageI [OF b(1), of b_id] b(2) v(2) fresh show False by simp
  qed
  then show "holder_shown d bed = None" by (metis not_None_eq)
qed

lemma db_step_on_board:
  assumes "db_step A d d'" and inv: "booking_inv d"
  shows "board_of d' = board_of d \<or> board_step A (board_of d) (board_of d')"
  using assms
proof (induction rule: db_step.induct)
  case (referral i caseworker region needs vulnerability family now d d')
  from referral(1) obtain r where r: "insert_referral_row r d = Inr d'" "r_status r = ''pending''"
    by (rule insert_referral_Inr_row)
  then have "r_id r \<notin> r_id ` set (referrals d)"
    by (auto simp: insert_referral_row_def split: if_splits)
  note fresh = fresh_person [OF referral(2) this]
  show ?case
    unfolding insertion_shown [OF r] by (intro disjI2 board_step.join) (simp_all add: fresh)
next
  case (allocation locked i now bed d a d')
  note shown = award_db_step [OF allocation(2,1)]
  have "board_step A (board_of d) (award_on_board bed (referral_id a) (board_of d))"
    by (rule board_step.award) (simp_all add: shown)
  with shown show ?case by simp
next
  case (event e bed ns sq now d sh av d')
  from report_db_step [OF event(3,1)] obtain old where
    shown: "board_of d' = report_on_board bed ns (board_of d)" "status_shown d bed = Some old" by blast
  have "board_step A (board_of d) (report_on_board bed ns (board_of d))"
    by (rule board_step.report [OF _ event(2)]) (simp add: shown)
  with shown show ?case by simp
next
  case (shelter s d d')
  then have "beds d' = beds d" "reservations d' = reservations d" "referrals d' = referrals d"
    by (auto simp: insert_shelter_row_def split: if_splits)
  then show ?case
    by (simp add: board_of_def status_shown_def [abs_def] holder_shown_def [abs_def] line_shown_def)
next
  case (bed b d d')
  have "b_id b \<notin> b_id ` set (beds d)"
    using bed(1) by (auto simp: insert_bed_row_def split: if_splits)
  note fresh = fresh_bed [OF bed(3) this]
  have inv': "booking_inv d'" by (rule insert_bed_row_inv [OF bed(3,1)])
  obtain st where st: "b_status b = BedStatus_as_db_str st" "st \<in> {Available, Occupied}"
    using bed(2) that [of Available] that [of Occupied] by auto
  show ?case
    unfolding new_bed_shown [OF bed(3) inv' bed(1) st(1)]
    by (intro disjI2 board_step.put_up [OF _ _ st(2)]) (simp_all add: fresh)
next
  case (reorder d d')
  then show ?case using reordered_shown by simp
qed

interpretation database: simulation "db_step A" "board_step A" board_of booking_inv
  by unfold_locales (use db_step_booking_inv db_step_on_board in blast)+

lemma empty_board_ok: "board_ok (board_of empty_db)"
  by (simp add: board_ok_def status_shown_def holder_shown_def line_shown_def empty_db_def)

lemma reachable_board_ok: "reachable A d \<Longrightarrow> board_ok (board_of d)"
  unfolding reachable_def
  by (erule database.lift_invariant [where P = board_ok, OF _ booking.start _ empty_board_ok])
    (rule board_step_ok)

end
