(* ===== verification/Concurrency.thy ===== *)
theory Concurrency
  imports Serialization Board
begin

section \<open>The simulation of the concurrent server by atomic transactions\<close>

text \<open>
  The server that executes single statements is simulated by the model with atomic
  transactions, and through it by the board; no execution deadlocks, and a transaction that runs
  alone is the atomic one.  The locales of \<open>Refinement\<close> are interpreted here.
\<close>

subsection \<open>The invariant of the server\<close>

definition locks_disjoint :: "server \<Rightarrow> bool" where
  "locks_disjoint c \<longleftrightarrow> (\<forall>t t' x y. t \<noteq> t' \<longrightarrow> running c t = Some x \<longrightarrow> running c t' = Some y \<longrightarrow>
     held x \<inter> held y = {})"

definition all_at_points :: "BedStatus set \<Rightarrow> server \<Rightarrow> bool" where
  "all_at_points A c \<longleftrightarrow> (\<forall>t x. running c t = Some x \<longrightarrow> reports (call x) \<subseteq> A \<and>
     point (stored c) (call x) (rest x) (written x) (held x))"

definition server_inv :: "BedStatus set \<Rightarrow> server \<Rightarrow> bool" where
  "server_inv A c \<longleftrightarrow> booking_inv (stored c) \<and> locks_disjoint c \<and> all_at_points A c"

lemma server_inv_parts:
  assumes "server_inv A c"
  shows "booking_inv (stored c)" "locks_disjoint c" "all_at_points A c"
  using assms by (simp_all add: server_inv_def)

lemma locks_disjointD:
  "locks_disjoint c \<Longrightarrow> t \<noteq> t' \<Longrightarrow> running c t = Some x \<Longrightarrow> running c t' = Some y \<Longrightarrow>
     held x \<inter> held y = {}"
  by (simp add: locks_disjoint_def)

lemma at_point:
  assumes "server_inv A c" and "running c t = Some x"
  shows "reports (call x) \<subseteq> A" "point (stored c) (call x) (rest x) (written x) (held x)"
  using assms by (simp_all add: server_inv_def all_at_points_def)

lemma locks_disjoint_update:
  assumes "locks_disjoint c"
    and "\<And>t' x. t' \<noteq> t \<Longrightarrow> running c t' = Some x \<Longrightarrow> held y \<inter> held x = {}"
  shows "locks_disjoint (c\<lparr>running := (running c)(t \<mapsto> y)\<rparr>)"
  unfolding locks_disjoint_def
proof (intro allI impI)
  fix t1 t2 x1 x2
  assume t: "t1 \<noteq> t2" "running (c\<lparr>running := (running c)(t \<mapsto> y)\<rparr>) t1 = Some x1"
    "running (c\<lparr>running := (running c)(t \<mapsto> y)\<rparr>) t2 = Some x2"
  consider "t1 = t" | "t2 = t" | "t1 \<noteq> t" "t2 \<noteq> t" by blast
  then show "held x1 \<inter> held x2 = {}"
  proof cases
    case 1
    with t assms(2) [of t2 x2] show ?thesis by simp
  next
    case 2
    with t assms(2) [of t1 x1] show ?thesis by (simp add: Int_commute)
  next
    case 3
    with t assms(1) show ?thesis by (simp add: locks_disjoint_def)
  qed
qed

lemma locks_disjoint_frames:
  "locks_disjoint c \<Longrightarrow> locks_disjoint (c\<lparr>running := (running c)(t := None)\<rparr>)"
  "locks_disjoint (c\<lparr>stored := d\<rparr>) = locks_disjoint c"
  by (auto simp: locks_disjoint_def)

lemma all_at_points_update:
  "all_at_points A c \<Longrightarrow> reports (call y) \<subseteq> A \<Longrightarrow>
     point (stored c) (call y) (rest y) (written y) (held y) \<Longrightarrow>
     all_at_points A (c\<lparr>running := (running c)(t \<mapsto> y)\<rparr>)"
  "all_at_points A c \<Longrightarrow> all_at_points A (c\<lparr>running := (running c)(t := None)\<rparr>)"
  by (simp_all add: all_at_points_def)

text \<open>The stored rows change, and no transaction in flight is disturbed.\<close>

lemma all_at_points_stored:
  assumes "all_at_points A c" and "booking_inv (stored c)" and "booking_inv d'"
    and "\<And>t x. running c t = Some x \<Longrightarrow> undisturbed (held x) (stored c) d'"
  shows "all_at_points A (c\<lparr>stored := d'\<rparr>)"
  unfolding all_at_points_def
proof (intro allI impI)
  fix t x assume "running (c\<lparr>stored := d'\<rparr>) t = Some x"
  then have t: "running c t = Some x" by simp
  with assms(1) have "reports (call x) \<subseteq> A" "point (stored c) (call x) (rest x) (written x) (held x)"
    by (simp_all add: all_at_points_def)
  with point_undisturbed [OF this(2) assms(4) [OF t] assms(2,3) [THEN booking_inv_parts(1)]]
  show "reports (call x) \<subseteq> A \<and>
      point (stored (c\<lparr>stored := d'\<rparr>)) (call x) (rest x) (written x) (held x)" by simp
qed

text \<open>One commit.\<close>

lemma commit_db_step:
  assumes "point d q (Commit reply) ws h" and inv: "booking_inv d" and "reports q \<subseteq> A"
  shows "db_step A d (view ws d)"
proof -
  obtain skip where at: "atomically skip q d = (reply, view ws d)"
    using point_commit_atomic [OF assms(1,2)] by blast
  from assms(1,2) show ?thesis
  proof (cases rule: point_commit)
    case (award i now bed b s u r v)
    from at have "allocate_tx skip i now bed d =
        (Inr (Some \<lparr>bed_id = bed, shelter_id = b_shelter_id b, referral_id = r_id r\<rparr>), view ws d)"
      by (cases "allocate_tx skip i now bed d") (simp add: award(1,6))
    then show ?thesis by (rule db_step.allocation)
  next
    case (event event bed ns sq now b)
    from at have "apply_tx event bed ns sq now d =
        (Inr (Applied (b_shelter_id b) (ns = Available \<and> b_status b \<noteq> ''available'')), view ws d)"
      by (cases "apply_tx event bed ns sq now d") (simp add: event(1,5))
    then show ?thesis by (rule db_step.event) (use assms(3) event(1) in simp)
  qed
qed

lemma commit_undisturbed:
  assumes "point d q (Commit reply) ws h" and inv: "booking_inv d" and "h \<inter> h' = {}"
  shows "undisturbed h' d (view ws d)"
  using assms(1,2)
proof (cases rule: point_commit)
  case (award i now bed b s u r v)
  then show ?thesis
    using assms(3) award_undisturbed [of v h' d] by (auto simp: award_locks_def)
next
  case (event event bed ns sq now b)
  have "Referral_lock (v_referral_id v) \<notin> h'"
    if "releasing ns" "v \<in> set (reservations d)" "is_live v" "v_bed_id v = bed" for v
    using event(4) [OF that(1)] that assms(3) by (auto simp: live_on_set)
  then show ?thesis
    unfolding event(6) using event(3) assms(3) by (intro applied_undisturbed [OF inv]) auto
qed

subsection \<open>Every step keeps the invariant and is seen as an atomic one\<close>

lemma program_starts: "point d q (program_of q) [] {}"
  by (cases q) (simp_all add: point.allocating point.applying)

lemma statement_keeps:
  assumes inv: "server_inv A c" and t: "running c t = Some x" and st: "rest x = Execute st k"
    and free: "locks_of skip st (view (written x) (stored c)) \<inter> held_by_others c t = {}"
  shows "server_inv A (c\<lparr>running := (running c)
    (t \<mapsto> executed skip st k (view (written x) (stored c)) x)\<rparr>)"
proof -
  note parts = server_inv_parts [OF inv]
  let ?y = "executed skip st k (view (written x) (stored c)) x"
  note x = at_point [OF inv t]
  have y: "point (stored c) (call ?y) (rest ?y) (written ?y) (held ?y)"
    using point_advances [OF x(2) parts(1), of skip] by (simp add: advances_def st executed_def)
  have "held ?y \<inter> held x' = {}" if "t' \<noteq> t" "running c t' = Some x'" for t' x'
  proof -
    have "held x \<inter> held x' = {}" by (rule locks_disjointD [OF parts(2) _ t that(2)]) (use that in simp)
    moreover have "held x' \<subseteq> held_by_others c t" using that by (auto simp: held_by_others_def)
    ultimately show ?thesis using free by (auto simp: executed_def)
  qed
  from locks_disjoint_update [OF parts(2) this]
    all_at_points_update(1) [OF parts(3) _ y] x(1) parts(1)
  show ?thesis by (simp add: server_inv_def executed_def)
qed

lemma commit_keeps:
  assumes inv: "server_inv A c" and t: "running c t = Some x" and r: "rest x = Commit reply"
  shows "server_inv A (c\<lparr>stored := view (written x) (stored c), running := (running c)(t := None)\<rparr>)"
    and "db_step A (stored c) (view (written x) (stored c))"
proof -
  note parts = server_inv_parts [OF inv]
  let ?d = "view (written x) (stored c)"
  note x = at_point [OF inv t, unfolded r]
  show step: "db_step A (stored c) ?d" by (rule commit_db_step [OF x(2) parts(1) x(1)])
  have inv': "booking_inv ?d" by (rule db_step_booking_inv [OF step parts(1)])
  let ?c = "c\<lparr>running := (running c)(t := None)\<rparr>"
  have "undisturbed (held y) (stored ?c) ?d" if "running ?c t' = Some y" for t' y
  proof -
    have "t' \<noteq> t" "running c t' = Some y" using that by (auto split: if_splits)
    then have "held x \<inter> held y = {}" by (intro locks_disjointD [OF parts(2) _ t]) simp_all
    with commit_undisturbed [OF x(2) parts(1)] show ?thesis by simp
  qed
  from all_at_points_stored [OF all_at_points_update(2) [OF parts(3), of t] _ inv' this]
    parts locks_disjoint_frames inv'
  have "server_inv A (?c\<lparr>stored := ?d\<rparr>)" by (simp add: server_inv_def)
  then show "server_inv A (c\<lparr>stored := ?d, running := (running c)(t := None)\<rparr>)"
    by (cases c) simp
qed

lemma insertion_keeps:
  assumes inv: "server_inv A c" and step: "db_step A (stored c) d'"
    and und: "\<And>h. undisturbed h (stored c) d'"
  shows "server_inv A (c\<lparr>stored := d'\<rparr>)"
proof -
  note parts = server_inv_parts [OF inv]
  have "booking_inv d'" by (rule db_step_booking_inv [OF step parts(1)])
  with all_at_points_stored [OF parts(3,1) _ und] parts locks_disjoint_frames
  show ?thesis by (simp add: server_inv_def)
qed

lemma new_referral_undisturbed:
  "insert_referral i caseworker region needs vulnerability family now d = (Inr (), d') \<Longrightarrow>
     undisturbed h d d'"
  by (erule insert_referral_Inr_row) (rule insert_undisturbed)

lemma server_step_keeps:
  assumes "server_step A c c'" and inv: "server_inv A c"
  shows "server_inv A c' \<and> (stored c' = stored c \<or> db_step A (stored c) (stored c'))"
  using assms
proof (induction rule: server_step.induct)
  case (entering c t q)
  note parts = server_inv_parts [OF entering(3)]
  have "locks_disjoint (c\<lparr>running := (running c)(t \<mapsto> opened q)\<rparr>)"
    by (rule locks_disjoint_update [OF parts(2)]) (simp add: opened_def)
  moreover have "all_at_points A (c\<lparr>running := (running c)(t \<mapsto> opened q)\<rparr>)"
    by (rule all_at_points_update [OF parts(3)])
      (use entering(2) program_starts in \<open>simp_all add: opened_def\<close>)
  ultimately show ?case using parts(1) by (simp add: server_inv_def)
next
  case (statement c t x st k d)
  then show ?case using statement_keeps by simp
next
  case (committing c t x r)
  then show ?case using commit_keeps by simp
next
  case (dropping c t x)
  note parts = server_inv_parts [OF dropping(2)]
  show ?case
    using parts(1) locks_disjoint_frames(1) [OF parts(2)] all_at_points_update(2) [OF parts(3)]
    by (simp add: server_inv_def)
next
  case (new_referral i caseworker region needs vulnerability family now c d')
  have "db_step A (stored c) d'" by (rule db_step.referral [OF new_referral(1)])
  with insertion_keeps [OF new_referral(2) this new_referral_undisturbed [OF new_referral(1)]]
  show ?case by simp
next
  case (new_shelter s c d')
  have "db_step A (stored c) d'" by (rule db_step.shelter [OF new_shelter(1)])
  with insertion_keeps [OF new_shelter(2) this insert_undisturbed(1) [OF new_shelter(1)]]
  show ?case by simp
next
  case (new_bed b c d')
  have "db_step A (stored c) d'" by (rule db_step.bed [OF new_bed(1,2)])
  with insertion_keeps [OF new_bed(3) this insert_undisturbed(2) [OF new_bed(1)]]
  show ?case by simp
qed

interpretation server: simulation "server_step A" "db_step A" stored "server_inv A"
  by unfold_locales (use server_step_keeps in blast)+

interpretation concurrent_board:
  stacked_simulation "server_step A" "db_step A" stored "server_inv A" "board_step A" board_of booking_inv
  by unfold_locales

lemma idle_server_inv: "booking_inv d \<Longrightarrow> server_inv A (idle_server d)"
  by (simp add: server_inv_def idle_server_def locks_disjoint_def all_at_points_def)

subsection \<open>No deadlock\<close>

text \<open>
  A transaction can move when it is at its end, or when no other transaction holds a lock that
  its next statement needs.
\<close>

definition can_move :: "server \<Rightarrow> nat \<Rightarrow> bool" where
  "can_move c t \<longleftrightarrow> (\<exists>x. running c t = Some x \<and>
     (\<forall>st k. rest x = Execute st k \<longrightarrow>
        locks_of (skips c t) st (view (written x) (stored c)) \<inter> held_by_others c t = {}))"

lemma can_moveI:
  assumes "running c t = Some x"
    and "\<And>st k. rest x = Execute st k \<Longrightarrow>
      locks_of (skips c t) st (view (written x) (stored c)) \<inter> held_by_others c t = {}"
  shows "\<exists>t'. can_move c t'"
  unfolding can_move_def using assms by blast

lemma giving_up_moves: "running c t = Some x \<Longrightarrow> rest x = Rollback r \<Longrightarrow> \<exists>t'. can_move c t'"
  by (rule can_moveI) auto

lemma held_elsewhere:
  assumes "l \<in> held_by_others c t"
  obtains t' y where "t' \<noteq> t" "running c t' = Some y" "l \<in> held y"
  using assms by (auto simp: held_by_others_def)

lemma own_locks_free:
  assumes "server_inv A c" and "running c t = Some x" and "l \<in> held x"
  shows "l \<notin> held_by_others c t"
proof
  assume "l \<in> held_by_others c t"
  then obtain t' y where y: "t' \<noteq> t" "running c t' = Some y" "l \<in> held y" by (rule held_elsewhere)
  from locks_disjointD [OF server_inv_parts(2) [OF assms(1)] y(1,2) assms(2)] y(3) assms(3)
  show False by blast
qed

text \<open>Who holds an entry of a unique index holds the row it is about, unless it has given up.\<close>

lemma entry_locks:
  assumes "point d q p ws h"
  shows "Active_bed_entry i \<in> h \<Longrightarrow> (\<exists>r. p = Rollback r) \<or> Bed_lock i \<in> h"
    and "Active_referral_entry i \<in> h \<Longrightarrow> (\<exists>r. p = Rollback r) \<or> Referral_lock i \<in> h"
  using assms by (induction rule: point.induct) (auto simp: award_locks_def)

text \<open>A live reservation is locked by nobody but the transaction that has its bed.\<close>

lemma matched_unlocked:
  assumes "point d q p ws h" and inv: "booking_inv d" and v: "v \<in> set (live_on bed d)"
    and "Referral_lock (v_referral_id v) \<in> h"
  shows "(\<exists>r. p = Rollback r) \<or> Bed_lock bed \<in> h"
proof -
  have pending: "v_referral_id v \<noteq> r_id r" if "winner d bed' b s u r" for bed' b s u r
  proof
    assume id: "v_referral_id v = r_id r"
    from that have r: "r \<in> set (referrals d)" "r_status r = ''pending''"
      by (simp_all add: winner_def pending_filter_def)
    with live_matched [OF inv r(1) _ _ id [symmetric]] v show False by (simp add: live_on_set)
  qed
  have only: "bed' = bed" if "live_on bed' d = w # ws" "v_referral_id w = v_referral_id v" for bed' w ws
  proof -
    have "w \<in> set (live_on bed' d)" using that(1) by simp
    then have w: "w \<in> set (reservations d)" "v_bed_id w = bed'" "is_live w"
      by (simp_all add: live_on_set)
    have v': "v \<in> set (reservations d)" "v_bed_id v = bed" "is_live v"
      using v by (simp_all add: live_on_set)
    have "w = v" using no_double_bookingD [OF inv w(1) v'(1) w(3) v'(3)] that(2) by simp
    with w v' show ?thesis by simp
  qed
  from assms(1,4) show ?thesis
  proof (induction rule: point.induct)
    case (repended event bed' sq b ns w vs r now)
    then have "bed' = bed" using only by auto
    then show ?case by simp
  qed (auto simp: award_locks_def dest: pending)
qed

text \<open>The locks that the next statement of a transaction needs beyond those it holds.\<close>

inductive needed :: "(uuid \<Rightarrow> bool) \<Rightarrow> db \<Rightarrow> row_lock set \<Rightarrow> row_lock \<Rightarrow> bool" for skip d h where
  own: "l \<in> h \<Longrightarrow> needed skip d h l"
| unskipped: "\<not> skip i \<Longrightarrow> needed skip d h (Referral_lock i)"
| displaced: "v \<in> set (live_on bed d) \<Longrightarrow> Bed_lock bed \<in> h \<Longrightarrow>
     needed skip d h (Referral_lock (v_referral_id v))"
| bed_entry: "Bed_lock i \<in> h \<Longrightarrow> needed skip d h (Active_bed_entry i)"
| referral_entry: "Referral_lock i \<in> h \<Longrightarrow> needed skip d h (Active_referral_entry i)"
| row: "\<forall>j. Reservation_lock j \<notin> h \<Longrightarrow> needed skip d h (Reservation_lock i)"
| bed: "\<forall>j. Reservation_lock j \<notin> h \<and> Bed_lock j \<notin> h \<Longrightarrow> needed skip d h (Bed_lock i)"
| event: "h = {} \<Longrightarrow> needed skip d h (Event_lock i)"

lemma next_locks:
  assumes "point d q p ws h" and "p = Execute st k" and "l \<in> locks_of skip st (view ws d)"
  shows "needed skip d h l"
  using assms
proof (induction rule: point.induct)
  case (allocating i now bed)
  then show ?case by (auto simp: allocate_program_def intro: needed.bed)
next
  case (bed_locked bed b i now)
  then show ?case by (auto simp: allocate_locked_def)
next
  case (choosing bed b s u i now)
  then show ?case
    using choose_referral_Some(3) [of skip "s_region s" "attrs_of u b" d]
    by (auto simp: allocate_choose_def intro: needed.unskipped split: option.splits)
next
  case (chosen bed b s u r i now)
  then show ?case
    by (auto simp: allocate_write_def
        intro: needed.row needed.bed_entry needed.referral_entry split: sum.splits)
next
  case (reserved bed b s u r v i now)
  then show ?case by (auto simp: allocate_reserve_def award_locks_def intro: needed.own)
next
  case (bed_taken bed b s u r v i now)
  then show ?case by (auto simp: allocate_match_def award_locks_def intro: needed.own)
next
  case (applying event bed ns sq now)
  then show ?case by (auto simp: apply_program_def intro: needed.event split: if_splits)
next
  case (recorded event bed ns sq now)
  then show ?case by (auto simp: apply_locked_def intro: needed.bed)
next
  case (located event bed sq b ns now)
  then show ?case by (auto simp: apply_update_def intro: needed.own)
next
  case (updated event bed sq b ns now)
  then show ?case
    by (auto simp: apply_lifecycle_def apply_finish_def intro: needed.row split: if_splits)
next
  case (released event bed sq b ns v vs now)
  have "v \<in> set (live_on bed d)" using released(3) by simp
  note displaced = needed.displaced [OF this, of "{Event_lock event, Bed_lock bed} \<union>
      (\<lambda>v. Reservation_lock (v_id v)) ` set (live_on bed d)" skip, simplified]
  have "l = Referral_lock (v_referral_id v)" using released(4,5) by auto
  with displaced show ?case by simp
qed (simp_all add: allocate_done_def apply_finish_def)

text \<open>
  A transaction that is blocked waits for another one that holds a reservation row, or for one
  that holds a bed while it holds none, or for one that has recorded an event while it holds
  nothing.
\<close>

lemma blocked_by:
  assumes inv: "server_inv A c" and t: "running c t = Some x" and stuck: "\<nexists>t'. can_move c t'"
  obtains (row) t' y i where "running c t' = Some y" "Reservation_lock i \<in> held y"
      "\<forall>j. Reservation_lock j \<notin> held x"
  | (bed) t' y i where "running c t' = Some y" "Bed_lock i \<in> held y"
      "\<forall>j. Reservation_lock j \<notin> held x \<and> Bed_lock j \<notin> held x"
  | (event) t' y i where "running c t' = Some y" "Event_lock i \<in> held y" "held x = {}"
proof -
  from stuck t obtain st k l where st: "rest x = Execute st k"
    "l \<in> locks_of (skips c t) st (view (written x) (stored c))" "l \<in> held_by_others c t"
    unfolding can_move_def by blast
  from st(3) obtain t' y where y: "t' \<noteq> t" "running c t' = Some y" "l \<in> held y"
    by (rule held_elsewhere)
  have live: "\<nexists>r. rest y = Rollback r" using giving_up_moves [OF y(2)] stuck by blast
  note point = at_point(2) [OF inv y(2)]
  note own = own_locks_free [OF inv t]
  have theirs: "l' \<in> held_by_others c t" if "l' \<in> held y" for l'
    using that y(1,2) by (auto simp: held_by_others_def)
  from next_locks [OF at_point(2) [OF inv t] st(1,2)] show thesis
  proof cases
    case own
    with own_locks_free [OF inv t] st(3) show thesis by blast
  next
    case (unskipped i)
    with st(3) show thesis by (simp add: skips_def)
  next
    case (displaced v bed)
    with matched_unlocked [OF point server_inv_parts(1) [OF inv] displaced(2)] y(3) live
    show thesis using own [OF displaced(3)] theirs by blast
  next
    case (bed_entry i)
    with entry_locks(1) [OF point] y(3) live own theirs show thesis by blast
  next
    case (referral_entry i)
    with entry_locks(2) [OF point] y(3) live own theirs show thesis by blast
  next
    case (row i)
    with y that(1) show thesis by blast
  next
    case (bed i)
    with y that(2) show thesis by blast
  next
    case (event i)
    with y that(3) show thesis by blast
  qed
qed

lemma some_transaction_moves:
  assumes inv: "server_inv A c" and t: "running c t = Some x"
  shows "\<exists>t'. can_move c t'"
proof (rule ccontr)
  assume stuck: "\<not> ?thesis"
  have row: "Reservation_lock i \<notin> held y" if "running c t' = Some y" for t' y i
    by (rule blocked_by [OF inv that stuck]) blast+
  have bed: "Bed_lock i \<notin> held y" if "running c t' = Some y" for t' y i
    by (rule blocked_by [OF inv that stuck]) (use row in blast)+
  have event: "Event_lock i \<notin> held y" if "running c t' = Some y" for t' y i
    by (rule blocked_by [OF inv that stuck]) (use row bed in blast)+
  show False by (rule blocked_by [OF inv t stuck]) (use row bed event in blast)+
qed

subsection \<open>The server can run every transaction alone\<close>

text \<open>The locks that a program takes when it is not disturbed.\<close>

primrec locks_taken :: "(uuid \<Rightarrow> bool) \<Rightarrow> program \<Rightarrow> version list \<Rightarrow> db \<Rightarrow> row_lock set" where
  "locks_taken skip (Commit r) ws d = {}"
| "locks_taken skip (Rollback r) ws d = {}"
| "locks_taken skip (Execute st k) ws d =
     locks_of skip st (view ws d) \<union>
     locks_taken skip (k (answer_of skip st (view ws d)))
       (ws @ versions_of st (view ws d)) d"

lemma runs_beside:
  assumes "running c t = Some x"
    and "locks_taken (skips c t) (rest x) (written x) (stored c) \<inter> held_by_others c t = {}"
  shows "\<exists>c'. (server_step A)\<^sup>*\<^sup>* c c' \<and> running c' = (running c)(t := None) \<and>
    stored c' = snd (run_alone (skips c t) (rest x) (written x) (stored c))"
  using assms
proof (induction "rest x" arbitrary: x c)
  case (Commit r)
  let ?c = "c\<lparr>stored := view (written x) (stored c), running := (running c)(t := None)\<rparr>"
  have "server_step A c ?c" using Commit by (metis server_step.committing)
  then show ?case by (intro exI [of _ ?c]) (simp add: Commit(1) [symmetric])
next
  case (Rollback r)
  have "server_step A c (c\<lparr>running := (running c)(t := None)\<rparr>)"
    by (rule server_step.dropping [OF Rollback(2)])
  then show ?case
    by (intro exI [of _ "c\<lparr>running := (running c)(t := None)\<rparr>"]) (simp add: Rollback(1) [symmetric])
next
  case (Execute st k)
  let ?d = "view (written x) (stored c)"
  let ?y = "executed (skips c t) st k ?d x"
  let ?c = "c\<lparr>running := (running c)(t \<mapsto> ?y)\<rparr>"
  have others: "held_by_others ?c t = held_by_others c t" "skips ?c t = skips c t"
    by (auto simp: held_by_others_def skips_def fun_eq_iff)
  have free: "locks_of (skips c t) st ?d \<inter> held_by_others c t = {}"
    "locks_taken (skips ?c t) (rest ?y) (written ?y) (stored ?c) \<inter> held_by_others ?c t = {}"
    using Execute.prems(2) unfolding others by (auto simp: Execute(2) [symmetric] executed_def)
  have step: "server_step A c ?c"
    by (rule server_step.statement [OF Execute.prems(1) Execute(2) [symmetric] refl free(1)])
  have "rest ?y \<in> range k" by (simp add: executed_def)
  from Execute(1) [OF this _ free(2)] obtain c' where
    c': "(server_step A)\<^sup>*\<^sup>* ?c c'" "running c' = (running ?c)(t := None)"
      "stored c' = snd (run_alone (skips ?c t) (rest ?y) (written ?y) (stored ?c))"
    by auto
  from step c'(1) have "(server_step A)\<^sup>*\<^sup>* c c'" by simp
  moreover have "run_alone (skips ?c t) (rest ?y) (written ?y) (stored ?c) =
      run_alone (skips c t) (rest x) (written x) (stored c)"
    unfolding others by (simp add: executed_def Execute(2) [symmetric])
  ultimately show ?case using c' by (intro exI [of _ c']) simp
qed

lemma runs_alone:
  assumes "running c t = Some x" and "held_by_others c t = {}"
  shows "\<exists>c'. (server_step A)\<^sup>*\<^sup>* c c' \<and> running c' = (running c)(t := None) \<and>
    stored c' = snd (run_alone (\<lambda>_. False) (rest x) (written x) (stored c))"
proof -
  have "skips c t = (\<lambda>_. False)" using assms(2) by (auto simp: skips_def)
  with runs_beside [OF assms(1), of A] assms(2) show ?thesis by simp
qed

lemma server_runs_transactions:
  assumes "schema_ok d" and "reports q \<subseteq> A"
  shows "(server_step A)\<^sup>*\<^sup>* (idle_server d) (idle_server (snd (atomically (\<lambda>_. False) q d)))"
proof -
  let ?c = "idle_server d\<lparr>running := (running (idle_server d))(0 \<mapsto> opened q)\<rparr>"
  have step: "server_step A (idle_server d) ?c"
    by (rule server_step.entering) (simp_all add: idle_server_def assms(2))
  have x: "running ?c 0 = Some (opened q)" by simp
  have "held_by_others ?c 0 = {}" by (auto simp: held_by_others_def idle_server_def)
  from runs_alone [OF x this] obtain c' where c': "(server_step A)\<^sup>*\<^sup>* ?c c'"
    "running c' = (running ?c)(0 := None)"
    "stored c' = snd (run_alone (\<lambda>_. False) (program_of q) [] d)"
    by (auto simp: opened_def idle_server_def)
  have "c' = idle_server (snd (atomically (\<lambda>_. False) q d))"
    using c'(2,3) program_alone [OF assms(1)] by (cases c') (auto simp: idle_server_def)
  with step c'(1) show ?thesis by (auto intro: converse_rtranclp_into_rtranclp)
qed

lemma server_inv_reached:
  assumes "booking_inv d" and "(server_step A)\<^sup>*\<^sup>* (idle_server d) c"
  shows "server_inv A c"
  by (rule server.run_keeps [OF assms(2) idle_server_inv [OF assms(1)]])

end
