(* ===== verification/Skipping.thy ===== *)
theory Skipping
  imports Concurrency
begin

section \<open>Allocations do not wait for one another\<close>

text \<open>
  The purpose of \<open>SKIP LOCKED\<close>: an allocation of a bed that no other transaction has locked runs
  to its end without waiting, whatever referral rows others hold, and does what the atomic
  transaction does with those rows skipped.
\<close>

subsection \<open>The locks of an allocation\<close>

definition allocation_locks :: "(uuid \<Rightarrow> bool) \<Rightarrow> uuid \<Rightarrow> uuid \<Rightarrow> row_lock set" where
  "allocation_locks skip i bed = {Bed_lock bed, Reservation_lock i, Active_bed_entry bed} \<union>
     {l. \<exists>r. \<not> skip r \<and> (l = Referral_lock r \<or> l = Active_referral_entry r)}"

lemma write_locks:
  assumes "\<not> skip (r_id r)"
  shows "locks_taken skip (allocate_write i now bed b r) [] d \<subseteq> allocation_locks skip i bed"
proof -
  have "locks_taken skip (allocate_reserve bed b r) ws d \<subseteq> allocation_locks skip i bed" for ws
    using assms by (auto simp: allocate_reserve_def allocate_match_def allocate_done_def allocation_locks_def)
  then show ?thesis
    using assms by (auto simp: allocate_write_def allocation_locks_def split: sum.splits)
qed

lemma choose_locks:
  "locks_taken skip (allocate_choose i now bed b region a) [] d \<subseteq> allocation_locks skip i bed"
proof (cases "choose_referral skip region a d")
  case None
  then show ?thesis by (simp add: allocate_choose_def)
next
  case (Some r)
  have r: "\<not> skip (r_id r)" by (rule choose_referral_Some(3) [OF Some])
  then have "Referral_lock (r_id r) \<in> allocation_locks skip i bed" by (simp add: allocation_locks_def)
  with write_locks [of skip r i now bed b d, OF r] Some show ?thesis
    by (simp add: allocate_choose_def split: sum.split)
qed

lemma allocate_program_locks:
  "locks_taken skip (allocate_program i now bed) [] d \<subseteq> allocation_locks skip i bed"
proof -
  have "locks_taken skip (allocate_locked i now bed b) [] d \<subseteq> allocation_locks skip i bed" for b
    using choose_locks by (auto simp: allocate_locked_def split: sum.split)
  moreover have "locks_of skip (Select_bed_for_update bed) d \<subseteq> allocation_locks skip i bed"
    by (auto simp: allocation_locks_def)
  ultimately show ?thesis by (auto simp: allocate_program_def split: option.split)
qed

subsection \<open>Index entries are locked with their rows\<close>

definition entries_covered :: "server \<Rightarrow> bool" where
  "entries_covered c \<longleftrightarrow> (\<forall>t x b. running c t = Some x \<longrightarrow>
     (Active_bed_entry b \<in> held x \<longrightarrow> Bed_lock b \<in> held x) \<and>
     (Active_referral_entry b \<in> held x \<longrightarrow> Referral_lock b \<in> held x))"

lemma inserting_point:
  assumes "point d q p ws h" and "p = Execute (Insert_reservation v) k"
  shows "Bed_lock (v_bed_id v) \<in> h \<and> Referral_lock (v_referral_id v) \<in> h"
  using assms
  by (induction rule: point.induct)
     (auto simp: allocate_program_def allocate_locked_def allocate_choose_def allocate_write_def
       allocate_reserve_def allocate_match_def allocate_done_def apply_program_def apply_locked_def
       apply_update_def apply_lifecycle_def apply_finish_def split: if_splits)

lemma entries_of_statement:
  "Active_bed_entry b \<in> locks_of skip st d \<Longrightarrow> \<exists>v. st = Insert_reservation v \<and> b = v_bed_id v"
  "Active_referral_entry b \<in> locks_of skip st d \<Longrightarrow> \<exists>v. st = Insert_reservation v \<and> b = v_referral_id v"
  by (cases st; auto split: option.splits sum.splits if_splits)+

lemma entries_covered_step:
  assumes "server_step A c c'" and "server_inv A c" and "entries_covered c"
  shows "entries_covered c'"
  using assms
proof (induction rule: server_step.induct)
  case (statement c t x st k d)
  let ?y = "executed (skips c t) st k d x"
  have y: "held ?y = held x \<union> locks_of (skips c t) st d" by (simp add: executed_def)
  have inserting: "Bed_lock (v_bed_id v) \<in> held x \<and> Referral_lock (v_referral_id v) \<in> held x"
    if "st = Insert_reservation v" for v
    using inserting_point [OF at_point(2) [OF statement(5,1)]] statement(2) that by blast
  have x: "Active_bed_entry b \<in> held x \<Longrightarrow> Bed_lock b \<in> held x"
    "Active_referral_entry b \<in> held x \<Longrightarrow> Referral_lock b \<in> held x" for b
    using statement(1,6) unfolding entries_covered_def by blast+
  have "Bed_lock b \<in> held ?y" if "Active_bed_entry b \<in> held ?y" for b
    using that x(1) [of b] entries_of_statement(1) [of b "skips c t" st d] inserting unfolding y by blast
  moreover have "Referral_lock b \<in> held ?y" if "Active_referral_entry b \<in> held ?y" for b
    using that x(2) [of b] entries_of_statement(2) [of b "skips c t" st d] inserting unfolding y by blast
  ultimately show ?case using statement(6) unfolding entries_covered_def by simp
qed (auto simp: entries_covered_def opened_def)

lemma entries_covered_reached:
  assumes "booking_inv d" and "(server_step A)\<^sup>*\<^sup>* (idle_server d) c"
  shows "entries_covered c"
  using assms(2)
proof (induction rule: rtranclp_induct)
  case base
  show ?case by (simp add: entries_covered_def idle_server_def)
next
  case (step c1 c2)
  then show ?case using entries_covered_step server_inv_reached [OF assms(1)] by blast
qed

subsection \<open>The allocation runs through\<close>

lemma allocation_runs_through:
  assumes inv: "booking_inv d" and c: "(server_step A)\<^sup>*\<^sup>* (idle_server d) c"
    and t: "running c t = None" and bed: "Bed_lock bed \<notin> held_by_others c t"
    and i: "Reservation_lock i \<notin> held_by_others c t"
  shows "(server_step A)\<^sup>*\<^sup>* c (c\<lparr>stored := snd (allocate_tx (skips c t) i now bed (stored c))\<rparr>)"
proof -
  let ?c = "c\<lparr>running := (running c)(t \<mapsto> opened (Allocate i now bed))\<rparr>"
  have step: "server_step A c ?c" by (rule server_step.entering [OF t]) simp
  have others: "held_by_others ?c t = held_by_others c t" "skips ?c t = skips c t"
    by (auto simp: held_by_others_def skips_def fun_eq_iff)
  have "allocation_locks (skips c t) i bed \<inter> held_by_others c t = {}"
  proof (rule equals0I)
    fix l assume l: "l \<in> allocation_locks (skips c t) i bed \<inter> held_by_others c t"
    then obtain t' y where y: "t' \<noteq> t" "running c t' = Some y" "l \<in> held y"
      using held_elsewhere by blast
    have theirs: "l' \<in> held_by_others c t" if "l' \<in> held y" for l'
      using that y(1,2) by (auto simp: held_by_others_def)
    from l consider "l = Bed_lock bed" | "l = Reservation_lock i" | "l = Active_bed_entry bed"
      | r where "\<not> skips c t r" "l = Referral_lock r \<or> l = Active_referral_entry r"
      by (auto simp: allocation_locks_def)
    then show False
    proof cases
      case 3
      with entries_covered_reached [OF inv c] y(2,3) theirs bed show ?thesis
        unfolding entries_covered_def by blast
    next
      case (4 r)
      with entries_covered_reached [OF inv c] y(2,3) theirs show ?thesis
        unfolding entries_covered_def skips_def by blast
    qed (use l bed i in auto)
  qed
  then have "locks_taken (skips ?c t) (rest (opened (Allocate i now bed)))
      (written (opened (Allocate i now bed))) (stored ?c) \<inter> held_by_others ?c t = {}"
    using allocate_program_locks [of "skips c t" i now bed "stored c"] unfolding others
    by (auto simp: opened_def)
  from runs_beside [OF _ this, of A] obtain c' where
    c': "(server_step A)\<^sup>*\<^sup>* ?c c'" "running c' = (running ?c)(t := None)"
      "stored c' = snd (run_alone (skips c t) (allocate_program i now bed) [] (stored c))"
    unfolding others by (auto simp: opened_def)
  have ok: "schema_ok (stored c)"
    using server_inv_reached [OF inv c] booking_inv_parts(1) server_inv_parts(1) by blast
  have "c' = c\<lparr>stored := snd (allocate_tx (skips c t) i now bed (stored c))\<rparr>"
    using c'(2,3) t allocate_alone [OF ok] by (cases c, cases c') (auto simp: fun_upd_idem)
  with step c'(1) show ?thesis by (auto intro: converse_rtranclp_into_rtranclp)
qed

subsection \<open>An allocation up to its choice\<close>

text \<open>One transaction in flight, which has written nothing yet.\<close>

definition alone_at :: "db \<Rightarrow> request \<Rightarrow> program \<Rightarrow> row_lock set \<Rightarrow> server" where
  "alone_at d q p h = \<lparr>stored = d, running = [0 \<mapsto> \<lparr>call = q, rest = p, written = [], held = h\<rparr>]\<rparr>"

lemma alone_at_simps [simp]:
  "stored (alone_at d q p h) = d"
  "running (alone_at d q p h) = [0 \<mapsto> \<lparr>call = q, rest = p, written = [], held = h\<rparr>]"
  by (simp_all add: alone_at_def)

lemma alone_others [simp]:
  "held_by_others (alone_at d q p h) 0 = {}" "skips (alone_at d q p h) 0 = (\<lambda>_. False)"
  "t \<noteq> 0 \<Longrightarrow> held_by_others (alone_at d q p h) t = h"
  by (auto simp: held_by_others_def skips_def split: if_splits)

lemma alone_enters:
  assumes "reports q \<subseteq> A"
  shows "server_step A (idle_server d) (alone_at d q (program_of q) {})"
proof -
  have "server_step A (idle_server d)
      (idle_server d\<lparr>running := (running (idle_server d))(0 \<mapsto> opened q)\<rparr>)"
    by (rule server_step.entering) (simp_all add: idle_server_def assms)
  then show ?thesis by (simp add: idle_server_def alone_at_def opened_def)
qed

lemma alone_step:
  assumes p: "p = Execute st k" and "versions_of st d = []"
    and "k (answer_of (\<lambda>_. False) st d) = p'" and "h' = h \<union> locks_of (\<lambda>_. False) st d"
  shows "server_step A (alone_at d q p h) (alone_at d q p' h')"
proof -
  let ?x = "\<lparr>call = q, rest = Execute st k, written = [], held = h\<rparr>"
  have "server_step A (alone_at d q (Execute st k) h)
      (alone_at d q (Execute st k) h\<lparr>running := (running (alone_at d q (Execute st k) h))
         (0 \<mapsto> executed (skips (alone_at d q (Execute st k) h) 0) st k d ?x)\<rparr>)"
    by (rule server_step.statement [where x = ?x]) simp_all
  then show ?thesis unfolding alone_others by (simp add: alone_at_def executed_def assms)
qed

lemma choosing_reached:
  assumes bed: "fetch_optional (filter (\<lambda>b. b_id b = bed) (beds d)) = Some b"
    and available: "b_status b = ''available''"
    and shelter: "fetch_optional (filter (\<lambda>s. s_id s = b_shelter_id b) (shelters d)) = Some s"
    and unit: "UnitType_from_db_str (b_unit_type b) = Inr u"
  shows "(server_step A)\<^sup>*\<^sup>* (idle_server d) (alone_at d (Allocate i now bed)
    (allocate_choose i now bed b (s_region s) (attrs_of u b)) {Bed_lock bed})"
proof -
  let ?q = "Allocate i now bed"
  have "\<exists>c\<in>set (beds d). b_id c = bed" using fetch_filter_Some [OF bed] by blast
  then have lock: "{Bed_lock bed} = {} \<union> locks_of (\<lambda>_. False) (Select_bed_for_update bed) d" by auto
  obtain ss where ss: "filter (\<lambda>s. s_id s = b_shelter_id b) (shelters d) = s # ss"
    using shelter by (cases "filter (\<lambda>s. s_id s = b_shelter_id b) (shelters d)") auto
  have "server_step A (idle_server d) (alone_at d ?q (allocate_program i now bed) {})"
    using alone_enters [of ?q A d] by simp
  moreover have "server_step A (alone_at d ?q (allocate_program i now bed) {})
      (alone_at d ?q (allocate_locked i now bed b) {Bed_lock bed})"
    by (rule alone_step [OF allocate_program_def _ _ lock]) (simp_all add: bed available)
  moreover have "server_step A (alone_at d ?q (allocate_locked i now bed b) {Bed_lock bed})
      (alone_at d ?q (allocate_choose i now bed b (s_region s) (attrs_of u b)) {Bed_lock bed})"
    by (rule alone_step [OF allocate_locked_def]) (simp_all add: ss unit attrs_of_def)
  ultimately show ?thesis by (meson converse_rtranclp_into_rtranclp rtranclp.rtrancl_refl)
qed

lemma chosen_reached:
  assumes bed: "fetch_optional (filter (\<lambda>b. b_id b = bed) (beds d)) = Some b"
    and available: "b_status b = ''available''"
    and shelter: "fetch_optional (filter (\<lambda>s. s_id s = b_shelter_id b) (shelters d)) = Some s"
    and unit: "UnitType_from_db_str (b_unit_type b) = Inr u"
    and choice: "choose_referral (\<lambda>_. False) (s_region s) (attrs_of u b) d = Some r"
  shows "(server_step A)\<^sup>*\<^sup>* (idle_server d) (alone_at d (Allocate i now bed)
    (allocate_write i now bed b r) {Bed_lock bed, Referral_lock (r_id r)})"
proof -
  have checks: "UnitType_from_db_str (r_unit_type_required r) = Inr u"
    "is_eligible (attrs_of u b) (needs_of u r)"
    using choose_referral_Some(2) [OF choice] unit
    by (auto simp: pending_filter_def unit_codec.of_str_Inr is_eligible_iff)
  have lock: "{Bed_lock bed, Referral_lock (r_id r)} = {Bed_lock bed} \<union>
      locks_of (\<lambda>_. False) (Select_referral_skip_locked (s_region s) (attrs_of u b)) d"
    by (simp add: choice insert_commute)
  have "server_step A (alone_at d (Allocate i now bed)
        (allocate_choose i now bed b (s_region s) (attrs_of u b)) {Bed_lock bed})
      (alone_at d (Allocate i now bed) (allocate_write i now bed b r)
        {Bed_lock bed, Referral_lock (r_id r)})"
    by (rule alone_step [OF allocate_choose_def _ _ lock])
       (simp_all add: choice checks checks(2) [unfolded needs_of_def])
  with choosing_reached [OF bed available shelter unit] show ?thesis
    by (rule rtranclp.rtrancl_into_rtrancl)
qed

end
