(* ===== verification/Concurrency_Properties.thy ===== *)
theory Concurrency_Properties
  imports Skipping Examples
begin

section \<open>Properties of concurrent transactions\<close>

text \<open>
  What transactions that run concurrently, statement by statement, guarantee, with the contract
  of the matcher and the shape of the stored text.
\<close>

text \<open>The example database, from an idle server to the award of its bed and back to idle.\<close>

lemma ex_server_award: "(server_step UNIV)\<^sup>*\<^sup>* (idle_server ex_wait) (idle_server ex_won)"
  using server_runs_transactions [OF booking_inv_parts(1) [OF ex_inv(1)], of "Allocate 7 9 1" UNIV]
  by (simp add: ex_allocate)

text \<open>
  The statements of a transaction, executed one after the other with nothing in between,
  give the reply and the database of the atomic transaction.
\<close>

theorem statements_alone_are_the_transaction:
  assumes "schema_ok d"
  shows "run_alone skip (program_of q) [] d = atomically skip q d"
  by (rule program_alone [OF assms])

theorem statements_alone_are_the_transaction_witness:
  "run_alone (\<lambda>_. False) (program_of (Allocate 7 9 1)) [] ex_wait =
     (Allocation (Inr (Some \<lparr>bed_id = 1, shelter_id = 1, referral_id = 2\<rparr>)), ex_won)"
  using statements_alone_are_the_transaction [OF booking_inv_parts(1) [OF ex_inv(1)],
      of "\<lambda>_. False" "Allocate 7 9 1"]
  by (simp add: ex_allocate)

text \<open>
  C2.  Serializability: whatever the interleaving of the statements of any number of
  transactions, whichever of them are dropped, and whatever is inserted meanwhile, the stored
  rows are reached by atomic transactions of the program.
\<close>

theorem concurrent_transactions_are_atomic:
  assumes "booking_inv d" and "(server_step A)\<^sup>*\<^sup>* (idle_server d) c"
  shows "(db_step A)\<^sup>*\<^sup>* d (stored c) \<and> booking_inv (stored c)"
proof -
  have "(db_step A)\<^sup>*\<^sup>* (stored (idle_server d)) (stored c)"
    by (rule server.run_seen [OF assms(2) idle_server_inv [OF assms(1)]])
  with server_inv_parts(1) [OF server_inv_reached [OF assms]]
  show ?thesis by (simp add: idle_server_def)
qed

theorem concurrent_transactions_are_atomic_witness:
  "(db_step UNIV)\<^sup>*\<^sup>* ex_wait ex_won \<and> booking_inv ex_won"
  using concurrent_transactions_are_atomic [OF ex_inv(1) ex_server_award]
  by (simp add: idle_server_def)

text \<open>
  C12.  Every reply of a concurrent transaction is that of the atomic one on the rows stored at a
  moment of its run: at the commit, with the committed rows as its effect, or, when it gives
  up, at the statement whose answer made it give up, without effect.
\<close>

theorem concurrent_replies_are_atomic:
  assumes "booking_inv d" and "(server_step A)\<^sup>*\<^sup>* (idle_server d) c" and "running c t = Some x"
  shows "(rest x = Commit reply \<longrightarrow>
      (\<exists>skip. atomically skip (call x) (stored c) = (reply, view (written x) (stored c)))) \<and>
    (rest x = Execute st k \<and> k (answer_of (skips c t) st (view (written x) (stored c))) = Rollback reply \<longrightarrow>
      (\<exists>skip. atomically skip (call x) (stored c) = (reply, stored c)))"
proof (intro conjI impI)
  note inv = server_inv_reached [OF assms(1,2)]
  note point = at_point(2) [OF inv assms(3)]
  show "\<exists>skip. atomically skip (call x) (stored c) = (reply, view (written x) (stored c))"
    if "rest x = Commit reply"
    by (rule point_commit_atomic [OF point [unfolded that] server_inv_parts(1) [OF inv]])
  show "\<exists>skip. atomically skip (call x) (stored c) = (reply, stored c)"
    if "rest x = Execute st k \<and> k (answer_of (skips c t) st (view (written x) (stored c))) = Rollback reply"
    by (rule point_alone [OF point server_inv_parts(1) [OF inv] that [THEN conjunct1] that [THEN conjunct2]])
qed

text \<open>One call has entered the server.\<close>

abbreviation ex_server :: "request \<Rightarrow> server" where
  "ex_server q \<equiv> alone_at ex_wait q (program_of q) {}"

lemma ex_server_entered: "(server_step UNIV)\<^sup>*\<^sup>* (idle_server ex_wait) (ex_server q)"
  using alone_enters [of q UNIV ex_wait] by (simp add: r_into_rtranclp)

theorem concurrent_replies_are_atomic_witness:
  "\<exists>skip. atomically skip (Allocate 7 9 99) ex_wait = (Allocation (Inr None), ex_wait)"
proof -
  have x: "running (ex_server (Allocate 7 9 99)) 0 = Some (opened (Allocate 7 9 99))"
    by (simp add: opened_def)
  obtain st k where st: "rest (opened (Allocate 7 9 99)) = Execute st k"
    and "st = Select_bed_for_update 99" "k (Bed None) = Rollback (Allocation (Inr None))"
    by (simp add: opened_def allocate_program_def)
  then have "k (answer_of (skips (ex_server (Allocate 7 9 99)) 0) st ex_wait) =
      Rollback (Allocation (Inr None))"
    by (simp add: ex_db_def ex_bed_def)
  with concurrent_replies_are_atomic [OF ex_inv(1) ex_server_entered x, of "Allocation (Inr None)" st k] st
  show ?thesis by (simp add: opened_def)
qed

text \<open>
  C8.  No deadlock: while a transaction is in flight, some transaction is at its end or can
  execute its next statement at once.
\<close>

theorem transactions_never_deadlock:
  assumes "booking_inv d" and "(server_step A)\<^sup>*\<^sup>* (idle_server d) c" and "running c t = Some x"
  shows "\<exists>t'. can_move c t'"
  by (rule some_transaction_moves [OF server_inv_reached [OF assms(1,2)] assms(3)])

theorem transactions_never_deadlock_witness:
  "\<exists>t. can_move (ex_server (Apply 11 1 Occupied 1 9)) t"
  by (rule transactions_never_deadlock [OF ex_inv(1) ex_server_entered,
        of "Apply 11 1 Occupied 1 9" 0 "opened (Apply 11 1 Occupied 1 9)"])
     (simp add: opened_def)

lemma winner_insertable:
  assumes inv: "booking_inv d" and w: "winner d bed b s u r" and new: "i \<notin> v_id ` set (reservations d)"
  shows "insertable d (new_reservation i bed (r_id r) now)"
  using insert_reservation_ok [OF inv new, of b r now] w
  by (auto simp: insertable_def winner_def available_bed_def pending_filter_def)

text \<open>
  C10.  The unique indexes are a backstop that never fires: an allocation in flight that inserts
  its reservation with a fresh id is never refused, whatever runs beside it.
\<close>

theorem fresh_reservations_are_never_refused:
  assumes "booking_inv d" and "(server_step A)\<^sup>*\<^sup>* (idle_server d) c" and "running c t = Some x"
    and "rest x = Execute (Insert_reservation v) k" and "v_id v \<notin> v_id ` set (reservations (stored c))"
  shows "answer_of (skips c t) (Insert_reservation v) (view (written x) (stored c)) = Inserted (Inr ())"
proof -
  note inv = server_inv_reached [OF assms(1,2)]
  from at_point(2) [OF inv assms(3)] show ?thesis
  proof cases
    case (chosen bed b s u r i now)
    then have v: "v = new_reservation i bed (r_id r) now"
      using assms(4) by (simp add: allocate_write_def new_reservation_def)
    then have "insertable (stored c) v"
      using winner_insertable [OF server_inv_parts(1) [OF inv] chosen(5)] assms(5) by simp
    with chosen show ?thesis by (simp add: insertable_def)
  qed (use assms(4) in \<open>auto simp: allocate_program_def allocate_locked_def allocate_choose_def
      allocate_tail apply_program_def apply_locked_def apply_update_def apply_lifecycle_def
      apply_finish_def split: if_splits\<close>)
qed

text \<open>The example call at its choice of the referral, and at the insertion of its reservation.\<close>

abbreviation ex_alone :: "program \<Rightarrow> row_lock set \<Rightarrow> server" where
  "ex_alone p h \<equiv> alone_at ex_wait (Allocate 7 9 1) p h"

abbreviation ex_wanted :: bed_row where "ex_wanted \<equiv> ex_bed ''available'' 0"

lemma ex_found:
  "fetch_optional (filter (\<lambda>b. b_id b = 1) (beds ex_wait)) = Some ex_wanted"
  "b_status ex_wanted = ''available''"
  "fetch_optional (filter (\<lambda>s. s_id s = b_shelter_id ex_wanted) (shelters ex_wait)) = Some ex_shelter"
  "UnitType_from_db_str (b_unit_type ex_wanted) = Inr General"
  by (simp_all add: ex_defs ex_unit)

lemma ex_choosing_reached:
  "(server_step UNIV)\<^sup>*\<^sup>* (idle_server ex_wait)
     (ex_alone (allocate_choose 7 9 1 ex_wanted ''north'' (attrs_of General ex_wanted)) {Bed_lock 1})"
  using choosing_reached [OF ex_found, of UNIV 7 9] by (simp add: ex_shelter_def)

lemma ex_chosen_reached:
  "(server_step UNIV)\<^sup>*\<^sup>* (idle_server ex_wait)
     (ex_alone (allocate_write 7 9 1 ex_wanted (ex_referral 2 90 5 ''pending''))
        {Bed_lock 1, Referral_lock 2})"
  using chosen_reached [OF ex_found, of "ex_referral 2 90 5 ''pending''" UNIV 7 9] ex_choose
  by (simp add: ex_shelter_def ex_referral_def)

theorem fresh_reservations_are_never_refused_witness:
  "insert_reservation_row (new_reservation 7 1 2 9) ex_wait =
     Inr (ex_wait\<lparr>reservations := [new_reservation 7 1 2 9]\<rparr>)"
proof -
  let ?c = "ex_alone (allocate_write 7 9 1 ex_wanted (ex_referral 2 90 5 ''pending''))
      {Bed_lock 1, Referral_lock 2}"
  let ?x = "\<lparr>call = Allocate 7 9 1,
      rest = allocate_write 7 9 1 ex_wanted (ex_referral 2 90 5 ''pending''),
      written = [], held = {Bed_lock 1, Referral_lock 2}\<rparr>"
  obtain k where k: "rest ?x = Execute (Insert_reservation (new_reservation 7 1 2 9)) k"
    by (simp add: allocate_write_def new_reservation_def ex_referral_def)
  have "running ?c 0 = Some ?x" by simp
  from fresh_reservations_are_never_refused [OF ex_inv(1) ex_chosen_reached this k]
  have "map_sum id (\<lambda>_. ()) (insert_reservation_row (new_reservation 7 1 2 9) ex_wait) = Inr ()"
    by (simp add: ex_db_def)
  then obtain d where d: "insert_reservation_row (new_reservation 7 1 2 9) ex_wait = Inr d"
    by (cases "insert_reservation_row (new_reservation 7 1 2 9) ex_wait") simp_all
  then show ?thesis using insert_reservation_Inr [OF d] by (simp add: ex_db_def)
qed

lemma pending_locked:
  assumes "point d q p ws h" and inv: "booking_inv d" and r: "r \<in> set (referrals d)"
    "r_status r = ''pending''" and "Referral_lock (r_id r) \<in> h"
  shows "(\<exists>reply. p = Rollback reply) \<or>
    (\<exists>i now bed b s u. q = Allocate i now bed \<and> Bed_lock bed \<in> h \<and> winner d bed b s u r)"
proof -
  note ok = booking_inv_parts(1) [OF inv]
  have same: "r' = r" if "r' \<in> set (referrals d)" "r_id r' = r_id r" for r'
    by (rule distinct_key_eq [OF schema_ok_keys(3) [OF ok] that(1) r(1) that(2)])
  have winner: "winner d bed b s u r" if "winner d bed b s u r'" "r_id r = r_id r'" for bed b s u r'
    using that same [of r'] by (simp add: winner_def)
  from assms(1,5) show ?thesis
  proof (induction rule: point.induct)
    case (repended event bed sq b ns v vs r' now)
    have "v \<in> set (live_on bed d)" using repended(3) by simp
    with live_matched [OF inv repended(4) _ _ repended(5)] have "r_status r' = ''matched''"
      by (simp add: live_on_set)
    moreover have "r_id r' = r_id r" using repended(6) by auto
    ultimately show ?case using same [OF repended(4)] r(2) by simp
  qed (auto simp: award_locks_def dest: winner)
qed

text \<open>
  C7.  Priority among concurrent transactions: when an allocation chooses a referral, every
  other one that waits for this bed and comes before it is locked at that moment by another
  allocation in flight, which is about to give it another bed or is about to roll back.
\<close>

theorem concurrent_choice_is_the_best_unlocked:
  assumes "booking_inv d" and "(server_step A)\<^sup>*\<^sup>* (idle_server d) c" and "running c t = Some x"
    and "call x = Allocate i now bed" and "rest x = Execute (Select_referral_skip_locked region a) k"
    and "answer_of (skips c t) (Select_referral_skip_locked region a) (view (written x) (stored c)) =
      Referral (Some r)"
  shows "r \<in> set (referrals (stored c)) \<and> pending_filter region a r \<and>
    (\<forall>q\<in>set (referrals (stored c)). pending_filter region a q \<longrightarrow> order_key q < order_key r \<longrightarrow>
       (\<exists>t' y. t' \<noteq> t \<and> running c t' = Some y \<and> Referral_lock (r_id q) \<in> held y \<and>
          ((\<exists>reply. rest y = Rollback reply) \<or>
           (\<exists>i' now' bed'. call y = Allocate i' now' bed' \<and> bed' \<noteq> bed))))"
proof -
  note inv = server_inv_reached [OF assms(1,2)]
  have here: "written x = []" "Bed_lock bed \<in> held x"
    using at_point(2) [OF inv assms(3)] assms(4,5)
    by (cases; simp add: allocate_program_def allocate_locked_def allocate_choose_def
        allocate_write_def allocate_tail)+
  have chosen: "choose_referral (skips c t) region a (stored c) = Some r"
    using assms(6) here(1) by simp
  have "\<exists>t' y. t' \<noteq> t \<and> running c t' = Some y \<and> Referral_lock (r_id q) \<in> held y \<and>
      ((\<exists>reply. rest y = Rollback reply) \<or> (\<exists>i' now' bed'. call y = Allocate i' now' bed' \<and> bed' \<noteq> bed))"
    if q: "q \<in> set (referrals (stored c))" "pending_filter region a q" "order_key q < order_key r" for q
  proof -
    have "Referral_lock (r_id q) \<in> held_by_others c t"
      using choose_referral_Some(4) [OF chosen] q by (auto simp: skips_def not_le [symmetric])
    then obtain t' y where y: "t' \<noteq> t" "running c t' = Some y" "Referral_lock (r_id q) \<in> held y"
      by (rule held_elsewhere)
    have "r_status q = ''pending''" using q(2) by (simp add: pending_filter_def)
    note who = pending_locked [OF at_point(2) [OF inv y(2)] server_inv_parts(1) [OF inv] q(1) this y(3)]
    have "Bed_lock bed \<notin> held y"
      using locks_disjointD [OF server_inv_parts(2) [OF inv] y(1,2) assms(3)] here(2) by blast
    with who y show ?thesis by blast
  qed
  with choose_referral_Some(1,2) [OF chosen] show ?thesis by blast
qed

theorem concurrent_choice_is_the_best_unlocked_witness:
  "pending_filter ''north'' (attrs_of General ex_wanted) (ex_referral 2 90 5 ''pending'')"
proof -
  let ?p = "allocate_choose 7 9 1 ex_wanted ''north'' (attrs_of General ex_wanted)"
  let ?x = "\<lparr>call = Allocate 7 9 1, rest = ?p, written = [], held = {Bed_lock 1}\<rparr>"
  obtain k where k: "rest ?x = Execute (Select_referral_skip_locked ''north'' (attrs_of General ex_wanted)) k"
    by (simp add: allocate_choose_def)
  have x: "running (ex_alone ?p {Bed_lock 1}) 0 = Some ?x" by simp
  have "call ?x = Allocate 7 9 1" by simp
  note best = concurrent_choice_is_the_best_unlocked [OF ex_inv(1) ex_choosing_reached x this k,
      of "ex_referral 2 90 5 ''pending''"]
  show ?thesis
    using best ex_choose [of "''available''" 0 "[]" "[]"]
    by simp
qed

text \<open>
  C3.  The transactions of the matcher refine the board: an award is the award of the board, to
  somebody in line for an available bed, and an applied event is the report of the board; all
  other replies leave the board as it is.
\<close>

theorem matcher_refines_the_board:
  assumes "booking_inv d"
  shows "(case allocate_tx locked i now bed d of
      (Inr (Some a), d') \<Rightarrow> bed_id a = bed \<and> status_shown d bed = Some Available \<and>
        referral_id a \<in> line_shown d \<and> board_of d' = award_on_board bed (referral_id a) (board_of d)
    | (_, d') \<Rightarrow> board_of d' = board_of d) \<and>
    (case apply_tx event bed ns sq now d of
      (Inr (Applied _ _), d') \<Rightarrow> board_of d' = report_on_board bed ns (board_of d)
    | (_, d') \<Rightarrow> board_of d' = board_of d)"
proof
  obtain res d' where tx: "allocate_tx locked i now bed d = (res, d')" by fastforce
  then show "case allocate_tx locked i now bed d of
      (Inr (Some a), d') \<Rightarrow> bed_id a = bed \<and> status_shown d bed = Some Available \<and>
        referral_id a \<in> line_shown d \<and> board_of d' = award_on_board bed (referral_id a) (board_of d)
    | (_, d') \<Rightarrow> board_of d' = board_of d"
  proof (cases rule: allocate_tx_cases)
    case (won b s u r)
    with award_db_step [OF assms tx [unfolded won(9)]] tx show ?thesis by simp
  qed (simp_all add: tx)
next
  obtain res d' where tx: "apply_tx event bed ns sq now d = (res, d')" by fastforce
  then show "case apply_tx event bed ns sq now d of
      (Inr (Applied _ _), d') \<Rightarrow> board_of d' = report_on_board bed ns (board_of d)
    | (_, d') \<Rightarrow> board_of d' = board_of d"
  proof (cases rule: apply_tx_cases)
    case (applied b)
    with report_db_step [OF assms tx [unfolded applied(6)]] tx show ?thesis by simp
  qed (simp_all add: tx)
qed

theorem matcher_refines_the_board_witness:
  "board_of ex_won = award_on_board 1 2 (board_of ex_wait)"
  using matcher_refines_the_board [OF ex_inv(1), where locked = "\<lambda>_. False" and i = 7 and now = 9
      and bed = 1] by (simp add: ex_allocate)

text \<open>
  C11.  The contract of the board holds for concurrent transactions: what the server stores goes from
  board to board by the steps of the contract, so that nobody ever holds two beds, nobody holds
  a bed and waits, and a bed that is free or in maintenance has no holder.
\<close>

theorem concurrent_server_keeps_the_contract:
  assumes "booking_inv d" and "board_ok (board_of d)" and "(server_step A)\<^sup>*\<^sup>* (idle_server d) c"
  shows "(board_step A)\<^sup>*\<^sup>* (board_of d) (board_of (stored c)) \<and> board_ok (board_of (stored c))"
proof
  have start: "server_inv A (idle_server d) \<and> booking_inv (stored (idle_server d))"
    using idle_server_inv [OF assms(1)] assms(1) by (simp add: idle_server_def)
  show "(board_step A)\<^sup>*\<^sup>* (board_of d) (board_of (stored c))"
    using concurrent_board.whole.run_seen [OF assms(3) start] by (simp add: idle_server_def)
  show "board_ok (board_of (stored c))"
    by (rule concurrent_board.whole.lift_invariant [where P = board_ok, OF assms(3) start])
      (rule board_step_ok, assumption, assumption, simp add: idle_server_def assms(2))
qed

theorem concurrent_server_keeps_the_contract_witness:
  "(board_step UNIV)\<^sup>*\<^sup>* (board_of ex_wait) (board_of ex_won) \<and> board_ok (board_of ex_won)"
  using concurrent_server_keeps_the_contract [OF ex_inv(1) reachable_board_ok ex_server_award]
    ex_wait_reachable by (simp add: idle_server_def)

text \<open>
  C33.  Every text that the program stores can be read back: in a reachable database the unit types
  and the statuses of beds and referrals parse, so that no reader of a row ever meets
  \<open>InvalidEnumValue\<close>.
\<close>

theorem stored_text_always_parses:
  assumes "reachable UNIV d"
  shows "(\<forall>b\<in>set (beds d). (\<exists>u. UnitType_from_db_str (b_unit_type b) = Inr u) \<and>
      (\<exists>st. BedStatus_from_db_str (b_status b) = Inr st)) \<and>
    (\<forall>r\<in>set (referrals d). (\<exists>u. UnitType_from_db_str (r_unit_type_required r) = Inr u) \<and>
      (\<exists>st. ReferralStatus_from_db_str (r_status r) = Inr st))"
proof (intro conjI ballI)
  note ok = booking_inv_parts(1) [OF booking.reachable_holds [OF assms]]
  fix b assume b: "b \<in> set (beds d)"
  have "bed_check b" using schema_ok_bed [OF ok b] by simp
  then show "\<exists>u. UnitType_from_db_str (b_unit_type b) = Inr u"
    using unit_type_check_parses by (auto simp: bed_check_def)
  have "bed_status_check (b_status b)" using \<open>bed_check b\<close> by (simp add: bed_check_def)
  then show "\<exists>st. BedStatus_from_db_str (b_status b) = Inr st"
    by (auto simp: bed_status_check_def BedStatus_from_db_str_def)
next
  note ok = booking_inv_parts(1) [OF booking.reachable_holds [OF assms]]
  fix r assume r: "r \<in> set (referrals d)"
  have "referral_check r" by (rule schema_ok_referral [OF ok r])
  then show "\<exists>u. UnitType_from_db_str (r_unit_type_required r) = Inr u"
    using unit_type_check_parses by (auto simp: referral_check_def)
  have "referral_status_check (r_status r)" using \<open>referral_check r\<close> by (simp add: referral_check_def)
  then show "\<exists>st. ReferralStatus_from_db_str (r_status r) = Inr st"
    by (auto simp: referral_status_check_def ReferralStatus_from_db_str_def)
qed

theorem stored_text_always_parses_witness:
  "\<exists>u. UnitType_from_db_str (b_unit_type (ex_bed ''reserved'' 0)) = Inr u"
  using stored_text_always_parses [OF ex_won_reachable] by (simp add: ex_db_def)

text \<open>
  C9.  Allocations do not wait for each other: when no transaction in flight has locked a bed, an
  allocation of it can run to its end at once, past every referral row that others have locked,
  and it leaves what the atomic transaction leaves that skips those rows.
\<close>

theorem allocations_do_not_wait:
  assumes "booking_inv d" and "(server_step A)\<^sup>*\<^sup>* (idle_server d) c" and "running c t = None"
    and "\<And>t' x. running c t' = Some x \<Longrightarrow> Bed_lock bed \<notin> held x \<and> Reservation_lock i \<notin> held x"
  shows "(server_step A)\<^sup>*\<^sup>* c (c\<lparr>stored := snd (allocate_tx (skips c t) i now bed (stored c))\<rparr>)"
proof -
  have "Bed_lock bed \<notin> held_by_others c t" "Reservation_lock i \<notin> held_by_others c t"
    using assms(4) by (blast elim: held_elsewhere)+
  then show ?thesis by (rule allocation_runs_through [OF assms(1-3)])
qed

text \<open>A second bed that suits both clients, while the first is being allocated.\<close>

definition ex_second :: bed_row where "ex_second = ex_wanted\<lparr>b_id := 2\<rparr>"

definition ex_pair :: db where "ex_pair = ex_wait\<lparr>beds := [ex_wanted, ex_second]\<rparr>"

lemma ex_pair_inv: "booking_inv ex_pair"
proof (rule db_step_booking_inv [OF _ ex_inv(1)])
  show "db_step UNIV ex_wait ex_pair"
    by (rule db_step.bed [of ex_second])
       (simp_all add: insert_bed_row_def ex_pair_def ex_second_def ex_defs bed_check_def
         unit_type_check_def bed_status_check_def)
qed

lemma ex_pair_chosen:
  "choose_referral (\<lambda>_. False) ''north'' (attrs_of General ex_wanted) ex_pair = Some (ex_referral 2 90 5 ''pending'')"
  "choose_referral (\<lambda>r. r = 2) ''north'' (attrs_of General ex_second) ex_pair = Some (ex_referral 1 10 0 ''pending'')"
  by (simp_all add: ex_pair_def ex_second_def choose_referral_def ex_defs pending_filter_def order_key_def
      less_eq_priority_def attrs_of_def)

abbreviation ex_in_flight :: server where
  "ex_in_flight \<equiv> alone_at ex_pair (Allocate 7 9 1)
     (allocate_write 7 9 1 ex_wanted (ex_referral 2 90 5 ''pending'')) {Bed_lock 1, Referral_lock 2}"

lemma ex_in_flight_reached: "(server_step {})\<^sup>*\<^sup>* (idle_server ex_pair) ex_in_flight"
proof -
  have "fetch_optional (filter (\<lambda>b. b_id b = 1) (beds ex_pair)) = Some ex_wanted"
    "b_status ex_wanted = ''available''"
    "fetch_optional (filter (\<lambda>s. s_id s = b_shelter_id ex_wanted) (shelters ex_pair)) = Some ex_shelter"
    "UnitType_from_db_str (b_unit_type ex_wanted) = Inr General"
    by (simp_all add: ex_pair_def ex_defs ex_unit)
  from chosen_reached [OF this, of "ex_referral 2 90 5 ''pending''" "{}" 7 9] ex_pair_chosen(1)
  show ?thesis by (simp add: ex_shelter_def ex_referral_def)
qed

lemma ex_in_flight_skips: "skips ex_in_flight 1 = (\<lambda>r. r = 2)"
  by (auto simp: skips_def)

lemma ex_second_allocated:
  "allocate_tx (\<lambda>r. r = 2) 8 9 2 ex_pair =
     (Inr (Some \<lparr>bed_id = 2, shelter_id = 1, referral_id = 1\<rparr>), award (new_reservation 8 2 1 9) ex_pair)"
proof -
  have "allocate_tx (\<lambda>r. r = 2) 8 9 2 ex_pair =
    (case choose_referral (\<lambda>r. r = 2) (s_region ex_shelter) (attrs_of General ex_second) ex_pair of
       None \<Rightarrow> (Inr None, ex_pair)
     | Some r \<Rightarrow>
       (case insert_reservation_row (new_reservation 8 2 (r_id r) 9) ex_pair of
          Inl e \<Rightarrow> (Inl (Failed (Database e)), ex_pair)
        | Inr _ \<Rightarrow>
          (Inr (Some \<lparr>bed_id = 2, shelter_id = b_shelter_id ex_second, referral_id = r_id r\<rparr>),
           award (new_reservation 8 2 (r_id r) 9) ex_pair)))"
    by (rule allocate_tx_decides) (simp_all add: ex_pair_def ex_second_def ex_defs ex_unit)
  moreover have "insert_reservation_row (new_reservation 8 2 1 9) ex_pair =
      Inr (ex_pair\<lparr>reservations := [new_reservation 8 2 1 9]\<rparr>)"
    by (simp add: insert_reservation_row_def ex_pair_def ex_second_def ex_defs unique_where_def
        reservation_status_check_def new_reservation_def)
  ultimately show ?thesis
    using ex_pair_chosen(2) by (simp add: ex_shelter_def ex_referral_def ex_second_def ex_bed_def)
qed

theorem allocations_do_not_wait_witness:
  "(server_step {})\<^sup>*\<^sup>* ex_in_flight (ex_in_flight\<lparr>stored := award (new_reservation 8 2 1 9) ex_pair\<rparr>)"
proof -
  have free: "Bed_lock 2 \<notin> held x \<and> Reservation_lock 8 \<notin> held x" if "running ex_in_flight t' = Some x" for t' x
    using that by (auto split: if_splits)
  have "running ex_in_flight 1 = None" by simp
  from allocations_do_not_wait [OF ex_pair_inv ex_in_flight_reached this free, where now = 9]
  show ?thesis unfolding ex_in_flight_skips by (simp add: ex_second_allocated)
qed

text \<open>
  C37.  What \<open>SKIP LOCKED\<close> costs: an allocation passes over the client of highest priority, whose row
  another one has locked, gives the bed to the next client, and when the other one is then rolled
  back, as by a lost connection, the client of higher priority waits for a bed that was
  theirs by the order of the line, although their own bed is free again.
\<close>

theorem skip_locked_passes_over:
  "\<exists>d. (server_step {})\<^sup>*\<^sup>* (idle_server ex_pair) (idle_server d) \<and>
     (\<exists>v\<in>set (reservations d). v_bed_id v = 2 \<and> v_referral_id v = 1 \<and> v_status v = ''active'') \<and>
     (\<exists>low\<in>set (referrals d). \<exists>high\<in>set (referrals d). r_id low = 1 \<and> r_id high = 2 \<and>
        order_key high < order_key low \<and> pending_filter ''north'' (attrs_of General ex_second) high) \<and>
     (\<exists>b\<in>set (beds d). b_id b = 1 \<and> b_status b = ''available'')"
proof -
  let ?d = "award (new_reservation 8 2 1 9) ex_pair" and ?c = "ex_in_flight"
  let ?c1 = "?c\<lparr>stored := ?d\<rparr>"
  have "(server_step {})\<^sup>*\<^sup>* ?c ?c1"
    using allocation_runs_through [OF ex_pair_inv ex_in_flight_reached, of 1 2 8 9]
    unfolding ex_in_flight_skips by (simp add: ex_second_allocated)
  with ex_in_flight_reached have passed: "(server_step {})\<^sup>*\<^sup>* (idle_server ex_pair) ?c1"
    by (rule rtranclp_trans)
  obtain x where "running ?c1 0 = Some x" by simp
  then have "server_step {} ?c1 (?c1\<lparr>running := (running ?c1)(0 := None)\<rparr>)"
    by (rule server_step.dropping)
  also have "?c1\<lparr>running := (running ?c1)(0 := None)\<rparr> = idle_server ?d"
    by (simp add: alone_at_def idle_server_def)
  finally have run: "(server_step {})\<^sup>*\<^sup>* (idle_server ex_pair) (idle_server ?d)"
    by (rule rtranclp.rtrancl_into_rtrancl [OF passed])
  have rows: "reservations ?d = [new_reservation 8 2 1 9]"
    "referrals ?d = [ex_referral 1 10 0 ''matched'', ex_referral 2 90 5 ''pending'']"
    "beds ?d = [ex_wanted, ex_second\<lparr>b_status := ''reserved''\<rparr>]"
    by (simp_all add: award_def new_reservation_def set_bed_status_def set_referral_status_def
        update_beds_def update_referrals_def update_where_def ex_pair_def ex_second_def ex_defs)
  have "order_key (ex_referral 2 90 5 ''pending'') < order_key (ex_referral 1 10 0 ''matched'')"
    "pending_filter ''north'' (attrs_of General ex_second) (ex_referral 2 90 5 ''pending'')"
    by (simp_all add: order_key_def less_priority_def ex_referral_def pending_filter_def attrs_of_def
        ex_second_def ex_bed_def)
  moreover have "\<exists>v\<in>set (reservations ?d). v_bed_id v = 2 \<and> v_referral_id v = 1 \<and> v_status v = ''active''"
    "\<exists>b\<in>set (beds ?d). b_id b = 1 \<and> b_status b = ''available''"
    unfolding rows by (simp_all add: new_reservation_def ex_bed_def)
  moreover have "r_id (ex_referral i vu now st) = i" for i vu now st by (simp add: ex_referral_def)
  ultimately show ?thesis using run rows(2) by (intro exI [of _ ?d]) simp
qed

end
