(* ===== verification/Reports.thy ===== *)
theory Reports
  imports Simulation
begin

section \<open>The reports of one bed\<close>

text \<open>
  The reports of a bed's terminal carry sequence numbers that grow.  Here the life of such a
  sequence of reports in the database is followed: how many of them are recorded in the ledger,
  and what the bed's row shows after the last of them.  Everybody else may run any step of the
  program but an event of this bed or one that carries the identifier of one of its reports.
\<close>

type_synonym report = "uuid \<times> BedStatus \<times> i64"

subsection \<open>A database after some of the reports\<close>

text \<open>A bed that was reported available shows this, or that an allocation reserved it since.\<close>

fun reads_as :: "BedStatus option \<Rightarrow> string \<Rightarrow> bool" where
  "reads_as None st \<longleftrightarrow> True"
| "reads_as (Some ns) st \<longleftrightarrow> st = BedStatus_as_db_str ns \<or> ns = Available \<and> st = ''reserved''"

definition bed_at :: "db \<Rightarrow> uuid \<Rightarrow> int \<Rightarrow> BedStatus option \<Rightarrow> bool" where
  "bed_at d bed n ns \<longleftrightarrow>
     (\<exists>b\<in>set (beds d). b_id b = bed \<and> sint (b_last_event_sequence b) = n \<and> reads_as ns (b_status b))"

definition event_ids :: "db \<Rightarrow> uuid set" where
  "event_ids d = e_event_id ` set (applied_events d)"

definition recorded :: "db \<Rightarrow> uuid \<Rightarrow> uuid \<Rightarrow> bool" where
  "recorded d e bed \<longleftrightarrow> (\<exists>row\<in>set (applied_events d). e_event_id row = e \<and> e_bed_id row = bed)"

fun sequence_after :: "int \<Rightarrow> report list \<Rightarrow> nat \<Rightarrow> int" where
  "sequence_after start reports 0 = start"
| "sequence_after start reports (Suc k) = sint (snd (snd (reports ! k)))"

fun status_after :: "report list \<Rightarrow> nat \<Rightarrow> BedStatus option" where
  "status_after reports 0 = None"
| "status_after reports (Suc k) = Some (fst (snd (reports ! k)))"

definition reports_ok :: "int \<Rightarrow> report list \<Rightarrow> bool" where
  "reports_ok start reports \<longleftrightarrow> distinct (map fst reports) \<and>
     (\<forall>k<length reports. sequence_after start reports k < sint (snd (snd (reports ! k))))"

definition at_report :: "uuid \<Rightarrow> int \<Rightarrow> report list \<Rightarrow> nat \<Rightarrow> db \<Rightarrow> bool" where
  "at_report bed start reports n d \<longleftrightarrow> booking_inv d \<and> n \<le> length reports \<and>
     (\<forall>k<n. recorded d (fst (reports ! k)) bed) \<and>
     (\<forall>k<length reports. n \<le> k \<longrightarrow> fst (reports ! k) \<notin> event_ids d) \<and>
     bed_at d bed (sequence_after start reports n) (status_after reports n)"

lemma recorded_event_ids: "recorded d e bed \<Longrightarrow> e \<in> event_ids d"
  by (auto simp: recorded_def event_ids_def)

lemma recorded_mono:
  "set (applied_events d) \<subseteq> set (applied_events d') \<Longrightarrow> recorded d e bed \<Longrightarrow> recorded d' e bed"
  by (auto simp: recorded_def)

subsection \<open>What others do\<close>

definition other_step :: "uuid \<Rightarrow> uuid set \<Rightarrow> db \<Rightarrow> db \<Rightarrow> bool" where
  "other_step bed E d d' \<longleftrightarrow> db_step UNIV d d' \<and>
     (\<forall>row\<in>set (applied_events d'). row \<in> set (applied_events d) \<or>
        e_bed_id row \<noteq> bed \<and> e_event_id row \<notin> E)"

definition sole_reporter :: "uuid \<Rightarrow> uuid set \<Rightarrow> script \<Rightarrow> bool" where
  "sole_reporter bed E s \<longleftrightarrow> (\<forall>k d. (other_step bed E)\<^sup>*\<^sup>* d (mv_interfere (s k) d))"

lemma alone_sole_reporter: "alone s \<Longrightarrow> sole_reporter bed E s"
  by (simp add: alone_def sole_reporter_def)

lemma others_program: "(other_step bed E)\<^sup>*\<^sup>* d d' \<Longrightarrow> (db_step UNIV)\<^sup>*\<^sup>* d d'"
  by (erule rtranclp_mono [THEN predicate2D, rotated]) (auto simp: other_step_def)

lemma sole_reporter_fair: "sole_reporter bed E s \<Longrightarrow> fair_script UNIV s"
  unfolding sole_reporter_def fair_script_def using others_program by blast

lemma db_step_ledger: "db_step A d d' \<Longrightarrow> set (applied_events d) \<subseteq> set (applied_events d')"
proof (induction rule: db_step.induct)
  case (referral i caseworker region needs vulnerability family now d d')
  then obtain r where "insert_referral_row r d = Inr d'" by (blast elim: insert_referral_Inr_row)
  then show ?case using insert_referral_Inr by fastforce
next
  case (allocation locked i now bed d a d')
  then show ?case by (cases rule: allocate_tx_cases) (simp_all add: award_tables)
next
  case (event e bed ns sq now d sh av d')
  from event(1) show ?case by (cases rule: apply_tx_cases) (auto simp: applied_db_tables)
next
  case (shelter s d d')
  then show ?case by (auto simp: insert_shelter_row_def split: if_splits)
next
  case (bed b d d')
  then show ?case by (auto simp: insert_bed_row_def split: if_splits)
next
  case (reorder d d')
  then show ?case by (simp add: reordered_sets)
qed

lemma bed_at_update:
  assumes "bed_at d bed n ns" and "beds d' = update_where P f (beds d)"
    and keeps: "\<And>b. b \<in> set (beds d) \<Longrightarrow> P b \<Longrightarrow> b_id b = bed \<Longrightarrow> reads_as ns (b_status b) \<Longrightarrow>
      b_id (f b) = bed \<and> b_last_event_sequence (f b) = b_last_event_sequence b \<and>
      reads_as ns (b_status (f b))"
  shows "bed_at d' bed n ns"
proof -
  obtain b where b: "b \<in> set (beds d)" "b_id b = bed" "sint (b_last_event_sequence b) = n"
    "reads_as ns (b_status b)" using assms(1) by (auto simp: bed_at_def)
  let ?b = "if P b then f b else b"
  have "?b \<in> set (beds d')" using b(1) assms(2) by (auto simp: in_update_where)
  moreover have "b_id ?b = bed \<and> sint (b_last_event_sequence ?b) = n \<and> reads_as ns (b_status ?b)"
    using b keeps [OF b(1)] by simp
  ultimately show ?thesis unfolding bed_at_def by blast
qed

lemma reads_as_reserved: "reads_as ns ''available'' \<Longrightarrow> reads_as ns ''reserved''"
proof (cases ns)
  case (Some st)
  assume "reads_as ns ''available''"
  with Some show ?thesis by (cases st) simp_all
qed simp

lemma award_bed_at:
  assumes ok: "schema_ok d" and c: "c \<in> set (beds d)" "b_id c = v_bed_id v" "b_status c = ''available''"
    and at: "bed_at d bed n ns"
  shows "bed_at (award v d) bed n ns"
proof (rule bed_at_update [OF at award_tables(4)])
  fix b assume b: "b \<in> set (beds d)" "b_id b = v_bed_id v" "b_id b = bed" "reads_as ns (b_status b)"
  have "b = c" using distinct_key_eq [OF schema_ok_keys(2) [OF ok] b(1) c(1)] b(2) c(2) by simp
  with b c(3) reads_as_reserved [of ns]
  show "b_id (b\<lparr>b_status := ''reserved''\<rparr>) = bed \<and>
      b_last_event_sequence (b\<lparr>b_status := ''reserved''\<rparr>) = b_last_event_sequence b \<and>
      reads_as ns (b_status (b\<lparr>b_status := ''reserved''\<rparr>))" by simp
qed

lemma other_step_bed_at:
  assumes "other_step bed E d d'" and ok: "schema_ok d" and at: "bed_at d bed n ns"
  shows "bed_at d' bed n ns"
proof -
  have step: "db_step UNIV d d'"
    and new: "\<forall>row\<in>set (applied_events d'). row \<in> set (applied_events d) \<or> e_bed_id row \<noteq> bed"
    using assms(1) by (auto simp: other_step_def)
  from step show ?thesis
  proof cases
    case (referral i caseworker region needs vulnerability family now)
    then obtain r where "insert_referral_row r d = Inr d'" by (blast elim: insert_referral_Inr_row)
    with at insert_referral_Inr [of r d d'] show ?thesis by (simp add: bed_at_def)
  next
    case (allocation locked i now b a)
    from allocation show ?thesis
    proof (cases rule: allocate_tx_cases)
      case (won c sr u r)
      then show ?thesis using award_bed_at [OF ok _ _ _ at, of c] by simp
    qed simp_all
  next
    case (event e b ns' sq now sh av)
    from event(1) show ?thesis
    proof (cases rule: apply_tx_cases)
      case (applied c)
      let ?row = "\<lparr>e_event_id = e, e_bed_id = b, e_applied_at = now\<rparr>"
      have "?row \<notin> set (applied_events d)" using applied(1) by force
      with new applied have "b \<noteq> bed" by (auto simp: applied_db_tables)
      then show ?thesis
        unfolding applied(7) by (intro bed_at_update [OF at applied_db_tables(3)]) simp
    qed (use event(1) in simp_all)
  next
    case (shelter sr)
    with at show ?thesis by (auto simp: bed_at_def insert_shelter_row_def split: if_splits)
  next
    case (bed b)
    with at show ?thesis by (auto simp: bed_at_def insert_bed_row_def split: if_splits)
  next
    case reorder
    with at show ?thesis by (simp add: bed_at_def reordered_sets)
  qed
qed

lemma other_step_at_report:
  assumes step: "other_step bed (fst ` set reports) d d'" and at: "at_report bed start reports n d"
  shows "at_report bed start reports n d'"
proof -
  have db: "db_step UNIV d d'" using step by (simp add: other_step_def)
  have inv: "booking_inv d" using at by (simp add: at_report_def)
  have "booking_inv d'" by (rule db_step_booking_inv [OF db inv])
  moreover have "bed_at d' bed (sequence_after start reports n) (status_after reports n)"
    using other_step_bed_at [OF step booking_inv_parts(1) [OF inv]] at by (simp add: at_report_def)
  moreover have "fst (reports ! k) \<notin> event_ids d'" if "k < length reports" "n \<le> k" for k
  proof
    assume "fst (reports ! k) \<in> event_ids d'"
    then obtain row where row: "row \<in> set (applied_events d')" "e_event_id row = fst (reports ! k)"
      by (auto simp: event_ids_def)
    have "e_event_id row \<in> fst ` set reports" using row(2) that(1) by simp
    with step row(1) have "row \<in> set (applied_events d)" unfolding other_step_def by blast
    then have "fst (reports ! k) \<in> event_ids d" unfolding event_ids_def row(2) [symmetric] by simp
    with at that show False by (simp add: at_report_def)
  qed
  ultimately show ?thesis
    using at recorded_mono [OF db_step_ledger [OF db]] by (simp add: at_report_def)
qed

lemma others_at_report:
  "(other_step bed (fst ` set reports))\<^sup>*\<^sup>* d d' \<Longrightarrow> at_report bed start reports n d \<Longrightarrow>
     at_report bed start reports n d'"
  by (induction rule: rtranclp_induct) (auto intro: other_step_at_report)

subsection \<open>Applying a report\<close>

lemma applied_bed_at:
  assumes "b \<in> set (beds d)" "b_id b = bed"
  shows "bed_at (applied_db e bed ns sq now d) bed (sint sq) (Some ns)"
  using assms unfolding bed_at_def applied_db_tables
  by (intro bexI [of _ "b\<lparr>b_status := BedStatus_as_db_str ns, b_last_event_sequence := sq\<rparr>"])
     (auto simp: in_update_where)

text \<open>The next report is applied.\<close>

lemma apply_next_report:
  assumes ok: "reports_ok start reports" and at: "at_report bed start reports n d"
    and n: "n < length reports" "reports ! n = (e, ns, sq)"
    and tx: "apply_tx e bed ns sq now d = (r, d')"
  shows "\<exists>sh av. r = Inr (Applied sh av) \<and> at_report bed start reports (Suc n) d'"
proof -
  have less: "sequence_after start reports n < sint sq" using ok n by (auto simp: reports_ok_def)
  have e: "e \<notin> event_ids d" using at n unfolding at_report_def by fastforce
  obtain c where c: "c \<in> set (beds d)" "b_id c = bed"
    "sint (b_last_event_sequence c) = sequence_after start reports n"
    using at by (auto simp: at_report_def bed_at_def)
  have inv: "booking_inv d" using at by (simp add: at_report_def)
  note keys = schema_ok_keys(2) [OF booking_inv_parts(1) [OF inv]]
  from tx show ?thesis
  proof (cases rule: apply_tx_cases)
    case (applied b)
    let ?row = "\<lparr>e_event_id = e, e_bed_id = bed, e_applied_at = now\<rparr>"
    have rows: "applied_events d' = applied_events d @ [?row]"
      by (simp add: applied(7) applied_db_tables)
    have "booking_inv d'" by (rule apply_tx_booking_inv [OF inv tx])
    moreover have "recorded d' (fst (reports ! k)) bed" if "k < Suc n" for k
    proof (cases "k = n")
      case True
      with n(2) rows show ?thesis by (simp add: recorded_def)
    next
      case False
      with at that have "recorded d (fst (reports ! k)) bed" by (simp add: at_report_def)
      then show ?thesis by (rule recorded_mono [rotated]) (auto simp: rows)
    qed
    moreover have "fst (reports ! k) \<notin> event_ids d'" if "k < length reports" "Suc n \<le> k" for k
    proof -
      have "fst (reports ! k) \<noteq> e"
        using ok that n nth_eq_iff_index_eq [of "map fst reports" k n] by (auto simp: reports_ok_def)
      moreover have "fst (reports ! k) \<notin> event_ids d" using at that by (simp add: at_report_def)
      ultimately show ?thesis by (simp add: event_ids_def rows)
    qed
    moreover have "bed_at d' bed (sequence_after start reports (Suc n)) (status_after reports (Suc n))"
      using applied_bed_at [OF applied(3,4)] n(2) by (simp add: applied(7))
    ultimately show ?thesis using n(1) applied(6) by (simp add: at_report_def)
  next
    case (stale b)
    from fetch_filter_Some [OF stale(2)] c distinct_key_eq [OF keys, of b c]
    have "b = c" by simp
    with stale(3) c(3) less show ?thesis by simp
  qed (use e c in \<open>auto simp: event_ids_def\<close>)
qed

text \<open>An earlier report is a duplicate; so any report up to the next one may come.\<close>

lemma apply_report:
  assumes ok: "reports_ok start reports" and at: "at_report bed start reports n d"
    and k: "k \<le> n" "k < length reports" "reports ! k = (e, ns, sq)"
    and tx: "apply_tx e bed ns sq now d = (r, d')"
  obtains out where "r = Inr out" "out \<noteq> UnknownBed" "at_report bed start reports (max n (Suc k)) d'"
proof (cases "k = n")
  case True
  from apply_next_report [OF ok at _ _ tx] k True show thesis by (auto intro!: that)
next
  case False
  with k(1) at have "recorded d (fst (reports ! k)) bed" by (simp add: at_report_def)
  then have "recorded d e bed" by (simp add: k(3))
  then have "e \<in> e_event_id ` set (applied_events d)" by (auto simp: recorded_def)
  with tx have "r = Inr Duplicate" "d' = d"
    by (simp_all add: apply_tx_def insert_applied_event_def)
  moreover have "max n (Suc k) = n" using False k(1) by simp
  ultimately show thesis using at by (intro that [of Duplicate]) simp_all
qed

subsection \<open>The transactions of the consumer\<close>

definition quiet_tx :: "uuid \<Rightarrow> uuid set \<Rightarrow> 'a tx \<Rightarrow> bool" where
  "quiet_tx bed E q \<longleftrightarrow> (\<forall>d. (other_step bed E)\<^sup>*\<^sup>* d (snd (q d)))"

lemma program_step_others:
  assumes "db_step UNIV d d'" and "applied_events d' = applied_events d"
  shows "other_step bed E d d'"
  using assms by (simp add: other_step_def)

lemma allocate_tx_quiet: "quiet_tx bed E (allocate_tx locked i now b)"
  unfolding quiet_tx_def
proof
  fix d
  obtain res d' where tx: "allocate_tx locked i now b d = (res, d')" by fastforce
  then show "(other_step bed E)\<^sup>*\<^sup>* d (snd (allocate_tx locked i now b d))"
  proof (cases rule: allocate_tx_cases)
    case (won c s u r)
    with tx have "db_step UNIV d d'" by (auto intro: db_step.allocation)
    moreover have "applied_events d' = applied_events d" using won by (simp add: award_tables)
    ultimately show ?thesis using tx by (simp add: program_step_others r_into_rtranclp)
  qed (simp_all add: tx)
qed

lemma insert_referral_quiet: "quiet_tx bed E (insert_referral i cw rg nd vu fa now)"
  unfolding quiet_tx_def
proof
  fix d
  let ?q = "insert_referral i cw rg nd vu fa now d"
  show "(other_step bed E)\<^sup>*\<^sup>* d (snd ?q)"
  proof (cases "fst ?q")
    case (Inl e)
    then show ?thesis by (auto simp: insert_referral_def lift_insert_def split: sum.splits)
  next
    case (Inr u)
    then have q: "?q = (Inr (), snd ?q)" by (simp add: prod_eq_iff)
    then have "db_step UNIV d (snd ?q)" by (rule db_step.referral)
    moreover obtain r where "insert_referral_row r d = Inr (snd ?q)"
      using q by (blast elim: insert_referral_Inr_row)
    then have "applied_events (snd ?q) = applied_events d" using insert_referral_Inr by fastforce
    ultimately show ?thesis by (simp add: program_step_others r_into_rtranclp)
  qed
qed

lemma read_only_quiet:
  "quiet_tx bed E (candidate_bed region needs)" "quiet_tx bed E (final_outcome referral)"
  "quiet_tx bed E (available_count_tx region)" "quiet_tx bed E (region_of_shelter_tx shelter)"
  by (auto simp: quiet_tx_def candidate_bed_def final_outcome_def available_count_tx_def
      region_of_shelter_tx_def lift_sqlx_def split: sum.splits)

lemma other_event_quiet:
  assumes "b \<noteq> bed" and "e \<notin> E"
  shows "quiet_tx bed E (apply_tx e b ns sq now)"
  unfolding quiet_tx_def
proof
  fix d
  obtain res d' where tx: "apply_tx e b ns sq now d = (res, d')" by fastforce
  then show "(other_step bed E)\<^sup>*\<^sup>* d (snd (apply_tx e b ns sq now d))"
  proof (cases rule: apply_tx_cases)
    case (applied c)
    with tx have "db_step UNIV d d'" by (auto intro: db_step.event)
    moreover have "row \<in> set (applied_events d) \<or> e_bed_id row \<noteq> bed \<and> e_event_id row \<notin> E"
      if "row \<in> set (applied_events d')" for row
      using that assms by (auto simp: applied(7) applied_db_tables)
    ultimately show ?thesis using tx by (simp add: other_step_def r_into_rtranclp)
  qed (simp_all add: tx)
qed

definition others_only :: "uuid \<Rightarrow> uuid set \<Rightarrow> script \<Rightarrow> AppState \<Rightarrow> AppState \<Rightarrow> bool" where
  "others_only bed E s st st' \<longleftrightarrow>
     (sole_reporter bed E s \<longrightarrow> (other_step bed E)\<^sup>*\<^sup>* (pool st) (pool st'))"

lemma exec_others:
  assumes "\<And>m. quiet_tx bed E (q m)" and "exec s q st = (r, st')"
  shows "others_only bed E s st st'"
  unfolding others_only_def
proof
  assume "sole_reporter bed E s"
  then have "(other_step bed E)\<^sup>*\<^sup>* (pool st) (mv_interfere (s (pos st)) (pool st))"
    by (simp add: sole_reporter_def)
  moreover have "(other_step bed E)\<^sup>*\<^sup>* (mv_interfere (s (pos st)) (pool st)) (pool st')"
    using exec_pool [OF assms(2)] assms(1) by (auto simp: quiet_tx_def)
  ultimately show "(other_step bed E)\<^sup>*\<^sup>* (pool st) (pool st')" by simp
qed

text \<open>So the session guarantee holds of everything but events, and of events of other beds.\<close>

interpretation others_only: session_guarantee s "others_only bed E s" for s bed E
proof
  fix st st' st'' :: AppState
  assume "others_only bed E s st st'" "others_only bed E s st' st''"
  then show "others_only bed E s st st''" by (auto simp: others_only_def)
qed (auto simp: others_only_def [of _ _ _ st st for st] resolve_final_outcome_def
      allocate_for_bed_def region_of_shelter_def available_count_in_region_def
      intro: exec_others [OF insert_referral_quiet] exec_others [OF read_only_quiet(1)]
        exec_others [OF read_only_quiet(2)] exec_others [OF allocate_tx_quiet]
        exec_others [OF read_only_quiet(3)] exec_others [OF read_only_quiet(4)])

interpretation others_consumer: consumer_guarantee s "others_only bed E s" "{}" for s bed E
  by unfold_locales (simp_all add: others_only_def)

subsection \<open>Attempts\<close>

text \<open>An attempt with an event of another bed leaves the reports of this bed alone.\<close>

lemma other_attempt:
  assumes "b \<noteq> bed" and "e \<notin> E" and run: "apply_and_notify X s e b ns ev st = (x, st')"
  shows "others_only bed E s st st'"
  using run unfolding apply_and_notify_def
proof (rule try_bind_cases)
  fix f assume "apply_bed_status_event s e b ns (ev_sequence ev) st = (Inl f, st')"
  then show ?thesis
    unfolding apply_bed_status_event_def by (rule exec_others [OF other_event_quiet [OF assms(1,2)]])
next
  fix out st1 assume a: "apply_bed_status_event s e b ns (ev_sequence ev) st = (Inr out, st1)"
    and k: "(case out of
         UnknownBed \<Rightarrow> (Inr (), st1)
       | Duplicate \<Rightarrow> allocate_and_notify X s None b ns ev st1
       | Stale \<Rightarrow> allocate_and_notify X s None b ns ev st1
       | Applied shelter _ \<Rightarrow> allocate_and_notify X s (Some shelter) b ns ev st1) = (x, st')"
  have "others_only bed E s st st1"
    using a unfolding apply_bed_status_event_def
    by (rule exec_others [OF other_event_quiet [OF assms(1,2)]])
  moreover have "others_only bed E s st1 st'"
    using k others_consumer.allocate_and_notify_R others_only.refl
    by (auto split: ApplyOutcome.splits)
  ultimately show ?thesis by (rule others_only.trans)
qed

text \<open>
  An attempt with report \<open>k\<close>, which may fail before or after the event took effect; when it
  returns normally, the event did.
\<close>

lemma report_attempt:
  assumes sole: "sole_reporter bed (fst ` set reports) s" and ok: "reports_ok start reports"
    and at: "at_report bed start reports n (pool st)"
    and k: "k \<le> n" "k < length reports" "reports ! k = (e, ns, ev_sequence ev)"
    and run: "apply_and_notify X s e bed ns ev st = (x, st')"
  obtains m where "m \<in> {n, max n (Suc k)}" "at_report bed start reports m (pool st')"
    "\<not> isl x \<Longrightarrow> m = max n (Suc k)"
proof -
  let ?q = "\<lambda>m. apply_tx e bed ns (ev_sequence ev) (mv_now m)"
  let ?d = "mv_interfere (s (pos st)) (pool st)"
  let ?at = "\<lambda>m. at_report bed start reports m"
  have atd: "?at n ?d"
    using sole at by (auto simp: sole_reporter_def intro: others_at_report)
  obtain r d where tx: "?q (s (pos st)) ?d = (r, d)" by fastforce
  obtain out where out: "r = Inr out" "out \<noteq> UnknownBed" "?at (max n (Suc k)) d"
    by (rule apply_report [OF ok atd k tx])
  from run consider (failed) f where "apply_bed_status_event s e bed ns (ev_sequence ev) st = (Inl f, st')"
      "x = Inl f"
    | (applied) o' st1 where "apply_bed_status_event s e bed ns (ev_sequence ev) st = (Inr o', st1)"
      "(case o' of
         UnknownBed \<Rightarrow> (Inr (), st1)
       | Duplicate \<Rightarrow> allocate_and_notify X s None bed ns ev st1
       | Stale \<Rightarrow> allocate_and_notify X s None bed ns ev st1
       | Applied shelter _ \<Rightarrow> allocate_and_notify X s (Some shelter) bed ns ev st1) = (x, st')"
    unfolding apply_and_notify_def by (rule try_bind_cases) blast+
  then show thesis
  proof cases
    case failed
    from exec_pool [OF failed(1) [unfolded apply_bed_status_event_def]] tx
    have "pool st' = ?d \<or> pool st' = d" by simp
    then show thesis
    proof
      assume "pool st' = ?d"
      with atd failed(2) show thesis by (intro that [of n]) simp_all
    next
      assume "pool st' = d"
      with out(3) failed(2) show thesis by (intro that [of "max n (Suc k)"]) simp_all
    qed
  next
    case applied
    have 1: "o' = out" "pool st1 = d"
      using applied(1) tx out(1) by (auto simp: apply_bed_status_event_def exec_Inr)
    have "others_only bed (fst ` set reports) s st1 st'"
      using applied(2) 1(1) out(2) others_consumer.allocate_and_notify_R
      by (auto split: ApplyOutcome.splits)
    with sole 1(2) have "(other_step bed (fst ` set reports))\<^sup>*\<^sup>* d (pool st')"
      by (simp add: others_only_def)
    from others_at_report [OF this out(3)] show thesis by (intro that [of "max n (Suc k)"]) simp_all
  qed
qed

lemma report_retried:
  assumes sole: "sole_reporter bed (fst ` set reports) s" and ok: "reports_ok start reports"
    and at: "at_report bed start reports n (pool st)"
    and k: "k \<le> n" "k < length reports" "reports ! k = (e, ns, ev_sequence ev)"
    and run: "retry X s e bed ns ev i pauses st = Some (Inr r, st')"
  shows "at_report bed start reports (max n (Suc k)) (pool st')"
proof -
  obtain st1 u where st1: "(attempt X s e bed ns ev)\<^sup>*\<^sup>* st st1"
    "apply_and_notify X s e bed ns ev st1 = (Inr u, st')"
    using retry_attempts [OF run] by auto
  have "\<exists>m\<in>{n, max n (Suc k)}. at_report bed start reports m (pool st1)"
    using st1(1)
  proof (induction rule: rtranclp_induct)
    case base
    from at show ?case by blast
  next
    case (step st2 st3)
    then obtain m f where m: "m \<in> {n, max n (Suc k)}" "at_report bed start reports m (pool st2)"
      "apply_and_notify X s e bed ns ev st2 = (Inl f, st3)" by (auto simp: attempt_def)
    have "k \<le> m" using m(1) k(1) by auto
    from report_attempt [OF sole ok m(2) this k(2,3) m(3)] m(1) show ?case by fastforce
  qed
  then obtain m where m: "m \<in> {n, max n (Suc k)}" "at_report bed start reports m (pool st1)" by blast
  have "k \<le> m" using m(1) k(1) by auto
  from report_attempt [OF sole ok m(2) this k(2,3) st1(2)] m(1) show ?thesis by fastforce
qed

end
