(* ===== verification/Reporting.thy ===== *)
theory Reporting
  imports Reports "HOL-Library.Sublist"
begin

section \<open>Reports through the consumer, and on their way to it\<close>

text \<open>
  The reports of one bed among the messages that the consumer receives: every one of them at
  least once and never one before those ahead of it, as a partition is read from a committed
  offset, again and again.  And the way from the terminal to the topic: the simulator's events,
  of which some reach intake and some are accepted.
\<close>

subsection \<open>The reports of a bed among messages\<close>

definition report_of :: "externals \<Rightarrow> uuid \<Rightarrow> kafka_message \<Rightarrow> report option" where
  "report_of X bed msg = (case message_event X msg of
      None \<Rightarrow> None
    | Some (e, b, ev) \<Rightarrow>
        if b = bed then Some (e, BedStatus_from_proto (event_status X (ev_status ev)), ev_sequence ev)
        else None)"

definition bed_reports :: "externals \<Rightarrow> uuid \<Rightarrow> kafka_message list \<Rightarrow> report list" where
  "bed_reports X bed msgs = List.map_filter (report_of X bed) msgs"

lemma bed_reports_simps [simp]:
  "bed_reports X bed [] = []"
  "bed_reports X bed (msg # msgs) =
     (case report_of X bed msg of None \<Rightarrow> [] | Some r \<Rightarrow> [r]) @ bed_reports X bed msgs"
  "bed_reports X bed (msgs @ msgs') = bed_reports X bed msgs @ bed_reports X bed msgs'"
  by (simp_all add: bed_reports_def List.map_filter_def split: option.split)

text \<open>
  A sequence of deliveries by position: after the first \<open>n\<close> reports any earlier one may come
  again, or the next one.
\<close>

fun delivers :: "nat \<Rightarrow> nat list \<Rightarrow> nat \<Rightarrow> bool" where
  "delivers n [] m \<longleftrightarrow> m = n"
| "delivers n (k # ks) m \<longleftrightarrow> k \<le> n \<and> delivers (max n (Suc k)) ks m"

lemma delivers_le: "delivers n ks m \<Longrightarrow> n \<le> m"
  by (induction ks arbitrary: n) (auto dest: max.bounded_iff [THEN iffD1])

lemma delivers_upt: "delivers n [n..<n + k] (n + k)"
proof (induction k arbitrary: n)
  case (Suc k)
  have "[n..<n + Suc k] = n # [Suc n..<Suc n + k]" by (simp add: upt_conv_Cons)
  with Suc.IH [of "Suc n"] show ?case by simp
qed simp

definition no_imposter :: "externals \<Rightarrow> uuid \<Rightarrow> uuid set \<Rightarrow> kafka_message \<Rightarrow> bool" where
  "no_imposter X bed E msg \<longleftrightarrow>
     (\<forall>e b ev. message_event X msg = Some (e, b, ev) \<longrightarrow> b = bed \<or> e \<notin> E)"

lemma no_imposter_subset: "no_imposter X bed E msg \<Longrightarrow> E' \<subseteq> E \<Longrightarrow> no_imposter X bed E' msg"
  unfolding no_imposter_def by (meson subsetD)

subsection \<open>One message, and the run\<close>

lemma message_reported:
  assumes sole: "sole_reporter bed (fst ` set reports) s" and ok: "reports_ok start reports"
    and at: "at_report bed start reports n (pool (app c))"
    and clean: "no_imposter X bed (fst ` set reports) msg"
    and k: "case report_of X bed msg of None \<Rightarrow> m = n
      | Some r \<Rightarrow> \<exists>k<length reports. r = reports ! k \<and> k \<le> n \<and> m = max n (Suc k)"
    and run: "handle_message X s commit_ok msg c = Some (Inr c')"
  shows "at_report bed start reports m (pool (app c'))"
proof (cases "message_event X msg")
  case None
  with run k at show ?thesis by (auto simp: handle_message_eq report_of_def)
next
  case (Some x)
  obtain e b ev where x: "x = (e, b, ev)" by (cases x)
  let ?ns = "BedStatus_from_proto (event_status X (ev_status ev))"
  obtain r st where st: "retry X s e b ?ns ev 0 [] (app c) = Some (Inr r, st)" "app c' = st"
    using run Some x by (auto simp: handle_message_eq split: option.splits sum.splits)
  show ?thesis
  proof (cases "b = bed")
    case True
    with k Some x obtain k where "k < length reports" "reports ! k = (e, ?ns, ev_sequence ev)"
      "k \<le> n" "m = max n (Suc k)" by (auto simp: report_of_def)
    with report_retried [OF sole ok at _ _ _ st(1) [unfolded True]] st(2) show ?thesis by simp
  next
    case False
    with clean Some x have e: "e \<notin> fst ` set reports" unfolding no_imposter_def by blast
    have "(other_step bed (fst ` set reports))\<^sup>*\<^sup>* (pool (app c)) (pool st)"
    proof -
      obtain st1 u where a: "(attempt X s e b ?ns ev)\<^sup>*\<^sup>* (app c) st1"
        "apply_and_notify X s e b ?ns ev st1 = (Inr u, st)"
        using retry_attempts [OF st(1)] by auto
      have "others_only bed (fst ` set reports) s (app c) st1"
        using a(1)
      proof (induction rule: rtranclp_induct)
        case base
        show ?case by (rule others_only.refl)
      next
        case (step st2 st3)
        then show ?case
          unfolding attempt_def using other_attempt [OF False e] others_only.trans by blast
      qed
      then have "others_only bed (fst ` set reports) s (app c) st"
        using other_attempt [OF False e a(2)] by (rule others_only.trans)
      with sole show ?thesis by (simp add: others_only_def)
    qed
    moreover have "m = n" using k Some x False by (simp add: report_of_def)
    ultimately show ?thesis using others_at_report [OF _ at] st(2) by simp
  qed
qed

lemma run_reported:
  assumes sole: "sole_reporter bed (fst ` set reports) s" and ok: "reports_ok start reports"
  shows "at_report bed start reports n (pool (app c)) \<Longrightarrow>
    \<forall>msg\<in>set (messages received). no_imposter X bed (fst ` set reports) msg \<Longrightarrow>
    bed_reports X bed (messages received) = map ((!) reports) ks \<Longrightarrow>
    set ks \<subseteq> {..<length reports} \<Longrightarrow> delivers n ks m \<Longrightarrow>
    run_consumer X s commit_ok received c = Some (Inr c') \<Longrightarrow>
    at_report bed start reports m (pool (app c'))"
proof (induction received arbitrary: c n ks rule: messages.induct)
  case (3 msg received)
  obtain c1 where c1: "handle_message X s commit_ok msg c = Some (Inr c1)"
    "run_consumer X s commit_ok received c1 = Some (Inr c')"
    using 3(7) by (auto split: option.splits sum.splits)
  have clean: "no_imposter X bed (fst ` set reports) msg" using 3(3) by simp
  note one = message_reported [OF sole ok 3(2) clean _ c1(1)]
  show ?case
  proof (cases "report_of X bed msg")
    case None
    with one have "at_report bed start reports n (pool (app c1))" by simp
    from 3(1) [OF this _ _ 3(5,6) c1(2)] 3(3,4) None show ?thesis by simp
  next
    case (Some r)
    with 3(4) obtain k ks' where ks: "ks = k # ks'" "r = reports ! k"
      "bed_reports X bed (messages received) = map ((!) reports) ks'" by (cases ks) auto
    with 3(5,6) have k: "k < length reports" "k \<le> n" "delivers (max n (Suc k)) ks' m"
      "set ks' \<subseteq> {..<length reports}" by auto
    from one [of "max n (Suc k)"] Some ks(2) k(1,2)
    have "at_report bed start reports (max n (Suc k)) (pool (app c1))" by auto
    from 3(1) [OF this _ ks(3) k(4,3) c1(2)] 3(3) show ?thesis by simp
  qed
qed simp_all

subsection \<open>From the terminal to the topic\<close>

text \<open>
  The calls of one terminal that reach intake, in order; before each of them others may have
  published records of their own.
\<close>

fun submissions ::
  "externals \<Rightarrow> producer \<Rightarrow> string \<Rightarrow> (FutureRecord list \<times> BedStatusEvent) list \<Rightarrow> FutureRecord list \<Rightarrow>
     (grpc_status + SubmitBedStatusResponse) list \<times> FutureRecord list" where
  "submissions X send topic [] log = ([], log)"
| "submissions X send topic ((others, event) # calls) log =
     (let (answer, log1) = submit_bed_status X send topic (Some event) (log @ others);
          (answers, log2) = submissions X send topic calls log1
      in (answer # answers, log2))"

definition message_of :: "nat \<Rightarrow> FutureRecord \<Rightarrow> kafka_message" where
  "message_of offset r = \<lparr>msg_payload = Some (rec_payload r), msg_offset = offset\<rparr>"

definition topic_reports :: "externals \<Rightarrow> uuid \<Rightarrow> FutureRecord list \<Rightarrow> report list" where
  "topic_reports X bed log = bed_reports X bed (map (message_of 0) log)"

lemma topic_reports_append [simp]:
  "topic_reports X bed [] = []"
  "topic_reports X bed (log @ log') = topic_reports X bed log @ topic_reports X bed log'"
  by (simp_all add: topic_reports_def)

definition event_report :: "externals \<Rightarrow> BedStatusEvent \<Rightarrow> report" where
  "event_report X event = (the (parse_uuid X (ev_event_id event)),
     BedStatus_from_proto (event_status X (ev_status event)), ev_sequence event)"

definition event_of_bed :: "externals \<Rightarrow> uuid \<Rightarrow> BedStatusEvent \<Rightarrow> bool" where
  "event_of_bed X bed event \<longleftrightarrow> (\<exists>e. parse_ids X event = Some (e, bed)) \<and>
     decode_event X (encode_event X event) = Some event"

lemma published_report:
  assumes "event_of_bed X bed event"
  shows "topic_reports X bed [\<lparr>rec_topic = topic, rec_key = key, rec_payload = encode_event X event\<rparr>] =
    [event_report X event]"
  using assms by (auto simp: event_of_bed_def topic_reports_def message_of_def report_of_def
      message_event_def event_report_def parse_ids_def split: option.splits)

text \<open>The topic gets the reports of some of the calls, in order, and of all that were accepted.\<close>

lemma submissions_reports:
  assumes send: "producer_ok send"
  shows "\<forall>call\<in>set calls. event_of_bed X bed (snd call) \<and> topic_reports X bed (fst call) = [] \<Longrightarrow>
    submissions X send topic calls log = (answers, log') \<Longrightarrow>
    \<exists>sent. subseq sent (map snd calls) \<and> length answers = length calls \<and>
      topic_reports X bed log' = topic_reports X bed log @ map (event_report X) sent \<and>
      (\<forall>k<length calls. \<not> isl (answers ! k) \<longrightarrow> snd (calls ! k) \<in> set sent)"
proof (induction calls arbitrary: log answers)
  case (Cons call calls)
  obtain others event where call: "call = (others, event)" by (cases call)
  obtain a log1 where a: "submit_bed_status X send topic (Some event) (log @ others) = (a, log1)"
    by fastforce
  obtain as where as: "submissions X send topic calls log1 = (as, log')" "answers = a # as"
    using Cons.prems(2) a by (auto simp: call split: prod.splits)
  let ?r = "\<lparr>rec_topic = topic, rec_key = ev_shelter_id event, rec_payload = encode_event X event\<rparr>"
  have ev: "event_of_bed X bed event" "topic_reports X bed others = []"
    using Cons.prems(1) by (simp_all add: call)
  have "log1 = log @ others @ [?r] \<or> log1 = log @ others \<and> isl a"
    using a
  proof (cases rule: submit_bed_status_cases)
    case (sent ev' r)
    then show ?thesis
      using send unfolding producer_ok_def by (cases r) fastforce+
  qed simp
  then obtain one where one: "one = [event] \<or> one = [] \<and> isl a"
    "topic_reports X bed log1 = topic_reports X bed log @ map (event_report X) one"
    using ev published_report [OF ev(1), of topic "ev_shelter_id event"] by force
  from Cons.IH [OF _ as(1)] Cons.prems(1) obtain sent where sent: "subseq sent (map snd calls)"
    "length as = length calls"
    "topic_reports X bed log' = topic_reports X bed log1 @ map (event_report X) sent"
    "\<forall>k<length calls. \<not> isl (as ! k) \<longrightarrow> snd (calls ! k) \<in> set sent" by auto
  have "subseq (one @ sent) (event # map snd calls)"
    using one(1) sent(1) by (auto intro: list_emb.intros)
  moreover have "snd ((call # calls) ! k) \<in> set (one @ sent)"
    if "k < length (call # calls)" "\<not> isl (answers ! k)" for k
    using that one(1) sent(4) by (cases k) (auto simp: call as(2))
  ultimately show ?case
    using one(2) sent(2,3) as(2) by (intro exI [of _ "one @ sent"]) (simp add: call)
qed simp

subsection \<open>The reports of a terminal are in order\<close>

lemma sorted_wrt_subseq:
  "subseq xs ys \<Longrightarrow> sorted_wrt P ys \<Longrightarrow> sorted_wrt P xs"
  by (induction rule: list_emb.induct) (auto elim: list_emb_set)

definition in_sequence :: "externals \<Rightarrow> BedStatusEvent \<Rightarrow> BedStatusEvent \<Rightarrow> bool" where
  "in_sequence X e1 e2 \<longleftrightarrow> sint (ev_sequence e1) < sint (ev_sequence e2) \<and>
     fst (event_report X e1) \<noteq> fst (event_report X e2)"

lemma reports_in_sequence:
  assumes "sorted_wrt (in_sequence X) sent" and "\<forall>event\<in>set sent. 0 < sint (ev_sequence event)"
  shows "reports_ok 0 (map (event_report X) sent)"
proof -
  have "distinct (map fst (map (event_report X) sent))"
    using assms(1) by (induction sent) (auto simp: in_sequence_def)
  moreover have "sequence_after 0 (map (event_report X) sent) k < sint (ev_sequence (sent ! k))"
    if "k < length sent" for k
  proof (cases k)
    case 0
    with that assms(2) show ?thesis by simp
  next
    case (Suc j)
    then have "in_sequence X (sent ! j) (sent ! k)"
      using assms(1) that by (simp add: sorted_wrt_iff_nth_less)
    with that Suc show ?thesis by (simp add: in_sequence_def event_report_def)
  qed
  ultimately show ?thesis by (simp add: reports_ok_def event_report_def)
qed

lemma terminal_in_sequence:
  assumes X: "externals_ok X" and run: "terminal_run X bed ticks terminal_start = Inr events"
    and ticks: "length ticks < 2 ^ 63" "distinct (map fst ticks)"
  shows "sorted_wrt (in_sequence X) events"
    and "event \<in> set events \<Longrightarrow> 0 < sint (ev_sequence event) \<and>
      fst (event_report X event) \<in> fst ` set ticks \<and> (\<exists>e. parse_ids X event = Some (e, sb_id bed))"
proof -
  have "sint (terminal_sequence terminal_start) + int (length ticks) < 2 ^ 63"
    using ticks(1) by (simp add: terminal_start_def)
  from terminal_run_events [OF this, of X bed] run have e: "length events = length ticks"
    "\<And>k. k < length ticks \<Longrightarrow> terminal_event X bed terminal_start k (ticks ! k) (events ! k)" by auto
  have id: "fst (event_report X (events ! k)) = fst (ticks ! k)" if "k < length ticks" for k
    using e(2) [OF that] X by (simp add: terminal_event_def event_report_def externals_ok_def)
  have sq: "sint (ev_sequence (events ! k)) = int k + 1" if "k < length ticks" for k
    using e(2) [OF that] by (simp add: terminal_event_def terminal_start_def)
  show "sorted_wrt (in_sequence X) events"
    using nth_eq_iff_index_eq [OF ticks(2)] by (auto simp: sorted_wrt_iff_nth_less in_sequence_def e(1) id sq)
  show "0 < sint (ev_sequence event) \<and>
      fst (event_report X event) \<in> fst ` set ticks \<and> (\<exists>e. parse_ids X event = Some (e, sb_id bed))"
    if "event \<in> set events"
  proof -
    obtain k where "k < length ticks" "event = events ! k" using \<open>event \<in> set events\<close> e(1)
      by (metis in_set_conv_nth)
    with terminal_event_intake [OF X e(2), of k] id sq show ?thesis by simp
  qed
qed

end
