(* ===== verification/Broker.thy ===== *)
theory Broker
  imports Ingestion
begin

section \<open>The topic, the consumer group and crashes\<close>

text \<open>
  The consumer of \<open>Consumer\<close> runs once over what it receives.  Here it runs against the topic: a
  log for each partition, that intake appends to, and the offset in each from which the group
  resumes.  One task serves every partition, and receives from any of them next.  Between any two of
  its database accesses the process may crash and start again from that offset, other sessions
  may change the database, and messages may arrive.  An offset commit is asynchronous: it is
  requested, and any requested offset may be the one that the broker has, now or later.  The
  phases are the awaits of the loop body of \<open>run\<close> and of \<open>apply_and_notify\<close>; publishing reads the
  database only, and is left out.
\<close>

datatype phase =
    Receiving
  | Applying uuid uuid BedStatus i64
  | Allocating uuid uuid BedStatus i64
  | Handled

text \<open>
  \<open>passes\<close> records every completed allocation pass of the consumer: its event, the referral rows
  that were locked, and the database it left.
\<close>

record pass =
  pass_event :: uuid
  pass_locked :: "uuid \<Rightarrow> bool"
  pass_db :: db

type_synonym partition = nat

record broker =
  topic_log :: "partition \<Rightarrow> kafka_message list"
  group_offset :: "partition \<Rightarrow> nat"
  requested_offset :: "partition \<Rightarrow> nat"
  next_offset :: "partition \<Rightarrow> nat"
  serving :: partition
  current :: phase
  database :: db
  passes :: "pass list"

definition started :: "(partition \<Rightarrow> kafka_message list) \<Rightarrow> db \<Rightarrow> broker" where
  "started topic d = \<lparr>topic_log = topic, group_offset = (\<lambda>_. 0), requested_offset = (\<lambda>_. 0),
     next_offset = (\<lambda>_. 0), serving = 0, current = Receiving, database = d, passes = []\<rparr>"

text \<open>The message that is being handled.\<close>

definition at_hand :: "broker \<Rightarrow> kafka_message" where
  "at_hand w = topic_log w (serving w) ! next_offset w (serving w)"

definition reported_status :: "externals \<Rightarrow> BedStatusEvent \<Rightarrow> BedStatus" where
  "reported_status X ev = BedStatus_from_proto (event_status X (ev_status ev))"

definition received :: "externals \<Rightarrow> kafka_message \<Rightarrow> phase" where
  "received X msg = (case message_event X msg of
      None \<Rightarrow> Handled
    | Some (e, bed, ev) \<Rightarrow> Applying e bed (reported_status X ev) (ev_sequence ev))"

definition after_apply :: "ApplyOutcome \<Rightarrow> uuid \<Rightarrow> uuid \<Rightarrow> BedStatus \<Rightarrow> i64 \<Rightarrow> phase" where
  "after_apply outcome e bed ns sq =
     (case outcome of UnknownBed \<Rightarrow> Handled | _ \<Rightarrow> Allocating e bed ns sq)"

inductive broker_step :: "externals \<Rightarrow> broker \<Rightarrow> broker \<Rightarrow> bool" for X where
  produces: "broker_step X w (w\<lparr>topic_log := (topic_log w)(p := topic_log w p @ [msg])\<rparr>)"
| others: "(db_step UNIV)\<^sup>*\<^sup>* (database w) d' \<Longrightarrow> broker_step X w (w\<lparr>database := d'\<rparr>)"
| receives: "current w = Receiving \<Longrightarrow> next_offset w p < length (topic_log w p) \<Longrightarrow>
     broker_step X w (w\<lparr>serving := p, current := received X (topic_log w p ! next_offset w p)\<rparr>)"
| applies: "current w = Applying e bed ns sq \<Longrightarrow>
     apply_tx e bed ns sq now (database w) = (Inr outcome, d') \<Longrightarrow>
     broker_step X w (w\<lparr>database := d', current := after_apply outcome e bed ns sq\<rparr>)"
| apply_fails: "current w = Applying e bed ns sq \<Longrightarrow>
     d' \<in> {database w, snd (apply_tx e bed ns sq now (database w))} \<Longrightarrow>
     broker_step X w (w\<lparr>database := d'\<rparr>)"
| allocates: "current w = Allocating e bed ns sq \<Longrightarrow>
     allocate_tx locked i now bed (database w) = (Inr a, d') \<Longrightarrow>
     broker_step X w (w\<lparr>database := d', current := Handled,
       passes := passes w @ [\<lparr>pass_event = e, pass_locked = locked, pass_db = d'\<rparr>]\<rparr>)"
| allocate_fails: "current w = Allocating e bed ns sq \<Longrightarrow>
     d' \<in> {database w, snd (allocate_tx locked i now bed (database w))} \<Longrightarrow>
     broker_step X w (w\<lparr>database := d', current := Applying e bed ns sq\<rparr>)"
| commits: "current w = Handled \<Longrightarrow>
     broker_step X w (w\<lparr>current := Receiving,
       next_offset := (next_offset w)(serving w := Suc (next_offset w (serving w))),
       requested_offset := (requested_offset w)(serving w :=
         max (requested_offset w (serving w)) (Suc (next_offset w (serving w))))\<rparr>)"
| offset_lands: "n \<le> requested_offset w p \<Longrightarrow>
     broker_step X w (w\<lparr>group_offset := (group_offset w)(p := n)\<rparr>)"
| crashes: "broker_step X w (w\<lparr>current := Receiving, next_offset := group_offset w\<rparr>)"

subsection \<open>What an allocation pass leaves\<close>

text \<open>
  After a pass over a bed, the bed is not available, or whoever waits for it had a locked row.
\<close>

definition swept :: "db \<Rightarrow> (uuid \<Rightarrow> bool) \<Rightarrow> uuid \<Rightarrow> bool" where
  "swept d locked bed \<longleftrightarrow> (\<forall>b\<in>set (beds d). b_id b = bed \<longrightarrow> b_status b = ''available'' \<longrightarrow>
     (\<forall>r. waiting d b r \<longrightarrow> locked (r_id r)))"

lemma pass_sweeps:
  assumes inv: "booking_inv d" and tx: "allocate_tx locked i now bed d = (Inr a, d')"
  shows "swept d' locked bed"
  using tx
proof (cases rule: allocate_tx_cases)
  case (won b s u r)
  have "b_status b' = ''reserved''" if "b' \<in> set (beds d')" "b_id b' = bed" for b'
  proof -
    have "b' \<in> set (beds (award (new_reservation i bed (r_id r) now) d))" using that(1) won(10) by simp
    then obtain c :: bed_row where "b_id b' = b_id c"
      "b_status b' = (if b_id c = v_bed_id (new_reservation i bed (r_id r) now) then ''reserved'' else b_status c)"
      by (rule award_bed) blast
    with that(2) show ?thesis by simp
  qed
  then show ?thesis by (simp add: swept_def)
next
  case none
  note ok = booking_inv_parts(1) [OF inv]
  have "locked (r_id r)" if b: "b \<in> set (beds d)" "b_id b = bed" "b_status b = ''available''"
    and r: "waiting d b r" for b r
  proof -
    from bed_readable [OF ok b(1)] obtain s u where s: "s \<in> set (shelters d)" "s_id s = b_shelter_id b"
      "fetch_optional (filter (\<lambda>s. s_id s = b_shelter_id b) (shelters d)) = Some s"
      "UnitType_from_db_str (b_unit_type b) = Inr u" .
    have bed: "fetch_optional (filter (\<lambda>b. b_id b = bed) (beds d)) = Some b"
      using bed_by_id [OF ok b(1)] b(2) by simp
    have "choose_referral locked (s_region s) (attrs_of u b) d = None"
    proof (rule ccontr)
      assume "choose_referral locked (s_region s) (attrs_of u b) d \<noteq> None"
      then obtain q where "choose_referral locked (s_region s) (attrs_of u b) d = Some q" by blast
      with allocate_tx_decides [OF bed b(3) s(3,4), of locked i now] tx none(1)
      show False by (auto split: sum.splits)
    qed
    then show ?thesis using choose_waiting(2) [OF ok s(1,2,4)] r by blast
  qed
  with none(2) show ?thesis by (simp add: swept_def)
qed simp

subsection \<open>What the offset promises\<close>

text \<open>
  A message is settled when its event is processed and an allocation pass over its bed has come
  to its end after that; \<open>known\<close> are the beds that exist.
\<close>

definition settled :: "externals \<Rightarrow> uuid set \<Rightarrow> broker \<Rightarrow> kafka_message \<Rightarrow> bool" where
  "settled X known w msg \<longleftrightarrow> (\<forall>e bed ev. message_event X msg = Some (e, bed, ev) \<longrightarrow> bed \<in> known \<longrightarrow>
     processed (database w) e bed (ev_sequence ev) \<and>
     (\<exists>p\<in>set (passes w). pass_event p = e \<and> processed (pass_db p) e bed (ev_sequence ev) \<and>
        swept (pass_db p) (pass_locked p) bed))"

definition phase_ok :: "externals \<Rightarrow> uuid set \<Rightarrow> broker \<Rightarrow> bool" where
  "phase_ok X known w \<longleftrightarrow>
     (case current w of
        Receiving \<Rightarrow> True
      | Applying e bed ns sq \<Rightarrow> next_offset w (serving w) < length (topic_log w (serving w)) \<and>
          (\<exists>ev. message_event X (at_hand w) = Some (e, bed, ev) \<and>
             ns = reported_status X ev \<and> sq = ev_sequence ev)
      | Allocating e bed ns sq \<Rightarrow> next_offset w (serving w) < length (topic_log w (serving w)) \<and>
          (\<exists>ev. message_event X (at_hand w) = Some (e, bed, ev) \<and>
             ns = reported_status X ev \<and> sq = ev_sequence ev) \<and>
          (bed \<in> known \<longrightarrow> processed (database w) e bed sq)
      | Handled \<Rightarrow> next_offset w (serving w) < length (topic_log w (serving w)) \<and>
          settled X known w (at_hand w))"

definition broker_inv :: "externals \<Rightarrow> uuid set \<Rightarrow> broker \<Rightarrow> bool" where
  "broker_inv X known w \<longleftrightarrow>
     booking_inv (database w) \<and> known \<subseteq> b_id ` set (beds (database w)) \<and>
     (\<forall>p. group_offset w p \<le> requested_offset w p \<and> next_offset w p \<le> requested_offset w p \<and>
       requested_offset w p \<le> length (topic_log w p) \<and>
       (\<forall>k<requested_offset w p. settled X known w (topic_log w p ! k))) \<and>
     phase_ok X known w"

lemma broker_invD:
  assumes "broker_inv X known w"
  shows "group_offset w p \<le> requested_offset w p" and "next_offset w p \<le> requested_offset w p"
    and "requested_offset w p \<le> length (topic_log w p)"
    and "k < requested_offset w p \<Longrightarrow> settled X known w (topic_log w p ! k)"
  using assms unfolding broker_inv_def by blast+

lemma at_hand_frame [simp]:
  "at_hand (w\<lparr>current := ph\<rparr>) = at_hand w" "at_hand (w\<lparr>database := d\<rparr>) = at_hand w"
  "at_hand (w\<lparr>passes := ps\<rparr>) = at_hand w" "at_hand (w\<lparr>group_offset := os\<rparr>) = at_hand w"
  "at_hand (w\<lparr>serving := p\<rparr>) = topic_log w p ! next_offset w p"
  by (simp_all add: at_hand_def)

lemma settled_later:
  assumes "(db_step UNIV)\<^sup>*\<^sup>* (database w) (database w')" and "booking_inv (database w)"
    and "set (passes w) \<subseteq> set (passes w')" and "settled X known w msg"
  shows "settled X known w' msg"
  unfolding settled_def
proof (intro allI impI)
  fix e bed ev assume "message_event X msg = Some (e, bed, ev)" "bed \<in> known"
  with assms(4) obtain p where "processed (database w) e bed (ev_sequence ev)"
    "p \<in> set (passes w)" "pass_event p = e" "processed (pass_db p) e bed (ev_sequence ev)"
    "swept (pass_db p) (pass_locked p) bed"
    unfolding settled_def by blast
  with db_steps_processed [OF assms(1,2)] assms(3)
  show "processed (database w') e bed (ev_sequence ev) \<and>
      (\<exists>p\<in>set (passes w'). pass_event p = e \<and> processed (pass_db p) e bed (ev_sequence ev) \<and>
         swept (pass_db p) (pass_locked p) bed)" by blast
qed

lemma known_later:
  assumes "(db_step UNIV)\<^sup>*\<^sup>* d d'" and "known \<subseteq> b_id ` set (beds d)"
  shows "known \<subseteq> b_id ` set (beds d')"
proof
  fix bed assume "bed \<in> known"
  then obtain b where b: "b \<in> set (beds d)" "b_id b = bed" using assms(2) by blast
  obtain b' where b': "b' \<in> set (beds d')" "bed_static b' = bed_static b"
    using extendsD(1) [OF db_steps_extends [OF assms(1)] b(1)] by blast
  then have "b_id b' = bed" using b(2) by (simp only: bed_static_eq)
  with imageI [OF b'(1), of b_id] show "bed \<in> b_id ` set (beds d')" by simp
qed

text \<open>The database steps of the consumer are transactions of the program.\<close>

lemma consumer_tx_steps:
  "(db_step UNIV)\<^sup>*\<^sup>* d (snd (apply_tx e bed ns sq now d))"
  "(db_step UNIV)\<^sup>*\<^sup>* d (snd (allocate_tx locked i now bed d))"
  using apply_tx_program [of ns UNIV] allocate_tx_program by (simp_all add: program_tx_def)

text \<open>A change of the database by transactions of the program keeps every promise made.\<close>

lemma database_changes:
  assumes inv: "broker_inv X known w" and steps: "(db_step UNIV)\<^sup>*\<^sup>* (database w) d'"
  shows "broker_inv X known (w\<lparr>database := d'\<rparr>)"
proof -
  note i = inv [unfolded broker_inv_def]
  have later: "settled X known w msg \<Longrightarrow> settled X known (w\<lparr>database := d'\<rparr>) msg" for msg
    by (rule settled_later) (use steps i in simp_all)
  have "processed (database w) e bed sq \<Longrightarrow> processed d' e bed sq" for e bed sq
    using db_steps_processed [OF steps] i by blast
  then have "phase_ok X known (w\<lparr>database := d'\<rparr>)"
    using i later by (auto simp: phase_ok_def split: phase.splits)
  with i later known_later [OF steps] db_steps_booking_inv [OF steps] show ?thesis
    by (simp add: broker_inv_def)
qed

lemma settled_frame [simp]:
  "settled X known (w\<lparr>topic_log := l\<rparr>) msg = settled X known w msg"
  "settled X known (w\<lparr>serving := p\<rparr>) msg = settled X known w msg"
  "settled X known (w\<lparr>current := ph\<rparr>) msg = settled X known w msg"
  "settled X known (w\<lparr>group_offset := n\<rparr>) msg = settled X known w msg"
  "settled X known (w\<lparr>next_offset := n\<rparr>) msg = settled X known w msg"
  "settled X known (w\<lparr>requested_offset := n\<rparr>) msg = settled X known w msg"
  by (simp_all add: settled_def)

lemma known_processed:
  assumes "broker_inv X known w" and "apply_tx e bed ns sq now (database w) = (Inr outcome, d')"
    and "bed \<in> known"
  shows "processed d' e bed sq \<and> outcome \<noteq> UnknownBed"
proof -
  obtain b where "b \<in> set (beds (database w))" "b_id b = bed"
    using assms(1,3) by (auto simp: broker_inv_def)
  from apply_tx_processed [OF assms(2) this] show ?thesis by blast
qed

lemma pass_settles:
  assumes inv: "broker_inv X known w" and ph: "current w = Allocating e bed ns sq"
    and tx: "allocate_tx locked i now bed (database w) = (Inr a, d')"
  shows "settled X known (w\<lparr>database := d', current := Handled,
    passes := passes w @ [\<lparr>pass_event = e, pass_locked = locked, pass_db = d'\<rparr>]\<rparr>)
    (at_hand w)"
  unfolding settled_def
proof (intro allI impI)
  fix e' bed' ev
  assume msg: "message_event X (at_hand w) = Some (e', bed', ev)" and known: "bed' \<in> known"
  have ids: "e' = e" "bed' = bed" "sq = ev_sequence ev"
    and "bed \<in> known \<longrightarrow> processed (database w) e bed sq"
    using inv ph msg by (auto simp: broker_inv_def phase_ok_def)
  with known have done_before: "processed (database w) e bed sq" by simp
  have inv_db: "booking_inv (database w)" using inv by (simp add: broker_inv_def)
  have "(db_step UNIV)\<^sup>*\<^sup>* (database w) d'"
    using consumer_tx_steps(2) [of "database w" locked i now bed] tx by simp
  from db_steps_processed [OF this inv_db done_before]
  have "processed d' e bed (ev_sequence ev)" using ids by simp
  with pass_sweeps [OF inv_db tx] ids
  show "processed (database (w\<lparr>database := d', current := Handled,
      passes := passes w @ [\<lparr>pass_event = e, pass_locked = locked, pass_db = d'\<rparr>]\<rparr>)) e' bed' (ev_sequence ev) \<and>
    (\<exists>p\<in>set (passes (w\<lparr>database := d', current := Handled,
      passes := passes w @ [\<lparr>pass_event = e, pass_locked = locked, pass_db = d'\<rparr>]\<rparr>)).
      pass_event p = e' \<and> processed (pass_db p) e' bed' (ev_sequence ev) \<and>
      swept (pass_db p) (pass_locked p) bed')"
    by simp
qed

lemma broker_step_keeps:
  "broker_step X w w' \<Longrightarrow> broker_inv X known w \<Longrightarrow> broker_inv X known w'"
proof (induction rule: broker_step.induct)
  case (produces w p msg)
  let ?w = "w\<lparr>topic_log := (topic_log w)(p := topic_log w p @ [msg])\<rparr>"
  have older: "topic_log ?w q ! k = topic_log w q ! k" if "k < length (topic_log w q)" for q k
    using that by (cases "q = p") (simp_all add: nth_append)
  have "settled X known ?w (topic_log ?w q ! k)" if "k < requested_offset w q" for q k
  proof -
    have "k < length (topic_log w q)" "settled X known w (topic_log w q ! k)"
      using that produces by (auto simp: broker_inv_def intro: less_le_trans)
    with older show ?thesis by simp
  qed
  moreover have "phase_ok X known ?w"
    using produces by (auto simp: broker_inv_def phase_ok_def at_hand_def nth_append split: phase.splits)
  ultimately show ?case using produces by (auto simp: broker_inv_def le_SucI)
next
  case (others w d')
  then show ?case by (intro database_changes)
next
  case (receives w p)
  then show ?case
    by (auto simp: broker_inv_def phase_ok_def received_def settled_def split: option.splits)
next
  case (applies w e bed ns sq now outcome d')
  have steps: "(db_step UNIV)\<^sup>*\<^sup>* (database w) d'"
    using consumer_tx_steps(1) [of "database w" e bed ns sq now] applies(2) by simp
  note inv' = database_changes [OF applies(3) steps]
  have "phase_ok X known (w\<lparr>database := d', current := after_apply outcome e bed ns sq\<rparr>)"
    using inv' applies(1) known_processed [OF applies(3,2)]
    by (auto simp: broker_inv_def phase_ok_def after_apply_def settled_def split: ApplyOutcome.splits)
  with inv' show ?case by (simp add: broker_inv_def)
next
  case (apply_fails w e bed ns sq d' now)
  then have "(db_step UNIV)\<^sup>*\<^sup>* (database w) d'" using consumer_tx_steps(1) by auto
  with apply_fails show ?case by (intro database_changes)
next
  case (allocates w e bed ns sq locked i now a d')
  have steps: "(db_step UNIV)\<^sup>*\<^sup>* (database w) d'"
    using consumer_tx_steps(2) [of "database w" locked i now bed] allocates(2) by simp
  let ?w = "w\<lparr>database := d', current := Handled,
    passes := passes w @ [\<lparr>pass_event = e, pass_locked = locked, pass_db = d'\<rparr>]\<rparr>"
  have "settled X known ?w msg" if "settled X known w msg" for msg
    by (rule settled_later [OF _ _ _ that]) (use steps allocates(3) in \<open>auto simp: broker_inv_def\<close>)
  moreover have "phase_ok X known ?w"
    using pass_settles [OF allocates(3,1,2)] allocates(1,3) by (simp add: broker_inv_def phase_ok_def)
  ultimately show ?case
    using database_changes [OF allocates(3) steps] allocates(3) by (simp add: broker_inv_def)
next
  case (allocate_fails w e bed ns sq d' locked i now)
  then have "(db_step UNIV)\<^sup>*\<^sup>* (database w) d'" using consumer_tx_steps(2) by auto
  from database_changes [OF allocate_fails(3) this] allocate_fails(1)
  show ?case by (auto simp: broker_inv_def phase_ok_def)
next
  case (commits w)
  let ?p = "serving w"
  have "settled X known w (topic_log w ?p ! k)"
    if "k < max (requested_offset w ?p) (Suc (next_offset w ?p))" for k
  proof (cases "k < requested_offset w ?p")
    case False
    have "next_offset w ?p \<le> requested_offset w ?p" using commits by (simp add: broker_inv_def)
    with that False have "k = next_offset w ?p" by simp
    with commits show ?thesis by (simp add: broker_inv_def phase_ok_def at_hand_def)
  qed (use commits in \<open>simp add: broker_inv_def\<close>)
  with commits show ?case by (auto simp: broker_inv_def phase_ok_def intro: le_max_iff_disj [THEN iffD2])
next
  case (offset_lands n w p)
  then show ?case by (auto simp: broker_inv_def phase_ok_def split: phase.splits)
next
  case (crashes w)
  then show ?case by (simp add: broker_inv_def phase_ok_def)
qed

lemma broker_steps_keep:
  "(broker_step X)\<^sup>*\<^sup>* w w' \<Longrightarrow> broker_inv X known w \<Longrightarrow> broker_inv X known w'"
  by (induction rule: rtranclp_induct) (blast intro: broker_step_keeps)+

lemma started_inv: "booking_inv d \<Longrightarrow> known \<subseteq> b_id ` set (beds d) \<Longrightarrow> broker_inv X known (started topic d)"
  by (simp add: broker_inv_def started_def phase_ok_def)

subsection \<open>The consumer can always go on\<close>

definition same_place :: "broker \<Rightarrow> broker \<Rightarrow> bool" where
  "same_place w w' \<longleftrightarrow> topic_log w' = topic_log w \<and> serving w' = serving w \<and>
     next_offset w' = next_offset w \<and> requested_offset w' = requested_offset w \<and>
     group_offset w' = group_offset w"

definition reservation_ids :: "broker \<Rightarrow> uuid set" where
  "reservation_ids w = v_id ` set (reservations (database w))"

lemma reservation_ids_update [simp]:
  "reservation_ids (w\<lparr>serving := p\<rparr>) = reservation_ids w"
  "reservation_ids (w\<lparr>current := ph\<rparr>) = reservation_ids w"
  "reservation_ids (w\<lparr>passes := ps\<rparr>) = reservation_ids w"
  "reservation_ids (w\<lparr>next_offset := n\<rparr>) = reservation_ids w"
  "reservation_ids (w\<lparr>requested_offset := n\<rparr>) = reservation_ids w"
  "reservation_ids (w\<lparr>group_offset := n\<rparr>) = reservation_ids w"
  "reservation_ids (w\<lparr>database := d\<rparr>) = v_id ` set (reservations d)"
  by (simp_all add: reservation_ids_def)

lemma allocating_goes_on:
  assumes inv: "broker_inv X known w" and fresh: "i \<notin> reservation_ids w"
    and ph: "current w = Allocating e bed ns sq"
  shows "\<exists>w'. (broker_step X)\<^sup>*\<^sup>* w w' \<and> current w' = Handled \<and>
    same_place w w' \<and>
    reservation_ids w' \<subseteq> insert i (reservation_ids w)"
proof -
  have "booking_inv (database w)" using inv by (simp add: broker_inv_def)
  from allocate_tx_total [OF this fresh [unfolded reservation_ids_def], of "\<lambda>_. False" 0 bed] obtain a d' where
    tx: "allocate_tx (\<lambda>_. False) i 0 bed (database w) = (Inr a, d')" by blast
  let ?w = "w\<lparr>database := d', current := Handled,
    passes := passes w @ [\<lparr>pass_event = e, pass_locked = (\<lambda>_. False), pass_db = d'\<rparr>]\<rparr>"
  have "broker_step X w ?w" by (rule broker_step.allocates [OF ph tx])
  moreover have "v_id ` set (reservations d') \<subseteq> insert i (reservation_ids w)"
    using allocate_tx_ids [of "\<lambda>_. False" i 0 bed "database w"] tx by (simp add: reservation_ids_def)
  ultimately show ?thesis by (intro exI [of _ ?w]) (simp add: r_into_rtranclp same_place_def)
qed

lemma applying_goes_on:
  assumes inv: "broker_inv X known w" and fresh: "i \<notin> reservation_ids w"
    and ph: "current w = Applying e bed ns sq"
  shows "\<exists>w'. (broker_step X)\<^sup>*\<^sup>* w w' \<and> current w' = Handled \<and>
    same_place w w' \<and>
    reservation_ids w' \<subseteq> insert i (reservation_ids w)"
proof -
  obtain outcome d' where tx: "apply_tx e bed ns sq 0 (database w) = (Inr outcome, d')"
    using apply_tx_no_error by blast
  let ?w = "w\<lparr>database := d', current := after_apply outcome e bed ns sq\<rparr>"
  have step: "broker_step X w ?w" by (rule broker_step.applies [OF ph tx])
  have same: "v_id ` set (reservations d') = reservation_ids w"
    using apply_tx_ids [of e bed ns sq 0 "database w"] tx by (simp add: reservation_ids_def)
  show ?thesis
  proof (cases "outcome = UnknownBed")
    case True
    with step show ?thesis by (intro exI [of _ ?w]) (simp add: after_apply_def r_into_rtranclp same same_place_def subset_insertI)
  next
    case False
    then have ph': "current ?w = Allocating e bed ns sq" by (cases outcome) (simp_all add: after_apply_def)
    from fresh have fresh': "i \<notin> reservation_ids ?w" by (simp add: same)
    from allocating_goes_on [OF broker_step_keeps [OF step inv] fresh' ph'] obtain w' where
      w': "(broker_step X)\<^sup>*\<^sup>* ?w w'" "current w' = Handled" "same_place ?w w'"
        "reservation_ids w' \<subseteq> insert i (reservation_ids w)"
      by (auto simp: same)
    from converse_rtranclp_into_rtranclp [of "broker_step X", OF step w'(1)] w' show ?thesis
      by (auto simp: same_place_def)
  qed
qed

text \<open>The message at hand can be finished, and then the next one of any partition.\<close>

lemma work_gets_done:
  assumes inv: "broker_inv X known w" and fresh: "i \<notin> reservation_ids w" and busy: "current w \<noteq> Receiving"
  shows "\<exists>w'. (broker_step X)\<^sup>*\<^sup>* w w' \<and> current w' = Receiving \<and> topic_log w' = topic_log w \<and>
    next_offset w' = (next_offset w)(serving w := Suc (next_offset w (serving w))) \<and>
    reservation_ids w' \<subseteq> insert i (reservation_ids w)"
proof -
  obtain u where u: "(broker_step X)\<^sup>*\<^sup>* w u" "current u = Handled" "same_place w u"
    "reservation_ids u \<subseteq> insert i (reservation_ids w)"
  proof (cases "current w")
    case Receiving
    with busy show thesis by simp
  next
    case (Applying e bed ns sq)
    with applying_goes_on [OF inv fresh] that show thesis by blast
  next
    case (Allocating e bed ns sq)
    with allocating_goes_on [OF inv fresh] that show thesis by blast
  next
    case Handled
    with that [of w] show thesis by (simp add: same_place_def subset_insertI)
  qed
  let ?w = "u\<lparr>current := Receiving,
      next_offset := (next_offset u)(serving u := Suc (next_offset u (serving u))),
      requested_offset := (requested_offset u)(serving u :=
        max (requested_offset u (serving u)) (Suc (next_offset u (serving u))))\<rparr>"
  have "broker_step X u ?w" by (rule broker_step.commits [OF u(2)])
  with u(1) have "(broker_step X)\<^sup>*\<^sup>* w ?w" by (rule rtranclp.rtrancl_into_rtrancl)
  with u(3,4) show ?thesis by (intro exI [of _ ?w]) (simp add: same_place_def)
qed

lemma message_gets_handled:
  assumes inv: "broker_inv X known w" and fresh: "i \<notin> reservation_ids w"
    and idle: "current w = Receiving" and more: "next_offset w p < length (topic_log w p)"
  shows "\<exists>w'. (broker_step X)\<^sup>*\<^sup>* w w' \<and> current w' = Receiving \<and> topic_log w' = topic_log w \<and>
    next_offset w' = (next_offset w)(p := Suc (next_offset w p)) \<and>
    reservation_ids w' \<subseteq> insert i (reservation_ids w)"
proof -
  let ?u = "w\<lparr>serving := p, current := received X (topic_log w p ! next_offset w p)\<rparr>"
  have step: "broker_step X w ?u" by (rule broker_step.receives [OF idle more])
  have "current ?u \<noteq> Receiving" by (simp add: received_def split: option.split)
  from work_gets_done [OF broker_step_keeps [OF step inv] _ this, of i] fresh obtain w' where
    "(broker_step X)\<^sup>*\<^sup>* ?u w'" "current w' = Receiving" "topic_log w' = topic_log w"
    "next_offset w' = (next_offset w)(p := Suc (next_offset w p))"
    "reservation_ids w' \<subseteq> insert i (reservation_ids w)" by auto
  with converse_rtranclp_into_rtranclp [of "broker_step X", OF step] show ?thesis by blast
qed

text \<open>So it comes to the end of each log, as long as fresh reservation ids are left.\<close>

lemma fresh_id: "card S < 2 ^ 128 \<Longrightarrow> \<exists>i. i \<notin> (S :: uuid set)"
proof (rule ccontr)
  assume "card S < 2 ^ 128" "\<nexists>i. i \<notin> S"
  then have "S = UNIV" by blast
  then have "card S = 2 ^ 128" by (simp add: card_word)
  with \<open>card S < 2 ^ 128\<close> show False by simp
qed

lemma card_one_more:
  assumes "reservation_ids w' \<subseteq> insert i (reservation_ids w)"
  shows "card (reservation_ids w') \<le> Suc (card (reservation_ids w))"
proof -
  have "card (reservation_ids w') \<le> card (insert i (reservation_ids w))"
    by (rule card_mono [OF _ assms]) (simp add: reservation_ids_def)
  also have "\<dots> \<le> Suc (card (reservation_ids w))" by (simp add: card_insert_if reservation_ids_def)
  finally show ?thesis .
qed

lemma catches_up:
  assumes "broker_inv X known w" and "current w = Receiving"
    and "card (reservation_ids w) + n \<le> 2 ^ 128" and "next_offset w p + n \<le> length (topic_log w p)"
  shows "\<exists>w'. (broker_step X)\<^sup>*\<^sup>* w w' \<and> next_offset w' p = next_offset w p + n \<and> topic_log w' = topic_log w"
  using assms
proof (induction n arbitrary: w)
  case 0
  then show ?case by auto
next
  case (Suc n)
  then have "card (reservation_ids w) < 2 ^ 128" by simp
  with fresh_id obtain i where "i \<notin> reservation_ids w" by blast
  from message_gets_handled [OF Suc.prems(1) this Suc.prems(2), of p] Suc.prems(4) obtain w1 where
    w1: "(broker_step X)\<^sup>*\<^sup>* w w1" "current w1 = Receiving" "topic_log w1 = topic_log w"
      "next_offset w1 p = Suc (next_offset w p)" "reservation_ids w1 \<subseteq> insert i (reservation_ids w)"
    by auto
  have "card (reservation_ids w1) + n \<le> 2 ^ 128"
    using card_one_more [OF w1(5)] Suc.prems(3) by simp
  from Suc.IH [OF broker_steps_keep [OF w1(1) Suc.prems(1)] w1(2) this] w1 Suc.prems(4) obtain w' where
    "(broker_step X)\<^sup>*\<^sup>* w1 w'" "next_offset w' p = next_offset w p + Suc n" "topic_log w' = topic_log w"
    by auto
  with rtranclp_trans [OF w1(1)] show ?case by blast
qed

lemma partition_catches_up:
  assumes inv: "broker_inv X known w"
    and ids: "card (reservation_ids w) + length (topic_log w p) < 2 ^ 128"
  shows "\<exists>w'. (broker_step X)\<^sup>*\<^sup>* w w' \<and> next_offset w' p = length (topic_log w p) \<and>
    topic_log w' = topic_log w"
proof -
  obtain i where i: "i \<notin> reservation_ids w" using fresh_id ids by fastforce
  obtain u where u: "(broker_step X)\<^sup>*\<^sup>* w u" "current u = Receiving" "topic_log u = topic_log w"
    "card (reservation_ids u) \<le> Suc (card (reservation_ids w))"
    using work_gets_done [OF inv i] card_one_more [of _ i w]
    by (cases "current w = Receiving") (blast intro: le_SucI)+
  have inv': "broker_inv X known u" by (rule broker_steps_keep [OF u(1) inv])
  then have "next_offset u p \<le> length (topic_log u p)" by (auto simp: broker_inv_def intro: le_trans)
  moreover have "card (reservation_ids u) + (length (topic_log u p) - next_offset u p) \<le> 2 ^ 128"
    using u(3,4) ids by simp
  note catches_up [OF inv' u(2) this, of p]
  ultimately obtain w' where "(broker_step X)\<^sup>*\<^sup>* u w'" "next_offset w' p = length (topic_log w p)"
    "topic_log w' = topic_log w"
    using u(3) by auto
  with rtranclp_trans [OF u(1)] show ?thesis by blast
qed

text \<open>So the offset of the group can come past any message of the log, which is settled then.\<close>

lemma offset_passes:
  assumes inv: "broker_inv X known w" and k: "k < length (topic_log w p)"
    and ids: "card (reservation_ids w) + length (topic_log w p) < 2 ^ 128"
  shows "\<exists>w'. (broker_step X)\<^sup>*\<^sup>* w w' \<and> k < group_offset w' p \<and> settled X known w' (topic_log w p ! k)"
proof -
  obtain w1 where w1: "(broker_step X)\<^sup>*\<^sup>* w w1" "next_offset w1 p = length (topic_log w p)"
    "topic_log w1 = topic_log w" using partition_catches_up [OF inv ids] by blast
  have inv1: "broker_inv X known w1" by (rule broker_steps_keep [OF w1(1) inv])
  have requested: "length (topic_log w p) \<le> requested_offset w1 p"
    using broker_invD(2) [OF inv1, of p] w1(2) by simp
  then have "broker_step X w1 (w1\<lparr>group_offset := (group_offset w1)(p := length (topic_log w p))\<rparr>)"
    (is "broker_step _ _ ?w") by (rule broker_step.offset_lands)
  with w1(1) have "(broker_step X)\<^sup>*\<^sup>* w ?w" by (rule rtranclp.rtrancl_into_rtrancl)
  moreover have "settled X known w1 (topic_log w1 p ! k)"
    by (rule broker_invD(4) [OF inv1]) (use requested k in simp)
  ultimately show ?thesis using k w1(3) by (intro exI [of _ ?w]) simp
qed

end
