(* ===== verification/Survival.thy ===== *)
theory Survival
  imports Reporting Broker
begin

section \<open>The reports of a bed under crashes\<close>

text \<open>
  The reports of one bed in the model of the topic, the group's offsets and the crashes.  As the
  records of a shelter have one key, they are in one partition, \<open>home\<close>.  However often the
  consumer crashes and reads again, the database is always at some report, and never behind the
  offset.
\<close>

text \<open>
  A step in which only the consumer reports for the bed: it is a transaction of the consumer, or
  what others may do, or it leaves the database alone.
\<close>

definition consumer_writes :: "broker \<Rightarrow> db \<Rightarrow> bool" where
  "consumer_writes w d' \<longleftrightarrow>
     (\<exists>e bed ns sq now. current w = Applying e bed ns sq \<and>
        d' = snd (apply_tx e bed ns sq now (database w))) \<or>
     (\<exists>e bed ns sq locked i now. current w = Allocating e bed ns sq \<and>
        d' = snd (allocate_tx locked i now bed (database w)))"

definition sole_step :: "externals \<Rightarrow> uuid \<Rightarrow> uuid set \<Rightarrow> broker \<Rightarrow> broker \<Rightarrow> bool" where
  "sole_step X bed E w w' \<longleftrightarrow> broker_step X w w' \<and>
     (consumer_writes w (database w') \<or> (other_step bed E)\<^sup>*\<^sup>* (database w) (database w'))"

lemma sole_steps_broker: "(sole_step X bed E)\<^sup>*\<^sup>* w w' \<Longrightarrow> (broker_step X)\<^sup>*\<^sup>* w w'"
  by (erule rtranclp_mono [THEN predicate2D, rotated]) (auto simp: sole_step_def)

lemma consumer_writesI:
  "current w = Applying e b ns sq \<Longrightarrow> apply_tx e b ns sq now (database w) = (r, d') \<Longrightarrow>
     consumer_writes w d'"
  "current w = Allocating e b ns sq \<Longrightarrow> allocate_tx locked i now b (database w) = (q, d') \<Longrightarrow>
     consumer_writes w d'"
  unfolding consumer_writes_def by (metis snd_conv)+

lemma sole_stepI:
  "broker_step X w w' \<Longrightarrow> database w' = database w \<Longrightarrow> sole_step X bed E w w'"
  "broker_step X w w' \<Longrightarrow> consumer_writes w d' \<Longrightarrow> database w' = d' \<Longrightarrow> sole_step X bed E w w'"
  by (simp_all add: sole_step_def)

subsection \<open>The logs\<close>

definition reports_before :: "externals \<Rightarrow> uuid \<Rightarrow> kafka_message list \<Rightarrow> nat \<Rightarrow> nat" where
  "reports_before X bed log k = length (bed_reports X bed (take k log))"

text \<open>The logs hold the first reports, all of them in one partition, and nothing that imitates them.\<close>

definition logs_ok ::
  "externals \<Rightarrow> uuid \<Rightarrow> report list \<Rightarrow> partition \<Rightarrow> (partition \<Rightarrow> kafka_message list) \<Rightarrow> bool" where
  "logs_ok X bed reports home logs \<longleftrightarrow>
     (\<exists>later. reports = bed_reports X bed (logs home) @ later) \<and>
     (\<forall>p msg. msg \<in> set (logs p) \<longrightarrow> no_imposter X bed (fst ` set reports) msg \<and>
        (p \<noteq> home \<longrightarrow> report_of X bed msg = None))"

lemma reports_before_Suc:
  assumes "k < length log"
  shows "reports_before X bed log (Suc k) = reports_before X bed log k +
    (case report_of X bed (log ! k) of None \<Rightarrow> 0 | Some r \<Rightarrow> 1)"
  using assms by (simp add: reports_before_def take_Suc_conv_app_nth split: option.split)

lemma reports_before_mono: "k \<le> m \<Longrightarrow> reports_before X bed log k \<le> reports_before X bed log m"
proof -
  assume "k \<le> m"
  then have "take m log = take k log @ take (m - k) (drop k log)" by (metis le_add_diff_inverse take_add)
  then show ?thesis by (simp add: reports_before_def)
qed

lemma reports_before_append:
  "k \<le> length log \<Longrightarrow> reports_before X bed (log @ msgs) k = reports_before X bed log k"
  by (simp add: reports_before_def)

lemma logged_report:
  assumes "logs_ok X bed reports home logs" and k: "k < length (logs home)"
    and r: "report_of X bed (logs home ! k) = Some r"
  shows "reports_before X bed (logs home) k < length reports"
    and "reports ! reports_before X bed (logs home) k = r"
proof -
  obtain later where "reports = bed_reports X bed (logs home) @ later"
    using assms(1) by (auto simp: logs_ok_def)
  moreover have "logs home = take k (logs home) @ logs home ! k # drop (Suc k) (logs home)"
    by (rule id_take_nth_drop [OF k])
  ultimately have "reports = bed_reports X bed (take k (logs home)) @
      r # (bed_reports X bed (drop (Suc k) (logs home)) @ later)"
    using r bed_reports_simps(2,3) by (metis append.assoc append_Cons append_Nil option.simps(5))
  then show "reports_before X bed (logs home) k < length reports"
    "reports ! reports_before X bed (logs home) k = r"
    by (auto simp: reports_before_def nth_append)
qed

text \<open>Logs only grow, so the logs of every earlier state are beginnings of the last ones.\<close>

lemma logs_grow: "broker_step X w w' \<Longrightarrow> \<exists>msgs. topic_log w' p = topic_log w p @ msgs"
  by (erule broker_step.cases) auto

lemma logs_ok_earlier:
  assumes "broker_step X w w'" and ok: "logs_ok Y bed reports home (topic_log w')"
  shows "logs_ok Y bed reports home (topic_log w)"
proof -
  have sub: "set (topic_log w p) \<subseteq> set (topic_log w' p)" for p
    using logs_grow [OF assms(1), of p] by auto
  obtain msgs where "topic_log w' home = topic_log w home @ msgs"
    using logs_grow [OF assms(1)] by blast
  with ok sub show ?thesis unfolding logs_ok_def by fastforce
qed

subsection \<open>The invariant\<close>

text \<open>
  The database is at report \<open>n\<close>, the reports below the highest requested offset are among the
  first \<open>n\<close>, and so is the one at hand once it was applied.
\<close>

definition at_hand_done :: "externals \<Rightarrow> uuid \<Rightarrow> partition \<Rightarrow> broker \<Rightarrow> nat \<Rightarrow> bool" where
  "at_hand_done X bed home w n \<longleftrightarrow> (serving w = home \<longrightarrow>
     reports_before X bed (topic_log w home) (Suc (next_offset w home)) \<le> n)"

definition on_report :: "externals \<Rightarrow> uuid \<Rightarrow> int \<Rightarrow> report list \<Rightarrow> partition \<Rightarrow> broker \<Rightarrow> nat \<Rightarrow> bool" where
  "on_report X bed start reports home w n \<longleftrightarrow> at_report bed start reports n (database w) \<and>
     reports_before X bed (topic_log w home) (requested_offset w home) \<le> n \<and>
     (case current w of
        Receiving \<Rightarrow> True
      | Applying e b ns sq \<Rightarrow> True
      | Allocating e b ns sq \<Rightarrow> at_hand_done X bed home w n
      | Handled \<Rightarrow> at_hand_done X bed home w n)"

lemma at_hand_done_mono: "at_hand_done X bed home w n \<Longrightarrow> n \<le> m \<Longrightarrow> at_hand_done X bed home w m"
  by (auto simp: at_hand_done_def)

lemma at_hand_done_frame [simp]:
  "at_hand_done X bed home (w\<lparr>current := ph\<rparr>) n = at_hand_done X bed home w n"
  "at_hand_done X bed home (w\<lparr>database := d\<rparr>) n = at_hand_done X bed home w n"
  "at_hand_done X bed home (w\<lparr>passes := ps\<rparr>) n = at_hand_done X bed home w n"
  by (simp_all add: at_hand_done_def)

text \<open>What others do, and what an allocation does, leaves the reports where they are.\<close>

lemma on_report_others:
  assumes "on_report X bed start reports home w n"
    and "(other_step bed (fst ` set reports))\<^sup>*\<^sup>* (database w) d'"
  shows "on_report X bed start reports home (w\<lparr>database := d'\<rparr>) n"
  using assms others_at_report [OF assms(2)] by (auto simp: on_report_def split: phase.splits)

text \<open>The consumer applies the message at hand.\<close>

lemma applying_at_hand:
  assumes inv: "broker_inv X {} w" and ph: "current w = Applying e b ns sq"
    and logs: "logs_ok X bed reports home (topic_log w)"
    and le: "reports_before X bed (topic_log w home) (requested_offset w home) \<le> n"
  shows "b = bed \<Longrightarrow> serving w = home \<and>
      (\<exists>k<length reports. reports ! k = (e, ns, sq) \<and> k \<le> n \<and>
         reports_before X bed (topic_log w home) (Suc (next_offset w home)) = Suc k)"
    and "b \<noteq> bed \<Longrightarrow> e \<notin> fst ` set reports \<and> at_hand_done X bed home w n"
proof -
  let ?log = "topic_log w (serving w)" and ?k = "next_offset w (serving w)"
  obtain ev where msg: "?k < length ?log" "message_event X (?log ! ?k) = Some (e, b, ev)"
    "ns = reported_status X ev" "sq = ev_sequence ev"
    using inv ph by (auto simp: broker_inv_def phase_ok_def at_hand_def)
  have in_log: "?log ! ?k \<in> set ?log" using msg(1) by simp
  have "next_offset w home \<le> requested_offset w home" by (rule broker_invD(2) [OF inv])
  then have here: "reports_before X bed (topic_log w home) (next_offset w home) \<le> n"
    using reports_before_mono le order.trans by blast
  show "serving w = home \<and>
      (\<exists>k<length reports. reports ! k = (e, ns, sq) \<and> k \<le> n \<and>
         reports_before X bed (topic_log w home) (Suc (next_offset w home)) = Suc k)" if "b = bed"
  proof -
    have r: "report_of X bed (?log ! ?k) = Some (e, ns, sq)"
      using msg that by (simp add: report_of_def reported_status_def)
    have home: "serving w = home"
    proof (rule ccontr)
      assume "serving w \<noteq> home"
      then have "report_of X bed (?log ! ?k) = None" using logs in_log unfolding logs_ok_def by blast
      with r show False by simp
    qed
    note one = logged_report [OF logs msg(1) [unfolded home] r [unfolded home]]
    from reports_before_Suc [OF msg(1) [unfolded home], of X bed] r home one here show ?thesis
      by (intro conjI exI [of _ "reports_before X bed (topic_log w home) (next_offset w home)"]) simp_all
  qed
  show "e \<notin> fst ` set reports \<and> at_hand_done X bed home w n" if b: "b \<noteq> bed"
  proof
    have "no_imposter X bed (fst ` set reports) (?log ! ?k)"
      using logs in_log unfolding logs_ok_def by blast
    with msg(2) b show "e \<notin> fst ` set reports" unfolding no_imposter_def by blast
    have "report_of X bed (?log ! ?k) = None" using msg(2) b by (simp add: report_of_def)
    then show "at_hand_done X bed home w n"
      using reports_before_Suc [of ?k ?log X bed] msg(1) here by (auto simp: at_hand_done_def)
  qed
qed

lemma apply_moves_on:
  assumes inv: "broker_inv X {} w" and ph: "current w = Applying e b ns sq"
    and logs: "logs_ok X bed reports home (topic_log w)" and ok: "reports_ok start reports"
    and on: "on_report X bed start reports home w n"
    and tx: "apply_tx e b ns sq now (database w) = (r, d')"
  obtains m where "n \<le> m" "at_report bed start reports m d'" "at_hand_done X bed home w m"
proof (cases "b = bed")
  case True
  have at: "at_report bed start reports n (database w)"
    and le: "reports_before X bed (topic_log w home) (requested_offset w home) \<le> n"
    using on by (simp_all add: on_report_def)
  obtain k where k: "k < length reports" "reports ! k = (e, ns, sq)" "k \<le> n"
    "reports_before X bed (topic_log w home) (Suc (next_offset w home)) = Suc k"
    using applying_at_hand(1) [OF inv ph logs le True] by blast
  from apply_report [OF ok at k(3,1,2) tx [unfolded True]]
  have "at_report bed start reports (max n (Suc k)) d'" by blast
  with k(4) show thesis by (intro that [of "max n (Suc k)"]) (simp_all add: at_hand_done_def)
next
  case False
  have at: "at_report bed start reports n (database w)"
    and le: "reports_before X bed (topic_log w home) (requested_offset w home) \<le> n"
    using on by (simp_all add: on_report_def)
  note other = applying_at_hand(2) [OF inv ph logs le False]
  have "(other_step bed (fst ` set reports))\<^sup>*\<^sup>* (database w) d'"
    using other_event_quiet [OF False, of e "fst ` set reports" ns sq now] other tx
    unfolding quiet_tx_def by (metis snd_conv)
  from others_at_report [OF this at] other show thesis by (intro that [of n]) simp_all
qed

lemma allocation_is_quiet:
  "(other_step bed E)\<^sup>*\<^sup>* d (snd (allocate_tx locked i now b d))"
  using allocate_tx_quiet [of bed E locked i now b] by (simp add: quiet_tx_def)

lemma on_report_written:
  assumes inv: "broker_inv X {} w" and logs: "logs_ok X bed reports home (topic_log w)"
    and ok: "reports_ok start reports" and on: "on_report X bed start reports home w n"
    and d': "consumer_writes w d' \<or> (other_step bed (fst ` set reports))\<^sup>*\<^sup>* (database w) d'"
  shows "\<exists>m. on_report X bed start reports home (w\<lparr>database := d'\<rparr>) m"
proof -
  consider (others) "(other_step bed (fst ` set reports))\<^sup>*\<^sup>* (database w) d'"
    | (applies) e b ns sq now where "current w = Applying e b ns sq"
        "d' = snd (apply_tx e b ns sq now (database w))"
    using d' allocation_is_quiet unfolding consumer_writes_def by metis
  then show ?thesis
  proof cases
    case others
    with on_report_others [OF on] show ?thesis by blast
  next
    case applies
    obtain r where "apply_tx e b ns sq now (database w) = (r, d')"
      using applies(2) by (metis prod.collapse)
    from apply_moves_on [OF inv applies(1) logs ok on this] obtain m where
      "n \<le> m" "at_report bed start reports m d'" by blast
    with on applies(1) show ?thesis by (auto simp: on_report_def)
  qed
qed

lemma broker_step_on_report:
  "broker_step X w w' \<Longrightarrow>
    consumer_writes w (database w') \<or> (other_step bed (fst ` set reports))\<^sup>*\<^sup>* (database w) (database w') \<Longrightarrow>
    broker_inv X {} w \<Longrightarrow> logs_ok X bed reports home (topic_log w) \<Longrightarrow>
    reports_ok start reports \<Longrightarrow> on_report X bed start reports home w n \<Longrightarrow>
    \<exists>m. on_report X bed start reports home w' m"
proof (induction rule: broker_step.induct)
  case (produces w p msg)
  have "requested_offset w home \<le> length (topic_log w home)" by (rule broker_invD(3) [OF produces(2)])
  moreover have "Suc (next_offset w home) \<le> length (topic_log w home)"
    if "current w \<noteq> Receiving" "serving w = home"
    using produces(2) that by (auto simp: broker_inv_def phase_ok_def split: phase.splits)
  ultimately show ?case
    using produces(5) by (intro exI [of _ n])
      (auto simp: on_report_def at_hand_done_def reports_before_append split: phase.splits)
next
  case (others w d')
  then show ?case by (intro on_report_written) simp_all
next
  case (receives w p)
  have "at_hand_done X bed home (w\<lparr>serving := p\<rparr>) n" if none: "message_event X (topic_log w p ! next_offset w p) = None"
    unfolding at_hand_done_def
  proof
    assume "serving (w\<lparr>serving := p\<rparr>) = home"
    then have p: "p = home" by simp
    have "next_offset w home \<le> requested_offset w home" by (rule broker_invD(2) [OF receives(4)])
    then have "reports_before X bed (topic_log w home) (next_offset w home) \<le> n"
      using receives(7) reports_before_mono order.trans unfolding on_report_def by blast
    with reports_before_Suc [of "next_offset w home" "topic_log w home" X bed] receives(2) none
    show "reports_before X bed (topic_log (w\<lparr>serving := p\<rparr>) home) (Suc (next_offset (w\<lparr>serving := p\<rparr>) home)) \<le> n"
      by (simp add: p report_of_def)
  qed
  with receives(7) show ?case
    by (intro exI [of _ n]) (auto simp: on_report_def received_def split: option.splits)
next
  case (applies w e b ns sq now outcome d')
  obtain m where "n \<le> m" "at_report bed start reports m d'" "at_hand_done X bed home w m"
    by (rule apply_moves_on [OF applies(4,1,5,6,7,2)])
  with applies(7) show ?case
    by (intro exI [of _ m]) (auto simp: on_report_def after_apply_def split: ApplyOutcome.splits)
next
  case (apply_fails w e b ns sq d' now)
  then show ?case by (intro on_report_written) simp_all
next
  case (allocates w e b ns sq locked i now a d')
  have "(other_step bed (fst ` set reports))\<^sup>*\<^sup>* (database w) d'"
    using allocation_is_quiet [of bed "fst ` set reports" "database w" locked i now b] allocates(2) by simp
  from on_report_others [OF allocates(7) this] allocates(1) show ?case
    by (intro exI [of _ n]) (simp add: on_report_def)
next
  case (allocate_fails w e b ns sq d' locked i now)
  have "(other_step bed (fst ` set reports))\<^sup>*\<^sup>* (database w) d'"
    using allocation_is_quiet allocate_fails(2) by auto
  from on_report_others [OF allocate_fails(7) this] show ?case
    by (intro exI [of _ n]) (simp add: on_report_def)
next
  case (commits w)
  have "reports_before X bed (topic_log w home) (max (requested_offset w home) (Suc (next_offset w home))) \<le> n"
    if "serving w = home"
    using commits(1,6) that by (simp add: on_report_def at_hand_done_def max_def)
  with commits(6) show ?case
    by (intro exI [of _ n]) (auto simp: on_report_def commits(1))
next
  case (offset_lands k w p)
  then show ?case by (auto simp: on_report_def at_hand_done_def split: phase.splits)
next
  case (crashes w)
  then show ?case by (intro exI [of _ n]) (simp add: on_report_def)
qed

text \<open>So at every state of a run from a database that is at no report yet.\<close>

lemma sole_steps_on_report:
  assumes "(sole_step X bed (fst ` set reports))\<^sup>*\<^sup>* (started topic d) w"
    and at: "at_report bed start reports 0 d" and ok: "reports_ok start reports"
  shows "logs_ok X bed reports home (topic_log w) \<Longrightarrow>
    broker_inv X {} w \<and> (\<exists>n. on_report X bed start reports home w n)"
  using assms(1)
proof (induction rule: rtranclp_induct)
  case base
  have "booking_inv d" using at by (simp add: at_report_def)
  then have "broker_inv X {} (started topic d)" by (rule started_inv) simp
  moreover have "on_report X bed start reports home (started topic d) 0"
    using at by (simp add: on_report_def started_def reports_before_def)
  ultimately show ?case by blast
next
  case (step w1 w2)
  have s: "broker_step X w1 w2"
    "consumer_writes w1 (database w2) \<or> (other_step bed (fst ` set reports))\<^sup>*\<^sup>* (database w1) (database w2)"
    using step(2) by (simp_all add: sole_step_def)
  have logs: "logs_ok X bed reports home (topic_log w1)" by (rule logs_ok_earlier [OF s(1) step(4)])
  from step(3) [OF logs] obtain n where inv: "broker_inv X {} w1"
    and on: "on_report X bed start reports home w1 n" by blast
  from broker_step_on_report [OF s inv logs ok on] broker_step_keeps [OF s(1) inv] show ?case by blast
qed

end
