(* ===== verification/Group.thy ===== *)
theory Group
  imports Survival
begin

section \<open>Several engines in one consumer group\<close>

text \<open>
  During a rolling update, or with more replicas, several engines are in the consumer group, and the
  partitions move between them.  Each engine runs the consumer of \<open>Broker\<close>.  What they share, the
  topic, the offsets of the group and the database, is the same in the view that each has of the
  system; the position in each partition and the phase of the loop are its own.  An engine that is
  assigned a partition resumes it at an offset that some engine has committed, perhaps while
  the engine that had it before still handles a message of it.
\<close>

type_synonym engine = nat

type_synonym group = "engine \<Rightarrow> broker"

definition seen_by :: "broker \<Rightarrow> broker \<Rightarrow> broker" where
  "seen_by w v = v\<lparr>topic_log := topic_log w, group_offset := group_offset w,
     requested_offset := requested_offset w, database := database w, passes := passes w\<rparr>"

lemma seen_by_sel [simp]:
  "topic_log (seen_by w v) = topic_log w" "group_offset (seen_by w v) = group_offset w"
  "requested_offset (seen_by w v) = requested_offset w" "database (seen_by w v) = database w"
  "passes (seen_by w v) = passes w" "next_offset (seen_by w v) = next_offset v"
  "serving (seen_by w v) = serving v" "current (seen_by w v) = current v"
  by (simp_all add: seen_by_def)

text \<open>Engine \<open>j\<close> comes to \<open>w\<close>, and the others see what it did to the shared state.\<close>

definition engine_moves :: "engine \<Rightarrow> broker \<Rightarrow> group \<Rightarrow> group" where
  "engine_moves j w g = (\<lambda>i. if i = j then w else seen_by w (g i))"

lemma engine_moves_sel [simp]:
  "engine_moves j w g j = w" "i \<noteq> j \<Longrightarrow> engine_moves j w g i = seen_by w (g i)"
  by (simp_all add: engine_moves_def)

inductive group_step :: "externals \<Rightarrow> group \<Rightarrow> group \<Rightarrow> bool" for X where
  acts: "broker_step X (g j) w \<Longrightarrow> group_step X g (engine_moves j w g)"
| assigned: "current (g j) = Receiving \<Longrightarrow> n \<le> requested_offset (g j) p \<Longrightarrow>
     group_step X g (g(j := (g j)\<lparr>next_offset := (next_offset (g j))(p := n)\<rparr>))"

definition group_started :: "(partition \<Rightarrow> kafka_message list) \<Rightarrow> db \<Rightarrow> group" where
  "group_started topic d = (\<lambda>_. started topic d)"

text \<open>All views agree on what is shared.\<close>

definition shared_state where
  "shared_state w = (topic_log w, group_offset w, requested_offset w, database w, passes w)"

definition views_agree :: "group \<Rightarrow> bool" where
  "views_agree g \<longleftrightarrow> (\<forall>i j. shared_state (g i) = shared_state (g j))"

lemma views_agreeD:
  assumes "views_agree g"
  shows "topic_log (g j) = topic_log (g i)" "group_offset (g j) = group_offset (g i)"
    "requested_offset (g j) = requested_offset (g i)" "database (g j) = database (g i)"
    "passes (g j) = passes (g i)"
  using assms unfolding views_agree_def shared_state_def by blast+

lemma shared_state_seen_by [simp]: "shared_state (seen_by w v) = shared_state w"
  by (simp add: shared_state_def)

lemma shared_state_moves [simp]: "shared_state (engine_moves j w g i) = shared_state w"
  by (simp add: engine_moves_def)

lemma group_step_views: "group_step X g g' \<Longrightarrow> views_agree g \<Longrightarrow> views_agree g'"
proof (induction rule: group_step.induct)
  case (assigned g j n p)
  have "shared_state ((g j)\<lparr>next_offset := (next_offset (g j))(p := n)\<rparr>) = shared_state (g j)"
    by (simp add: shared_state_def)
  with assigned(3) show ?case by (auto simp: views_agree_def)
qed (simp add: views_agree_def)

lemma started_views: "views_agree (group_started topic d)"
  by (simp add: views_agree_def group_started_def)

subsection \<open>The invariant of the offsets\<close>

text \<open>What a step of another engine does to the shared state.\<close>

definition shared_later :: "broker \<Rightarrow> broker \<Rightarrow> bool" where
  "shared_later w w' \<longleftrightarrow> (\<forall>p. \<exists>msgs. topic_log w' p = topic_log w p @ msgs) \<and>
     (\<forall>p. requested_offset w p \<le> requested_offset w' p) \<and>
     (db_step UNIV)\<^sup>*\<^sup>* (database w) (database w') \<and> set (passes w) \<subseteq> set (passes w')"

lemma broker_step_shared: "broker_step X w w' \<Longrightarrow> shared_later w w'"
proof (induction rule: broker_step.induct)
  case (apply_fails w e bed ns sq d' now)
  then show ?case using consumer_tx_steps(1) by (auto simp: shared_later_def)
next
  case (allocate_fails w e bed ns sq d' locked i now)
  then show ?case using consumer_tx_steps(2) by (auto simp: shared_later_def)
next
  case (applies w e bed ns sq now outcome d')
  then show ?case
    using consumer_tx_steps(1) [of "database w" e bed ns sq now] by (simp add: shared_later_def)
next
  case (allocates w e bed ns sq locked i now a d')
  then show ?case
    using consumer_tx_steps(2) [of "database w" locked i now bed] by (auto simp: shared_later_def)
qed (auto simp: shared_later_def)

lemma at_hand_later:
  assumes "shared_later v w" and "next_offset v (serving v) < length (topic_log v (serving v))"
  shows "at_hand (seen_by w v) = at_hand v"
    and "next_offset v (serving v) < length (topic_log w (serving v))"
proof -
  obtain msgs where "topic_log w (serving v) = topic_log v (serving v) @ msgs"
    using assms(1) unfolding shared_later_def by blast
  with assms(2) show "at_hand (seen_by w v) = at_hand v"
    "next_offset v (serving v) < length (topic_log w (serving v))"
    by (simp_all add: at_hand_def nth_append)
qed

lemma settled_seen_by: "settled X known (seen_by w v) msg = settled X known w msg"
  by (simp add: settled_def)

lemma phase_ok_seen_by:
  assumes inv: "broker_inv X known v" and later: "shared_later v w"
  shows "phase_ok X known (seen_by w v)"
proof -
  have ph: "phase_ok X known v" and booked: "booking_inv (database v)"
    using inv by (simp_all add: broker_inv_def)
  have steps: "(db_step UNIV)\<^sup>*\<^sup>* (database v) (database w)" and ps: "set (passes v) \<subseteq> set (passes w)"
    using later by (simp_all add: shared_later_def)
  note hand = at_hand_later [OF later]
  have settled: "settled X known (seen_by w v) msg" if "settled X known v msg" for msg
    by (rule settled_later [OF _ booked _ that]) (simp_all add: steps ps)
  note kept = db_steps_processed [OF steps booked]
  show ?thesis
  proof (cases "current v")
    case Receiving
    then show ?thesis by (simp add: phase_ok_def)
  next
    case (Applying e bed ns sq)
    with ph hand show ?thesis by (simp add: phase_ok_def)
  next
    case (Allocating e bed ns sq)
    with ph hand kept show ?thesis by (simp add: phase_ok_def)
  next
    case Handled
    with ph hand settled show ?thesis by (simp add: phase_ok_def)
  qed
qed

lemma broker_inv_seen_by:
  assumes inv: "broker_inv X known v" and inv': "broker_inv X known w" and later: "shared_later v w"
  shows "broker_inv X known (seen_by w v)"
proof -
  have "next_offset v p \<le> requested_offset w p" for p
    using broker_invD(2) [OF inv, of p] later order.trans unfolding shared_later_def by blast
  with inv' phase_ok_seen_by [OF inv later] show ?thesis
    by (simp add: broker_inv_def settled_seen_by)
qed

definition group_inv :: "externals \<Rightarrow> uuid set \<Rightarrow> group \<Rightarrow> bool" where
  "group_inv X known g \<longleftrightarrow> views_agree g \<and> (\<forall>j. broker_inv X known (g j))"

lemma shared_later_view:
  "views_agree g \<Longrightarrow> shared_later (g j) w \<Longrightarrow> shared_later (g i) w"
  using views_agreeD [of g i j] by (simp add: shared_later_def)

lemma assigned_inv:
  assumes "broker_inv X known w" and "current w = Receiving" and "n \<le> requested_offset w p"
  shows "broker_inv X known (w\<lparr>next_offset := (next_offset w)(p := n)\<rparr>)"
  using assms by (simp add: broker_inv_def phase_ok_def)

lemma group_step_keeps: "group_step X g g' \<Longrightarrow> group_inv X known g \<Longrightarrow> group_inv X known g'"
proof (induction rule: group_step.induct)
  case (acts g j w)
  have views: "views_agree g" and inv: "broker_inv X known (g i)" for i
    using acts(2) by (simp_all add: group_inv_def)
  note w = broker_step_keeps [OF acts(1) inv]
  note later = shared_later_view [OF views broker_step_shared [OF acts(1)]]
  have "broker_inv X known (engine_moves j w g i)" for i
    using w broker_inv_seen_by [OF inv w later] by (cases "i = j") simp_all
  then show ?case by (simp add: group_inv_def views_agree_def)
next
  case (assigned g j n p)
  have "group_step X g (g(j := (g j)\<lparr>next_offset := (next_offset (g j))(p := n)\<rparr>))"
    using assigned(1,2) by (rule group_step.assigned [where g = g])
  from group_step_views [OF this] assigned(3)
  have "views_agree (g(j := (g j)\<lparr>next_offset := (next_offset (g j))(p := n)\<rparr>))"
    by (simp only: group_inv_def)
  with assigned assigned_inv [of X known "g j"] show ?case by (simp add: group_inv_def fun_upd_def)
qed

lemma group_steps_keep: "(group_step X)\<^sup>*\<^sup>* g g' \<Longrightarrow> group_inv X known g \<Longrightarrow> group_inv X known g'"
  by (induction rule: rtranclp_induct) (blast intro: group_step_keeps)+

lemma group_started_inv:
  "booking_inv d \<Longrightarrow> known \<subseteq> b_id ` set (beds d) \<Longrightarrow> group_inv X known (group_started topic d)"
  using started_inv started_views by (simp add: group_inv_def group_started_def)

text \<open>A run of one engine, while the others stand still, is a run of the group.\<close>

lemma one_engine_runs:
  assumes "(broker_step X)\<^sup>*\<^sup>* w w'" and "g j = w"
  shows "\<exists>g'. (group_step X)\<^sup>*\<^sup>* g g' \<and> g' j = w'"
  using assms(1)
proof (induction rule: rtranclp_induct)
  case base
  with assms(2) show ?case by blast
next
  case (step u v)
  then obtain h where h: "(group_step X)\<^sup>*\<^sup>* g h" "h j = u" by blast
  with step(2) have "group_step X h (engine_moves j v h)" by (intro group_step.acts) simp
  with h(1) have "(group_step X)\<^sup>*\<^sup>* g (engine_moves j v h)" by (rule rtranclp.rtrancl_into_rtrancl [of "group_step X"])
  moreover have "engine_moves j v h j = v" by simp
  ultimately show ?case by blast
qed

subsection \<open>The reports of a bed\<close>

text \<open>Only the engines of the group report for the bed.\<close>

inductive sole_group_step :: "externals \<Rightarrow> uuid \<Rightarrow> uuid set \<Rightarrow> group \<Rightarrow> group \<Rightarrow> bool" for X bed E where
  acts: "sole_step X bed E (g j) w \<Longrightarrow> sole_group_step X bed E g (engine_moves j w g)"
| assigned: "current (g j) = Receiving \<Longrightarrow> n \<le> requested_offset (g j) p \<Longrightarrow>
     sole_group_step X bed E g (g(j := (g j)\<lparr>next_offset := (next_offset (g j))(p := n)\<rparr>))"

lemma sole_group_step_group: "sole_group_step X bed E g g' \<Longrightarrow> group_step X g g'"
proof (induction rule: sole_group_step.induct)
  case (acts g j w)
  then show ?case by (intro group_step.acts) (simp add: sole_step_def)
next
  case (assigned g j n p)
  then show ?case by (rule group_step.assigned [where g = g])
qed

definition group_on_report ::
  "externals \<Rightarrow> uuid \<Rightarrow> int \<Rightarrow> report list \<Rightarrow> partition \<Rightarrow> group \<Rightarrow> nat \<Rightarrow> bool" where
  "group_on_report X bed start reports home g n \<longleftrightarrow> (\<forall>j. on_report X bed start reports home (g j) n)"

text \<open>The number of reports that are recorded never goes down.\<close>

lemma db_steps_ledger: "(db_step A)\<^sup>*\<^sup>* d d' \<Longrightarrow> set (applied_events d) \<subseteq> set (applied_events d')"
  by (induction rule: rtranclp_induct) (use db_step_ledger in blast)+

lemma at_report_mono:
  assumes n: "at_report bed start reports n d" and m: "at_report bed start reports m d'"
    and steps: "(db_step A)\<^sup>*\<^sup>* d d'"
  shows "n \<le> m"
proof (rule ccontr)
  assume "\<not> n \<le> m"
  with n have "recorded d (fst (reports ! m)) bed" "m < length reports" by (auto simp: at_report_def)
  with recorded_mono [OF db_steps_ledger [OF steps]] recorded_event_ids
  have "fst (reports ! m) \<in> event_ids d'" "m < length reports" by blast+
  with m show False by (auto simp: at_report_def)
qed

lemma on_report_seen_by:
  assumes inv: "broker_inv X known v" and later: "shared_later v w"
    and v: "on_report X bed start reports home v n" and w: "on_report X bed start reports home w m"
    and "n \<le> m"
  shows "on_report X bed start reports home (seen_by w v) m"
proof -
  have hand: "at_hand_done X bed home (seen_by w v) m"
    if "at_hand_done X bed home v n" "next_offset v (serving v) < length (topic_log v (serving v))"
  proof (cases "serving v = home")
    case True
    obtain msgs where "topic_log w home = topic_log v home @ msgs"
      using later unfolding shared_later_def by blast
    with that True \<open>n \<le> m\<close> show ?thesis by (simp add: at_hand_done_def reports_before_append)
  qed (simp add: at_hand_done_def)
  have at: "at_report bed start reports m (database w)"
    "reports_before X bed (topic_log w home) (requested_offset w home) \<le> m"
    using w by (simp_all add: on_report_def)
  have ph: "phase_ok X known v" using inv by (simp add: broker_inv_def)
  show ?thesis
    using at v ph hand by (cases "current v") (simp_all add: on_report_def phase_ok_def)
qed

lemma logs_ok_before:
  assumes "shared_later w w'" and ok: "logs_ok Y bed reports home (topic_log w')"
  shows "logs_ok Y bed reports home (topic_log w)"
proof -
  have grow: "\<exists>msgs. topic_log w' p = topic_log w p @ msgs" for p
    using assms(1) by (simp add: shared_later_def)
  have sub: "set (topic_log w p) \<subseteq> set (topic_log w' p)" for p
    using grow [of p] by auto
  obtain msgs where "topic_log w' home = topic_log w home @ msgs" using grow by blast
  with ok sub show ?thesis unfolding logs_ok_def by fastforce
qed

lemma engine_acts_on_report:
  assumes inv: "group_inv X {} g" and step: "sole_step X bed (fst ` set reports) (g j) w"
    and logs: "logs_ok X bed reports home (topic_log w)" and ok: "reports_ok start reports"
    and on: "group_on_report X bed start reports home g n"
  shows "\<exists>m. group_on_report X bed start reports home (engine_moves j w g) m"
proof -
  have views: "views_agree g" and each: "broker_inv X {} (g i)" for i
    using inv by (simp_all add: group_inv_def)
  have s: "broker_step X (g j) w" "consumer_writes (g j) (database w) \<or>
      (other_step bed (fst ` set reports))\<^sup>*\<^sup>* (database (g j)) (database w)"
    using step by (simp_all add: sole_step_def)
  note later = broker_step_shared [OF s(1)]
  have now: "on_report X bed start reports home (g i) n" for i
    using on by (simp add: group_on_report_def)
  obtain m where m: "on_report X bed start reports home w m"
    using broker_step_on_report [OF s each logs_ok_before [OF later logs] ok now] by blast
  have "n \<le> m"
  proof (rule at_report_mono)
    show "at_report bed start reports n (database (g j))" using now by (simp add: on_report_def)
    show "at_report bed start reports m (database w)" using m by (simp add: on_report_def)
    show "(db_step UNIV)\<^sup>*\<^sup>* (database (g j)) (database w)" using later by (simp add: shared_later_def)
  qed
  have "on_report X bed start reports home (engine_moves j w g i) m" for i
    using m on_report_seen_by [OF each shared_later_view [OF views later] now m \<open>n \<le> m\<close>]
    by (cases "i = j") simp_all
  then show ?thesis by (auto simp: group_on_report_def)
qed

lemma sole_group_step_logs:
  "sole_group_step X bed E g g' \<Longrightarrow> views_agree g \<Longrightarrow>
    logs_ok X bed reports home (topic_log (g' j)) \<Longrightarrow> logs_ok X bed reports home (topic_log (g j))"
proof (induction rule: sole_group_step.induct)
  case (acts g i w)
  have "broker_step X (g i) w" using acts(1) by (simp add: sole_step_def)
  with acts(2) have later: "shared_later (g j) w" using shared_later_view broker_step_shared by blast
  have "logs_ok X bed reports home (topic_log w)"
    using acts(3) by (cases "j = i") (simp_all add: engine_moves_def)
  with logs_ok_before [OF later] show ?case by blast
next
  case (assigned g i k p)
  then show ?case by (simp split: if_splits)
qed

lemma sole_group_step_on_report:
  "sole_group_step X bed (fst ` set reports) g g' \<Longrightarrow> group_inv X {} g \<Longrightarrow>
    logs_ok X bed reports home (topic_log (g' j)) \<Longrightarrow> reports_ok start reports \<Longrightarrow>
    group_on_report X bed start reports home g n \<Longrightarrow>
    \<exists>m. group_on_report X bed start reports home g' m"
proof (induction rule: sole_group_step.induct)
  case (acts g i w)
  have "logs_ok X bed reports home (topic_log w)"
    using acts(3) by (cases "j = i") (simp_all add: engine_moves_def)
  with engine_acts_on_report [OF acts(2,1) _ acts(4,5)] show ?case by blast
next
  case (assigned g i k p)
  have "on_report X bed start reports home
      ((g i)\<lparr>next_offset := (next_offset (g i))(p := k)\<rparr>) n"
    using assigned(1,6) by (simp add: group_on_report_def on_report_def)
  with assigned(6) show ?case by (auto simp: group_on_report_def)
qed

lemma sole_group_steps_group:
  "(sole_group_step X bed E)\<^sup>*\<^sup>* g g' \<Longrightarrow> (group_step X)\<^sup>*\<^sup>* g g'"
  by (erule rtranclp_mono [THEN predicate2D, rotated]) (auto intro: sole_group_step_group)

lemma sole_group_steps_on_report:
  assumes "(sole_group_step X bed (fst ` set reports))\<^sup>*\<^sup>* (group_started topic d) g"
    and at: "at_report bed start reports 0 d" and ok: "reports_ok start reports"
  shows "logs_ok X bed reports home (topic_log (g j)) \<Longrightarrow>
    group_inv X {} g \<and> (\<exists>n. group_on_report X bed start reports home g n)"
  using assms(1)
proof (induction rule: rtranclp_induct)
  case base
  have "booking_inv d" using at by (simp add: at_report_def)
  then have "group_inv X {} (group_started topic d)" by (rule group_started_inv) simp
  moreover have "group_on_report X bed start reports home (group_started topic d) 0"
    using at by (simp add: group_on_report_def group_started_def on_report_def started_def reports_before_def)
  ultimately show ?case by blast
next
  case (step g1 g2)
  have "booking_inv d" using at by (simp add: at_report_def)
  then have "group_inv X {} (group_started topic d)" by (rule group_started_inv) simp
  from group_steps_keep [OF sole_group_steps_group [OF step(1)] this]
  have inv: "group_inv X {} g1" .
  then have "views_agree g1" by (simp add: group_inv_def)
  from step(3) [OF sole_group_step_logs [OF step(2) this step(4)]] obtain n where
    "group_on_report X bed start reports home g1 n" by blast
  from sole_group_step_on_report [OF step(2) inv step(4) ok this]
    group_step_keeps [OF sole_group_step_group [OF step(2)] inv] show ?case by blast
qed

lemma one_engine_reports:
  assumes "(sole_step X bed E)\<^sup>*\<^sup>* w w'" and "g j = w"
  shows "\<exists>g'. (sole_group_step X bed E)\<^sup>*\<^sup>* g g' \<and> g' j = w' \<and>
    (\<forall>i. i \<noteq> j \<longrightarrow> current (g' i) = current (g i))"
  using assms(1)
proof (induction rule: rtranclp_induct)
  case base
  with assms(2) show ?case by blast
next
  case (step u v)
  then obtain h where h: "(sole_group_step X bed E)\<^sup>*\<^sup>* g h" "h j = u"
    "\<forall>i. i \<noteq> j \<longrightarrow> current (h i) = current (g i)" by blast
  with step(2) have "sole_group_step X bed E h (engine_moves j v h)"
    by (intro sole_group_step.acts) simp
  with h(1) have "(sole_group_step X bed E)\<^sup>*\<^sup>* g (engine_moves j v h)"
    by (rule rtranclp.rtrancl_into_rtrancl [of "sole_group_step X bed E"])
  moreover have "engine_moves j v h j = v" by simp
  moreover have "\<forall>i. i \<noteq> j \<longrightarrow> current (engine_moves j v h i) = current (g i)" using h(3) by simp
  ultimately show ?case by blast
qed

end
