(* ===== verification/Report_Properties.thy ===== *)
theory Report_Properties
  imports Survival Examples
begin

section \<open>Properties of the reports of a bed\<close>

text \<open>
  What becomes of the reports of a terminal, at the consumer and on the whole way from the
  terminal through intake and the topic to the bed's row.
\<close>

text \<open>
  The faults end at move \<open>N\<close>, before the retry counter can overflow, and the identifiers drawn before move \<open>H\<close> are fresh: enough for a
  run over \<open>len\<close> messages.
\<close>

definition faults_end :: "nat \<Rightarrow> nat \<Rightarrow> script \<Rightarrow> nat \<Rightarrow> AppState \<Rightarrow> bool" where
  "faults_end N H s len st \<longleftrightarrow> N < 2 ^ 32 \<and> distinct_ids H s \<and> ids_unused H s st \<and>
     (\<forall>k\<ge>N. mv_fault (s k) = None) \<and> max (pos st) (N + 3) + 4 * len + 2 \<le> H"

lemma consumer_reports:
  assumes "sole_reporter bed (fst ` set reports) s" and "reports_ok start reports"
    and at: "at_report bed start reports n (pool (app c))"
    and "faults_end N H s (length (messages arrivals)) (app c)"
    and "\<forall>msg\<in>set (messages arrivals). no_imposter X bed (fst ` set reports) msg"
    and "bed_reports X bed (messages arrivals) = map ((!) reports) ks"
    and "set ks \<subseteq> {..<length reports}" and "delivers n ks m"
  shows "\<exists>c'. run_consumer X s commit_ok arrivals c = Some (Inr c') \<and>
    at_report bed start reports m (pool (app c'))"
proof -
  have "booking_inv (pool (app c))" using at by (simp add: at_report_def)
  moreover have "N + 5 \<le> H"
    using assms(4) max.cobounded2 [of "N + 3" "pos (app c)"] unfolding faults_end_def by linarith
  ultimately obtain c' where r: "run_consumer X s commit_ok arrivals c = Some (Inr c')"
    using run_consumer_ends [OF sole_reporter_fair [OF assms(1)], of H N c arrivals X commit_ok]
      assms(4) by (auto simp: faults_end_def)
  with run_reported [OF assms(1,2) at assms(5-8) r] show ?thesis by blast
qed

text \<open>
  The reports of a bed take effect: when they carry distinct identifiers and growing sequence
  numbers, nobody else reports for the bed, and they are delivered in order and each at least
  once, possibly again and again, then the consumer comes to its end whatever faults and whatever
  other messages there are on the way, every delivered report is in the ledger, none that is still
  to come is, and the bed's row has the sequence number and the status of the last one, or is
  reserved when that one made it available.
\<close>

theorem reports_take_effect:
  assumes "sole_reporter bed (fst ` set reports) s" and "reports_ok start reports"
    and "at_report bed start reports n (pool (app c))"
    and "faults_end N H s (length (messages arrivals)) (app c)"
    and "\<forall>msg\<in>set (messages arrivals). no_imposter X bed (fst ` set reports) msg"
    and "bed_reports X bed (messages arrivals) = map ((!) reports) ks"
    and "set ks \<subseteq> {..<length reports}" and "delivers n ks m"
  shows "\<exists>c'. run_consumer X s commit_ok arrivals c = Some (Inr c') \<and>
    (\<forall>k<m. recorded (pool (app c')) (fst (reports ! k)) bed) \<and>
    (\<forall>k<length reports. m \<le> k \<longrightarrow> fst (reports ! k) \<notin> event_ids (pool (app c'))) \<and>
    bed_at (pool (app c')) bed (sequence_after start reports m) (status_after reports m)"
proof -
  from consumer_reports [OF assms] obtain c' where
    "run_consumer X s commit_ok arrivals c = Some (Inr c')"
    "at_report bed start reports m (pool (app c'))" by blast
  then show ?thesis unfolding at_report_def by blast
qed

subsection \<open>An example\<close>

definition ex_reported :: "uuid \<Rightarrow> i32 \<Rightarrow> i64 \<Rightarrow> BedStatusEvent" where
  "ex_reported i status sequence =
     \<lparr>ev_event_id = show_uuid ex_externals i, ev_shelter_id = show_uuid ex_externals 1,
      ev_bed_id = show_uuid ex_externals 1, ev_status = status, ev_sequence = sequence,
      ev_occurred_at_ms = 0\<rparr>"

definition ex_wire :: externals where
  "ex_wire = ex_externals\<lparr>encode_event := (\<lambda>e. [ucast (ev_sequence e)]),
     decode_event := (\<lambda>bytes. if bytes = [1] then Some (ex_reported 21 1 1)
       else if bytes = [2] then Some (ex_reported 22 3 2) else None)\<rparr>"

definition ex_reports :: "report list" where
  "ex_reports = [(21, Available, 1), (22, Occupied, 2)]"

abbreviation ex_arrival :: "8 word \<Rightarrow> kafka_message" where
  "ex_arrival n \<equiv> \<lparr>msg_payload = Some [n], msg_offset = 0\<rparr>"

definition ex_arrivals :: "(unit + kafka_message) list" where
  "ex_arrivals = [Inr (ex_arrival 1), Inr (ex_arrival 1), Inl (), Inr (ex_arrival 7), Inr (ex_arrival 2)]"

definition ex_reader :: consumer where
  "ex_reader = \<lparr>app = ex_state ex_free, committed = []\<rparr>"

lemma ex_wire_ok: "externals_ok ex_wire"
  using ex_externals_ok by (simp add: externals_ok_def ex_wire_def)

lemma ex_wire_events:
  "message_event ex_wire (ex_arrival 1) = Some (21, 1, ex_reported 21 1 1)"
  "message_event ex_wire (ex_arrival 2) = Some (22, 1, ex_reported 22 3 2)"
  "message_event ex_wire (ex_arrival 7) = None"
  by (simp_all add: message_event_def ex_wire_def ex_reported_def parse_ids_def ex_externals_def)

lemma ex_wire_reports:
  "report_of ex_wire 1 (ex_arrival 1) = Some (21, Available, 1)"
  "report_of ex_wire 1 (ex_arrival 2) = Some (22, Occupied, 2)"
  "report_of ex_wire 1 (ex_arrival 7) = None"
  by (simp_all add: report_of_def ex_wire_events)
     (simp_all add: ex_wire_def ex_reported_def ex_externals_def)

lemma ex_arrivals_reports:
  "bed_reports ex_wire 1 (messages ex_arrivals) = map ((!) ex_reports) [0, 0, 1]"
  by (simp add: ex_arrivals_def ex_wire_reports ex_reports_def)

lemma ex_arrivals_clean: "\<forall>msg\<in>set (messages ex_arrivals). no_imposter ex_wire 1 E msg"
  by (simp add: ex_arrivals_def no_imposter_def ex_wire_events)

lemma ex_faults_end: "faults_end 0 2000 ex_script (length (messages ex_arrivals)) (app ex_reader)"
  using ex_script_ids by (simp add: faults_end_def ex_arrivals_def ex_reader_def ids_unused_def ex_free_def)

lemma ex_reader_bed: "bed_at (pool (app ex_reader)) 1 0 None" "event_ids (pool (app ex_reader)) = {}"
  by (simp_all add: ex_reader_def bed_at_def event_ids_def ex_free_def ex_bed_def)

lemma ex_at_start: "at_report 1 0 ex_reports 0 ex_free"
  using ex_reader_bed ex_inv(7) by (simp add: at_report_def ex_reader_def)

lemma ex_reports_ok: "reports_ok 0 ex_reports"
  by (simp add: reports_ok_def ex_reports_def less_Suc_eq)

theorem reports_take_effect_witness:
  "\<exists>c'. run_consumer ex_wire ex_script (\<lambda>_. False) ex_arrivals ex_reader = Some (Inr c') \<and>
    recorded (pool (app c')) 21 1 \<and> recorded (pool (app c')) 22 1 \<and>
    bed_at (pool (app c')) 1 2 (Some Occupied)"
proof -
  have at: "at_report 1 0 ex_reports 0 (pool (app ex_reader))"
    using ex_at_start by (simp add: ex_reader_def)
  have len: "set [0, 0, 1] \<subseteq> {..<length ex_reports}" "delivers 0 [0, 0, 1] 2"
    by (simp_all add: ex_reports_def)
  from reports_take_effect [OF alone_sole_reporter [OF ex_script_alone] ex_reports_ok at ex_faults_end
      ex_arrivals_clean ex_arrivals_reports len, of "\<lambda>_. False"]
  obtain c' where c': "run_consumer ex_wire ex_script (\<lambda>_. False) ex_arrivals ex_reader = Some (Inr c')"
    "\<forall>k<2. recorded (pool (app c')) (fst (ex_reports ! k)) 1"
    "bed_at (pool (app c')) 1 (sequence_after 0 ex_reports 2) (status_after ex_reports 2)" by blast
  have "recorded (pool (app c')) 21 1" "recorded (pool (app c')) 22 1"
    using c'(2) [rule_format, of 0] c'(2) [rule_format, of 1] by (simp_all add: ex_reports_def)
  with c'(1,3) show ?thesis by (simp add: ex_reports_def numeral_2_eq_2)
qed

subsection \<open>Crashes\<close>

text \<open>
  Reports survive crashes: when the reports of a bed are in one partition, in order, and nobody
  else reports for the bed, then at every moment, however often the consumer crashed, read again
  from an older offset, lost a commit or met a fault, the ledger has exactly the first \<open>n\<close> of them
  for some \<open>n\<close>, no report below the group's offset is missing among these, and the bed's row has
  the sequence number and the status of the last of them, or is reserved when that one made it
  available.
\<close>

theorem reports_survive_crashes:
  assumes "reports_ok start reports" and "at_report bed start reports 0 d"
    and "(sole_step X bed (fst ` set reports))\<^sup>*\<^sup>* (started topic d) w"
    and "logs_ok X bed reports home (topic_log w)"
  shows "\<exists>n. length (bed_reports X bed (take (group_offset w home) (topic_log w home))) \<le> n \<and>
    n \<le> length reports \<and> (\<forall>k<n. recorded (database w) (fst (reports ! k)) bed) \<and>
    (\<forall>k<length reports. n \<le> k \<longrightarrow> fst (reports ! k) \<notin> event_ids (database w)) \<and>
    bed_at (database w) bed (sequence_after start reports n) (status_after reports n)"
proof -
  obtain n where inv: "broker_inv X {} w" and n: "at_report bed start reports n (database w)"
    "reports_before X bed (topic_log w home) (requested_offset w home) \<le> n"
    using sole_steps_on_report [OF assms(3,2,1,4)] unfolding on_report_def by blast
  have "reports_before X bed (topic_log w home) (group_offset w home) \<le> n"
    using reports_before_mono [OF broker_invD(1) [OF inv]] n(2) order.trans by blast
  with n(1) show ?thesis unfolding at_report_def reports_before_def by blast
qed

definition ex_partition :: "partition \<Rightarrow> kafka_message list" where
  "ex_partition p = (if p = 0 then [ex_arrival 1, ex_arrival 2] else [])"

lemma ex_logs: "logs_ok ex_wire 1 ex_reports 0 ex_partition"
  by (auto simp: logs_ok_def ex_partition_def ex_wire_reports ex_reports_def no_imposter_def
      ex_wire_events)

text \<open>The first report is applied, its allocation pass runs, and its offset lands; then a crash.\<close>

lemma ex_one_report:
  "\<exists>w. (sole_step ex_wire 1 (fst ` set ex_reports))\<^sup>*\<^sup>* (started ex_partition ex_free) w \<and>
     topic_log w = ex_partition \<and> group_offset w 0 = 1"
proof -
  let ?step = "sole_step ex_wire 1 (fst ` set ex_reports)"
  let ?w0 = "started ex_partition ex_free"
  let ?w1 = "?w0\<lparr>serving := 0, current := received ex_wire (topic_log ?w0 0 ! next_offset ?w0 0)\<rparr>"
  have 1: "broker_step ex_wire ?w0 ?w1"
    by (rule broker_step.receives) (simp_all add: started_def ex_partition_def)
  have ph1: "current ?w1 = Applying 21 1 Available 1"
    by (simp add: started_def ex_partition_def received_def ex_wire_events reported_status_def)
       (simp add: ex_reported_def ex_wire_def ex_externals_def)
  obtain out d' where tx: "apply_tx 21 1 Available 1 0 (database ?w1) = (Inr out, d')"
    using apply_tx_no_error by blast
  let ?w2 = "?w1\<lparr>database := d', current := after_apply out 21 1 Available 1\<rparr>"
  have 2: "broker_step ex_wire ?w1 ?w2" by (rule broker_step.applies [OF ph1 tx])
  have "\<exists>sh av. Inr out = (Inr (Applied sh av) :: failure + ApplyOutcome) \<and>
      at_report 1 0 ex_reports (Suc 0) d'"
    by (rule apply_next_report [OF ex_reports_ok ex_at_start _ _ tx [unfolded started_def, simplified]])
       (simp_all add: ex_reports_def)
  then have ph2: "current ?w2 = Allocating 21 1 Available 1" and inv: "booking_inv d'"
    by (auto simp: after_apply_def at_report_def)
  have "v_id ` set (reservations d') = v_id ` set (reservations ex_free)"
    using apply_tx_ids [of 21 1 Available 1 0 ex_free] tx by (simp add: started_def)
  then have "1 \<notin> v_id ` set (reservations d')" by (simp add: ex_free_def)
  from allocate_tx_total [OF inv this, of "\<lambda>_. False" 0 1] obtain a d2 where
    tx2: "allocate_tx (\<lambda>_. False) 1 0 1 (database ?w2) = (Inr a, d2)" by auto
  let ?w3 = "?w2\<lparr>database := d2, current := Handled,
    passes := passes ?w2 @ [\<lparr>pass_event = 21, pass_locked = (\<lambda>_. False), pass_db = d2\<rparr>]\<rparr>"
  have 3: "broker_step ex_wire ?w2 ?w3" by (rule broker_step.allocates [OF ph2 tx2])
  let ?w4 = "?w3\<lparr>current := Receiving,
       next_offset := (next_offset ?w3)(serving ?w3 := Suc (next_offset ?w3 (serving ?w3))),
       requested_offset := (requested_offset ?w3)(serving ?w3 :=
         max (requested_offset ?w3 (serving ?w3)) (Suc (next_offset ?w3 (serving ?w3))))\<rparr>"
  have 4: "broker_step ex_wire ?w3 ?w4" by (rule broker_step.commits) simp
  let ?w5 = "?w4\<lparr>group_offset := (group_offset ?w4)(0 := 1)\<rparr>"
  have 5: "broker_step ex_wire ?w4 ?w5" by (rule broker_step.offset_lands) (simp add: started_def)
  have "?step ?w0 ?w1" by (rule sole_stepI(1) [OF 1]) simp
  moreover have "?step ?w1 ?w2" by (rule sole_stepI(2) [OF 2 consumer_writesI(1) [OF ph1 tx]]) simp
  moreover have "?step ?w2 ?w3" by (rule sole_stepI(2) [OF 3 consumer_writesI(2) [OF ph2 tx2]]) simp
  moreover have "?step ?w3 ?w4" by (rule sole_stepI(1) [OF 4]) simp
  moreover have "?step ?w4 ?w5" by (rule sole_stepI(1) [OF 5]) simp
  ultimately have "?step\<^sup>*\<^sup>* ?w0 ?w5" by (meson rtranclp.intros)
  moreover have "topic_log ?w5 = ex_partition" "group_offset ?w5 0 = 1" by (simp_all add: started_def)
  ultimately show ?thesis by blast
qed

theorem reports_survive_crashes_witness:
  "\<exists>w. (broker_step ex_wire)\<^sup>*\<^sup>* (started ex_partition ex_free) w \<and> recorded (database w) 21 1"
proof -
  obtain w where w: "(sole_step ex_wire 1 (fst ` set ex_reports))\<^sup>*\<^sup>* (started ex_partition ex_free) w"
    "topic_log w = ex_partition" "group_offset w 0 = 1" using ex_one_report by blast
  have "length (bed_reports ex_wire 1 (take (group_offset w 0) (topic_log w 0))) = 1"
    by (simp add: w(2,3) ex_partition_def ex_wire_reports)
  with reports_survive_crashes [OF ex_reports_ok ex_at_start w(1), of 0] ex_logs w(2)
  have "recorded (database w) (fst (ex_reports ! 0)) 1" by auto
  then have "recorded (database w) 21 1" by (simp add: ex_reports_def)
  with sole_steps_broker [OF w(1)] show ?thesis by blast
qed

subsection \<open>From the terminal to the row\<close>

text \<open>The hypotheses about a terminal and the way of its events.\<close>

definition terminal_calls ::
  "externals \<Rightarrow> SeededBed \<Rightarrow> (uuid \<times> i64) list \<Rightarrow> (FutureRecord list \<times> BedStatusEvent) list \<Rightarrow> bool" where
  "terminal_calls X bed ticks calls \<longleftrightarrow> length ticks < 2 ^ 63 \<and> distinct (map fst ticks) \<and>
     (\<exists>events. terminal_run X bed ticks terminal_start = Inr events \<and>
       subseq (map snd calls) events \<and>
       (\<forall>event\<in>set events. decode_event X (encode_event X event) = Some event)) \<and>
     (\<forall>call\<in>set calls. topic_reports X (sb_id bed) (fst call) = [])"

lemma terminal_calls_reports:
  assumes X: "externals_ok X" and send: "producer_ok send"
    and calls: "terminal_calls X bed ticks calls"
    and topic: "submissions X send topic calls [] = (answers, log)"
  obtains sent where "topic_reports X (sb_id bed) log = map (event_report X) sent"
    "reports_ok 0 (map (event_report X) sent)"
    "fst ` set (map (event_report X) sent) \<subseteq> fst ` set ticks" "length answers = length calls"
    "\<And>k. k < length calls \<Longrightarrow> \<not> isl (answers ! k) \<Longrightarrow> snd (calls ! k) \<in> set sent"
proof -
  obtain events where e: "terminal_run X bed ticks terminal_start = Inr events"
    "subseq (map snd calls) events" "length ticks < 2 ^ 63" "distinct (map fst ticks)"
    "\<And>event. event \<in> set events \<Longrightarrow> decode_event X (encode_event X event) = Some event"
    "\<And>call. call \<in> set calls \<Longrightarrow> topic_reports X (sb_id bed) (fst call) = []"
    using calls unfolding terminal_calls_def by blast
  note seq = terminal_in_sequence [OF X e(1,3,4)]
  have called: "snd call \<in> set events" if "call \<in> set calls" for call
    using list_emb_set [OF e(2)] that by (metis image_eqI list.set_map)
  have "\<forall>call\<in>set calls. event_of_bed X (sb_id bed) (snd call) \<and> topic_reports X (sb_id bed) (fst call) = []"
    unfolding event_of_bed_def using called e(5,6) seq(2) by blast
  from submissions_reports [OF send this topic] obtain sent where sent:
    "subseq sent (map snd calls)" "length answers = length calls"
    "topic_reports X (sb_id bed) log = map (event_report X) sent"
    "\<forall>k<length calls. \<not> isl (answers ! k) \<longrightarrow> snd (calls ! k) \<in> set sent" by auto
  have sub: "subseq sent events" using sent(1) e(2) by (rule subseq_order.trans)
  then have sent_in: "set sent \<subseteq> set events" by (auto elim: list_emb_set)
  have "reports_ok 0 (map (event_report X) sent)"
    by (rule reports_in_sequence [OF sorted_wrt_subseq [OF sub seq(1)]]) (use sent_in seq(2) in blast)
  moreover have "fst ` set (map (event_report X) sent) \<subseteq> fst ` set ticks"
    using sent_in seq(2) by auto
  ultimately show thesis using sent by (intro that) auto
qed

lemma sole_reporter_subset:
  assumes "sole_reporter bed E s" and "E' \<subseteq> E"
  shows "sole_reporter bed E' s"
proof -
  have "other_step bed E \<le> other_step bed E'"
    using assms(2) unfolding other_step_def by (intro predicate2I) blast
  from rtranclp_mono [OF this] show ?thesis using assms(1) unfolding sole_reporter_def by blast
qed

text \<open>
  C16.  What a simulated terminal reports and intake accepts takes effect, under these
  conditions. The terminal draws distinct event ids and sends its events one after the other;
  some calls do not reach intake, and the producer refuses or fails some. The records about the
  bed in the topic come from this terminal only, and they are delivered to one run of the
  consumer in order, each at least once, perhaps repeatedly, among messages about other beds
  that do not use its event ids; no other session applies events to the bed. The bed was just
  seeded, with sequence number 0, and the ledger has none of the event ids. Faults end, and the
  ids drawn for reservations are unused. Then the consumer comes to its end, every accepted
  event is in the ledger, and the bed's row has the sequence number of the last record about it
  in the topic and that record's status, or reads reserved when that record made the bed
  available.
\<close>

theorem accepted_reports_take_effect:
  assumes "externals_ok X" and "producer_ok send" and "terminal_calls X bed ticks calls"
    and "submissions X send topic calls [] = (answers, log)"
    and "bed_reports X (sb_id bed) (messages arrivals) = map ((!) (topic_reports X (sb_id bed) log)) ks"
    and "set ks \<subseteq> {..<length (topic_reports X (sb_id bed) log)}"
    and "delivers 0 ks (length (topic_reports X (sb_id bed) log))"
    and "\<forall>msg\<in>set (messages arrivals). no_imposter X (sb_id bed) (fst ` set ticks) msg"
    and "sole_reporter (sb_id bed) (fst ` set ticks) s"
    and "faults_end N H s (length (messages arrivals)) (app c)"
    and "booking_inv (pool (app c))" and "bed_at (pool (app c)) (sb_id bed) 0 None"
    and "event_ids (pool (app c)) \<inter> fst ` set ticks = {}"
  shows "\<exists>c'. run_consumer X s commit_ok arrivals c = Some (Inr c') \<and>
    (\<forall>k<length calls. \<not> isl (answers ! k) \<longrightarrow>
       recorded (pool (app c')) (fst (event_report X (snd (calls ! k)))) (sb_id bed)) \<and>
    (topic_reports X (sb_id bed) log \<noteq> [] \<longrightarrow>
       bed_at (pool (app c')) (sb_id bed) (sint (snd (snd (last (topic_reports X (sb_id bed) log)))))
         (Some (fst (snd (last (topic_reports X (sb_id bed) log))))))"
proof -
  let ?rs = "topic_reports X (sb_id bed) log"
  obtain sent where sent: "?rs = map (event_report X) sent" "reports_ok 0 (map (event_report X) sent)"
    "fst ` set (map (event_report X) sent) \<subseteq> fst ` set ticks" "length answers = length calls"
    "\<And>k. k < length calls \<Longrightarrow> \<not> isl (answers ! k) \<Longrightarrow> snd (calls ! k) \<in> set sent"
    using terminal_calls_reports [OF assms(1-4)] by metis
  have ids: "fst ` set ?rs \<subseteq> fst ` set ticks" using sent(1,3) by simp
  have "fst (?rs ! k) \<notin> event_ids (pool (app c))" if "k < length ?rs" for k
  proof -
    have "fst (?rs ! k) \<in> fst ` set ?rs" using that by simp
    with ids assms(13) show ?thesis by blast
  qed
  then have at: "at_report (sb_id bed) 0 ?rs 0 (pool (app c))"
    using assms(11,12) by (simp add: at_report_def)
  have clean: "\<forall>msg\<in>set (messages arrivals). no_imposter X (sb_id bed) (fst ` set ?rs) msg"
    using assms(8) no_imposter_subset [OF _ ids] by blast
  have ok: "reports_ok 0 ?rs" unfolding sent(1) by (rule sent(2))
  from consumer_reports [OF sole_reporter_subset [OF assms(9) ids] ok at assms(10) clean assms(5-7),
      of commit_ok] obtain c' where
    run: "run_consumer X s commit_ok arrivals c = Some (Inr c')"
    and fin: "at_report (sb_id bed) 0 ?rs (length ?rs) (pool (app c'))" by blast
  from fin have all: "\<And>k. k < length ?rs \<Longrightarrow> recorded (pool (app c')) (fst (?rs ! k)) (sb_id bed)"
    and bed: "bed_at (pool (app c')) (sb_id bed) (sequence_after 0 ?rs (length ?rs))
      (status_after ?rs (length ?rs))" by (simp_all add: at_report_def)
  have "recorded (pool (app c')) (fst (event_report X (snd (calls ! k)))) (sb_id bed)"
    if k: "k < length calls" "\<not> isl (answers ! k)" for k
  proof -
    obtain i where "i < length sent" "sent ! i = snd (calls ! k)"
      using sent(5) [OF k] by (metis in_set_conv_nth)
    with all [of i] sent(1) show ?thesis by simp
  qed
  moreover have "bed_at (pool (app c')) (sb_id bed) (sint (snd (snd (last ?rs)))) (Some (fst (snd (last ?rs))))"
    if rs: "?rs \<noteq> []"
  proof -
    obtain k where "length ?rs = Suc k" using rs by (cases ?rs) auto
    with bed rs show ?thesis by (simp add: last_conv_nth)
  qed
  ultimately show ?thesis using run by blast
qed

definition ex_terminal :: SeededBed where
  "ex_terminal = \<lparr>sb_id = 1, sb_shelter_id = 1, sb_region = ''north-metro''\<rparr>"

definition ex_ticks :: "(uuid \<times> i64) list" where
  "ex_ticks = [(21, 0), (22, 0)]"

definition ex_calls :: "(FutureRecord list \<times> BedStatusEvent) list" where
  "ex_calls = [([], ex_reported 21 1 1), ([], ex_reported 22 3 2)]"

definition ex_acknowledging :: producer where
  "ex_acknowledging r log = (Inr (), log @ [r])"

lemma ex_terminal_run: "terminal_run ex_wire ex_terminal ex_ticks terminal_start =
    Inr [ex_reported 21 1 1, ex_reported 22 3 2]"
  by (simp add: ex_ticks_def terminal_step_def terminal_start_def add_i64_def Let_def
      ex_terminal_def ex_reported_def ex_wire_def)

lemma ex_terminal_calls: "terminal_calls ex_wire ex_terminal ex_ticks ex_calls"
  unfolding terminal_calls_def ex_terminal_run
  by (simp add: ex_calls_def ex_ticks_def) (simp add: ex_wire_def ex_reported_def)

definition ex_records :: "FutureRecord list" where
  "ex_records = map (\<lambda>n. \<lparr>rec_topic = ''bed-events'', rec_key = show_uuid ex_externals 1,
     rec_payload = [n]\<rparr>) [1, 2]"

lemma ex_submissions: "submissions ex_wire ex_acknowledging ''bed-events'' ex_calls [] =
    (replicate 2 (Inr \<lparr>accepted = True, response_message = ''accepted''\<rparr>), ex_records)"
proof -
  have "event_status ex_wire 1 = Proto_AVAILABLE" "event_status ex_wire 3 = Proto_OCCUPIED"
    "show_uuid ex_externals i \<noteq> []" for i
    by (simp_all add: ex_wire_def ex_externals_def)
  moreover have "encode_event ex_wire (ex_reported i st sq) = [ucast sq]" for i st sq
    by (simp add: ex_wire_def ex_reported_def)
  ultimately show ?thesis
    by (simp add: ex_calls_def submit_bed_status_def ex_acknowledging_def ex_records_def)
       (simp add: ex_reported_def numeral_2_eq_2)
qed

lemma ex_topic_reports: "topic_reports ex_wire 1 ex_records = ex_reports"
  by (simp add: topic_reports_def ex_records_def message_of_def ex_reports_def report_of_def
      message_event_def ex_wire_def parse_ids_def ex_reported_def ex_externals_def)

theorem accepted_reports_take_effect_witness:
  "\<exists>c'. run_consumer ex_wire ex_script (\<lambda>_. False) ex_arrivals ex_reader = Some (Inr c') \<and>
    bed_at (pool (app c')) 1 2 (Some Occupied)"
proof -
  have send: "producer_ok ex_acknowledging" by (simp add: producer_ok_def ex_acknowledging_def)
  have bed: "sb_id ex_terminal = 1" by (simp add: ex_terminal_def)
  note main = accepted_reports_take_effect [OF ex_wire_ok send ex_terminal_calls ex_submissions,
      unfolded bed ex_topic_reports]
  have len: "set [0, 0, 1] \<subseteq> {..<length ex_reports}" "delivers 0 [0, 0, 1] (length ex_reports)"
    by (simp_all add: ex_reports_def)
  have inv: "booking_inv (pool (app ex_reader))" using ex_inv(7) by (simp add: ex_reader_def)
  from main [OF ex_arrivals_reports len ex_arrivals_clean
      alone_sole_reporter [OF ex_script_alone] ex_faults_end inv ex_reader_bed(1), of "\<lambda>_. False"]
  show ?thesis using ex_reader_bed(2) by (auto simp: ex_reports_def)
qed

end
