(* ===== verification/Consumption.thy ===== *)
theory Consumption
  imports Broker
begin

section \<open>The consumer's loop is a run of the broker model\<close>

text \<open>
  \<open>run_consumer\<close> is the loop of the code over what it receives; \<open>broker_step\<close> has the log, the
  offsets and the crashes.  Here every run of the loop, with all its retries, interference and
  faults, is found among the runs of the broker model.
\<close>

definition leads :: "externals \<Rightarrow> broker \<Rightarrow> phase \<Rightarrow> db \<Rightarrow> broker \<Rightarrow> bool" where
  "leads X w ph d w' \<longleftrightarrow>
     (broker_step X)\<^sup>*\<^sup>* w w' \<and> same_place w w' \<and> current w' = ph \<and> database w' = d"

lemma leads_refl: "current w = ph \<Longrightarrow> database w = d \<Longrightarrow> leads X w ph d w"
  by (simp add: leads_def same_place_def)

lemma leads_trans: "leads X w ph d w1 \<Longrightarrow> leads X w1 ph' d' w2 \<Longrightarrow> leads X w ph' d' w2"
  by (auto simp: leads_def same_place_def)

lemma leads_step: "broker_step X w w' \<Longrightarrow> same_place w w' \<Longrightarrow> leads X w (current w') (database w') w'"
  by (simp add: leads_def r_into_rtranclp)

lemma leadsD: "leads X w ph d w' \<Longrightarrow> current w' = ph" "leads X w ph d w' \<Longrightarrow> database w' = d"
  by (simp_all add: leads_def)

text \<open>What other sessions do.\<close>

lemma leads_others:
  assumes "(db_step UNIV)\<^sup>*\<^sup>* (database w) d"
  shows "leads X w (current w) d (w\<lparr>database := d\<rparr>)"
  using leads_step [OF broker_step.others [OF assms], of X] by (simp add: same_place_def)

subsection \<open>One transaction of the consumer\<close>

lemma leads_apply:
  assumes fair: "fair_script UNIV s" and w: "current w = Applying e bed ns sq" "database w = pool st"
    and run: "apply_bed_status_event s e bed ns sq st = (r, st')"
  shows "\<exists>w'. leads X w (case r of Inl f \<Rightarrow> Applying e bed ns sq | Inr out \<Rightarrow> after_apply out e bed ns sq)
    (pool st') w'"
proof -
  let ?d = "mv_interfere (s (pos st)) (pool st)" and ?now = "mv_now (s (pos st))"
  let ?w = "w\<lparr>database := ?d\<rparr>"
  have "(db_step UNIV)\<^sup>*\<^sup>* (database w) ?d" using fair w(2) by (simp add: fair_script_def)
  from leads_others [OF this, of X] w(1) have 1: "leads X w (Applying e bed ns sq) ?d ?w" by simp
  note run' = run [unfolded apply_bed_status_event_def]
  show ?thesis
  proof (cases r)
    case (Inl f)
    have "pool st' \<in> {database ?w, snd (apply_tx e bed ns sq ?now (database ?w))}"
      using exec_pool [OF run'] by auto
    from broker_step.apply_fails [OF _ this, where X = X] w(1)
    have "broker_step X ?w (?w\<lparr>database := pool st'\<rparr>)" by simp
    from leads_trans [OF 1 leads_step [OF this]] w(1) Inl show ?thesis
      by (intro exI [of _ "w\<lparr>database := pool st'\<rparr>"]) (simp add: same_place_def)
  next
    case (Inr out)
    with run' have "apply_tx e bed ns sq ?now (database ?w) = (Inr out, pool st')"
      by (auto simp: exec_Inr)
    from broker_step.applies [OF _ this, where X = X] w(1)
    have "broker_step X ?w (?w\<lparr>database := pool st', current := after_apply out e bed ns sq\<rparr>)" by simp
    from leads_trans [OF 1 leads_step [OF this]] Inr show ?thesis
      by (intro exI [of _ "?w\<lparr>database := pool st', current := after_apply out e bed ns sq\<rparr>"])
         (simp add: same_place_def)
  qed
qed

lemma leads_allocate:
  assumes fair: "fair_script UNIV s" and w: "current w = Allocating e bed ns sq" "database w = pool st"
    and run: "allocate_for_bed s bed st = (r, st')"
  shows "\<exists>w'. leads X w (case r of Inl f \<Rightarrow> Applying e bed ns sq | Inr a \<Rightarrow> Handled) (pool st') w'"
proof -
  let ?m = "s (pos st)"
  let ?d = "mv_interfere ?m (pool st)"
  let ?w = "w\<lparr>database := ?d\<rparr>"
  have "(db_step UNIV)\<^sup>*\<^sup>* (database w) ?d" using fair w(2) by (simp add: fair_script_def)
  from leads_others [OF this, of X] w(1) have 1: "leads X w (Allocating e bed ns sq) ?d ?w" by simp
  note run' = run [unfolded allocate_for_bed_def]
  show ?thesis
  proof (cases r)
    case (Inl f)
    have "pool st' \<in> {database ?w,
        snd (allocate_tx (mv_locked ?m) (mv_uuid ?m) (mv_now ?m) bed (database ?w))}"
      using exec_pool [OF run'] by auto
    from broker_step.allocate_fails [OF _ this, where X = X] w(1)
    have "broker_step X ?w (?w\<lparr>database := pool st', current := Applying e bed ns sq\<rparr>)" by simp
    from leads_trans [OF 1 leads_step [OF this]] Inl show ?thesis
      by (intro exI [of _ "?w\<lparr>database := pool st', current := Applying e bed ns sq\<rparr>"])
         (simp add: same_place_def)
  next
    case (Inr a)
    with run' have "allocate_tx (mv_locked ?m) (mv_uuid ?m) (mv_now ?m) bed (database ?w) =
        (Inr a, pool st')"
      by (auto simp: exec_Inr)
    from broker_step.allocates [OF _ this, where X = X] w(1) obtain ps where
      "broker_step X ?w (?w\<lparr>database := pool st', current := Handled, passes := ps\<rparr>)" by auto
    from leads_trans [OF 1 leads_step [OF this]] Inr show ?thesis
      by (intro exI [of _ "?w\<lparr>database := pool st', current := Handled, passes := ps\<rparr>"])
         (simp add: same_place_def)
  qed
qed

subsection \<open>One attempt\<close>

lemma leads_allocate_and_notify:
  assumes fair: "fair_script UNIV s"
    and w: "current w = Allocating e bed ns sq" "database w = pool st"
    and run: "allocate_and_notify X s sh bed ns ev st = (x, st')"
  shows "\<exists>w'. leads X w (case x of Inl f \<Rightarrow> Applying e bed ns sq | Inr u \<Rightarrow> Handled) (pool st') w'"
  using run unfolding allocate_and_notify_def
proof (rule try_bind_cases)
  fix f assume "allocate_for_bed s bed st = (Inl f, st')" "x = Inl f"
  with leads_allocate [OF fair w, of "Inl f" st' X] show ?thesis by simp
next
  fix a st1 assume a: "allocate_for_bed s bed st = (Inr a, st1)"
    and k: "(case a of Some result \<Rightarrow>
           (Inr (), publish_bed_update X s (shelter_id result) (bed_id result) Reserved
                      (ev_occurred_at_ms ev) st1)
       | None \<Rightarrow> (case sh of
            Some shelter \<Rightarrow> (Inr (), publish_bed_update X s shelter bed ns (ev_occurred_at_ms ev) st1)
          | None \<Rightarrow> (Inr (), st1))) = (x, st')"
  from leads_allocate [OF fair w a, of X] obtain w1 where w1: "leads X w Handled (pool st1) w1" by auto
  have "by_program UNIV s st1 st'" and x: "x = Inr ()"
    using k publish_by_program [of UNIV s st1 X] by (auto simp: by_program_def split: option.splits)
  with fair leadsD(2) [OF w1] have "(db_step UNIV)\<^sup>*\<^sup>* (database w1) (pool st')"
    by (simp add: by_program_def)
  from leads_trans [OF w1, of "current w1"] leads_others [OF this, of X] leadsD(1) [OF w1] x
  show ?thesis by auto
qed

lemma leads_apply_and_notify:
  assumes fair: "fair_script UNIV s"
    and w: "current w = Applying e bed ns (ev_sequence ev)" "database w = pool st"
    and run: "apply_and_notify X s e bed ns ev st = (x, st')"
  shows "\<exists>w'. leads X w (case x of Inl f \<Rightarrow> Applying e bed ns (ev_sequence ev) | Inr u \<Rightarrow> Handled)
    (pool st') w'"
  using run unfolding apply_and_notify_def
proof (rule try_bind_cases)
  fix f assume "apply_bed_status_event s e bed ns (ev_sequence ev) st = (Inl f, st')" "x = Inl f"
  with leads_apply [OF fair w, of "Inl f" st' X] show ?thesis by simp
next
  fix out st1 assume a: "apply_bed_status_event s e bed ns (ev_sequence ev) st = (Inr out, st1)"
    and k: "(case out of
         UnknownBed \<Rightarrow> (Inr (), st1)
       | Duplicate \<Rightarrow> allocate_and_notify X s None bed ns ev st1
       | Stale \<Rightarrow> allocate_and_notify X s None bed ns ev st1
       | Applied shelter _ \<Rightarrow> allocate_and_notify X s (Some shelter) bed ns ev st1) = (x, st')"
  from leads_apply [OF fair w a, of X] obtain w1 where
    w1: "leads X w (after_apply out e bed ns (ev_sequence ev)) (pool st1) w1" by auto
  show ?thesis
  proof (cases "out = UnknownBed")
    case True
    with k w1 show ?thesis by (auto simp: after_apply_def)
  next
    case False
    then have "current w1 = Allocating e bed ns (ev_sequence ev)"
      using leadsD(1) [OF w1] by (cases out) (simp_all add: after_apply_def)
    moreover obtain sh where "allocate_and_notify X s sh bed ns ev st1 = (x, st')"
      using False k by (cases out) auto
    ultimately obtain w2 where
      "leads X w1 (case x of Inl f \<Rightarrow> Applying e bed ns (ev_sequence ev) | Inr u \<Rightarrow> Handled) (pool st') w2"
      using leads_allocate_and_notify [OF fair _ leadsD(2) [OF w1]] by blast
    from leads_trans [OF w1 this] show ?thesis by blast
  qed
qed

text \<open>The failed attempts of the retry loop, and its last one.\<close>

lemma leads_attempts:
  assumes fair: "fair_script UNIV s"
    and w: "current w = Applying e bed ns (ev_sequence ev)" "database w = pool st"
    and run: "(attempt X s e bed ns ev)\<^sup>*\<^sup>* st st'"
  shows "\<exists>w'. leads X w (Applying e bed ns (ev_sequence ev)) (pool st') w'"
  using run
proof (induction rule: rtranclp_induct)
  case base
  show ?case using leads_refl [OF w] by blast
next
  case (step st1 st2)
  then obtain w1 f where w1: "leads X w (Applying e bed ns (ev_sequence ev)) (pool st1) w1"
    and f: "apply_and_notify X s e bed ns ev st1 = (Inl f, st2)" by (auto simp: attempt_def)
  from leads_apply_and_notify [OF fair leadsD [OF w1] f] obtain w2 where
    "leads X w1 (Applying e bed ns (ev_sequence ev)) (pool st2) w2" by auto
  with leads_trans [OF w1] show ?case by blast
qed

lemma leads_retry:
  assumes fair: "fair_script UNIV s"
    and w: "current w = Applying e bed ns (ev_sequence ev)" "database w = pool st"
    and run: "retry X s e bed ns ev n pauses st = Some (Inr r, st')"
  shows "\<exists>w'. leads X w Handled (pool st') w'"
proof -
  obtain st1 u where a: "(attempt X s e bed ns ev)\<^sup>*\<^sup>* st st1"
    "apply_and_notify X s e bed ns ev st1 = (Inr u, st')"
    using retry_attempts [OF run] by auto
  obtain w1 where w1: "leads X w (Applying e bed ns (ev_sequence ev)) (pool st1) w1"
    using leads_attempts [OF fair w a(1)] by blast
  from leads_apply_and_notify [OF fair leadsD [OF w1] a(2)] obtain w2 where
    "leads X w1 Handled (pool st') w2" by auto
  with leads_trans [OF w1] show ?thesis by blast
qed

subsection \<open>One message, and the loop\<close>

definition after_message :: "partition \<Rightarrow> broker \<Rightarrow> broker \<Rightarrow> bool" where
  "after_message p w w' \<longleftrightarrow> topic_log w' = topic_log w \<and> current w' = Receiving \<and>
     next_offset w' = (next_offset w)(p := Suc (next_offset w p)) \<and>
     requested_offset w' = (requested_offset w)(p :=
       max (requested_offset w p) (Suc (next_offset w p)))"

lemma handle_message_run:
  assumes fair: "fair_script UNIV s" and w: "current w = Receiving" "database w = pool (app c)"
    and more: "next_offset w p < length (topic_log w p)" and msg: "topic_log w p ! next_offset w p = msg"
    and run: "handle_message X s ok msg c = Some (Inr c')"
  shows "\<exists>w'. (broker_step X)\<^sup>*\<^sup>* w w' \<and> after_message p w w' \<and> database w' = pool (app c')"
    and "committed c' = committed c @ filter ok [msg_offset msg]"
proof -
  show "committed c' = committed c @ filter ok [msg_offset msg]"
    using run by (auto simp: handle_message_eq split: option.splits sum.splits)
  let ?w = "w\<lparr>serving := p, current := received X msg\<rparr>"
  have step: "broker_step X w ?w" using broker_step.receives [OF w(1) more] msg by simp
  have 1: "leads X ?w (received X msg) (pool (app c)) ?w" by (rule leads_refl) (simp_all add: w(2))
  obtain w1 where w1: "leads X ?w Handled (pool (app c')) w1"
  proof (cases "message_event X msg")
    case None
    with run have "app c' = app c" by (auto simp: handle_message_eq)
    with None 1 that show thesis by (simp add: received_def)
  next
    case (Some m)
    obtain e bed ev where m: "m = (e, bed, ev)" by (cases m)
    obtain st r where r: "retry X s e bed (reported_status X ev) ev 0 [] (app c) = Some (Inr r, st)"
      "c' = commit ok msg st c"
      using run Some m by (auto simp: handle_message_eq reported_status_def split: option.splits sum.splits)
    have "current ?w = Applying e bed (reported_status X ev) (ev_sequence ev)"
      using Some m by (simp add: received_def)
    from leads_retry [OF fair this _ r(1)] w(2) obtain w1 where "leads X ?w Handled (pool st) w1" by auto
    then have "leads X ?w Handled (pool (app c')) w1" using r(2) by simp
    then show thesis by (rule that)
  qed
  let ?w2 = "w1\<lparr>current := Receiving,
      next_offset := (next_offset w1)(serving w1 := Suc (next_offset w1 (serving w1))),
      requested_offset := (requested_offset w1)(serving w1 :=
        max (requested_offset w1 (serving w1)) (Suc (next_offset w1 (serving w1))))\<rparr>"
  have "broker_step X w1 ?w2" by (rule broker_step.commits [OF leadsD(1) [OF w1]])
  moreover have "(broker_step X)\<^sup>*\<^sup>* ?w w1" using w1 by (simp add: leads_def)
  with step have "(broker_step X)\<^sup>*\<^sup>* w w1" by (rule converse_rtranclp_into_rtranclp)
  ultimately have "(broker_step X)\<^sup>*\<^sup>* w ?w2" by (rule rtranclp.rtrancl_into_rtrancl [rotated])
  then show "\<exists>w'. (broker_step X)\<^sup>*\<^sup>* w w' \<and> after_message p w w' \<and> database w' = pool (app c')"
    using w1 by (intro exI [of _ ?w2]) (simp add: leads_def same_place_def after_message_def)
qed

text \<open>
  What the loop receives, each message with the partition that it comes from: the messages of
  one partition are those of its log, in order.
\<close>

definition from_partition :: "partition \<Rightarrow> (partition \<times> kafka_message) list \<Rightarrow> kafka_message list" where
  "from_partition p tagged = map snd (filter (\<lambda>pm. fst pm = p) tagged)"

definition received_in_order :: "broker \<Rightarrow> (partition \<times> kafka_message) list \<Rightarrow> bool" where
  "received_in_order w tagged \<longleftrightarrow>
     (\<forall>p. \<exists>rest. drop (next_offset w p) (topic_log w p) = from_partition p tagged @ rest)"

lemma received_in_order_Cons:
  assumes order: "received_in_order w ((p, msg) # tagged)"
  shows "next_offset w p < length (topic_log w p)" and "topic_log w p ! next_offset w p = msg"
    and "topic_log w' = topic_log w \<Longrightarrow> next_offset w' = (next_offset w)(p := Suc (next_offset w p)) \<Longrightarrow>
      received_in_order w' tagged"
proof -
  obtain rest where p: "drop (next_offset w p) (topic_log w p) = msg # from_partition p tagged @ rest"
    using order unfolding received_in_order_def from_partition_def
    by (elim allE [of _ p]) auto
  show len: "next_offset w p < length (topic_log w p)"
    using p by (metis drop_all list.distinct(1) not_le_imp_less)
  show "topic_log w p ! next_offset w p = msg" using p Cons_nth_drop_Suc [OF len] by simp
  have "drop (Suc (next_offset w p)) (topic_log w p) = from_partition p tagged @ rest"
    using p Cons_nth_drop_Suc [OF len] by simp
  moreover have "\<exists>rest. drop (next_offset w q) (topic_log w q) = from_partition q tagged @ rest"
    if "q \<noteq> p" for q
    using order that unfolding received_in_order_def from_partition_def
    by (elim allE [of _ q]) auto
  ultimately show "received_in_order w' tagged"
    if "topic_log w' = topic_log w" "next_offset w' = (next_offset w)(p := Suc (next_offset w p))"
    using that unfolding received_in_order_def by auto
qed

text \<open>
  The offsets of a log are the places of its messages.  Committing a message asks for the offset
  after it, and the largest request counts.
\<close>

definition offsets_are_places :: "broker \<Rightarrow> bool" where
  "offsets_are_places w \<longleftrightarrow> (\<forall>p. \<forall>k<length (topic_log w p). msg_offset (topic_log w p ! k) = k)"

definition requested_after :: "nat \<Rightarrow> kafka_message list \<Rightarrow> nat" where
  "requested_after n msgs = fold max (map (\<lambda>msg. Suc (msg_offset msg)) msgs) n"

lemma requested_after_simps [simp]:
  "requested_after n [] = n"
  "requested_after n (msg # msgs) = requested_after (max (Suc (msg_offset msg)) n) msgs"
  by (simp_all add: requested_after_def)

lemma requested_after_Max:
  "requested_after n msgs = Max (insert n ((\<lambda>msg. Suc (msg_offset msg)) ` set msgs))"
proof (induction msgs arbitrary: n)
  case (Cons msg msgs)
  have "Max (insert (max a n) S) = Max (insert n (insert a S))" if "finite S" for a :: nat and S
    using that by (cases "S = {}") (simp_all add: ac_simps)
  with Cons show ?case by simp
qed simp

lemma requested_after_above: "msg \<in> set msgs \<Longrightarrow> msg_offset msg < requested_after n msgs"
  unfolding requested_after_Max Suc_le_eq [symmetric] by (intro Max_ge) auto

lemma after_message_requests:
  assumes "after_message p w w'" and "offsets_are_places w"
    and "next_offset w p < length (topic_log w p)" and "topic_log w p ! next_offset w p = msg"
  shows "requested_offset w' q = (if q = p then max (Suc (msg_offset msg)) (requested_offset w p)
      else requested_offset w q)" and "offsets_are_places w'"
proof -
  have "msg_offset msg = next_offset w p" using assms(2-4) by (auto simp: offsets_are_places_def)
  with assms(1) show "requested_offset w' q = (if q = p then max (Suc (msg_offset msg)) (requested_offset w p)
      else requested_offset w q)" by (simp add: after_message_def max.commute)
  show "offsets_are_places w'" using assms(1,2) by (simp add: after_message_def offsets_are_places_def)
qed

lemma run_consumer_run:
  assumes fair: "fair_script UNIV s" and "current w = Receiving" and "database w = pool (app c)"
    and "received_in_order w tagged" and "map snd tagged = messages rs"
    and "run_consumer X s ok rs c = Some (Inr c')" and "offsets_are_places w"
  shows "\<exists>w'. (broker_step X)\<^sup>*\<^sup>* w w' \<and> topic_log w' = topic_log w \<and> current w' = Receiving \<and>
    database w' = pool (app c') \<and>
    (\<forall>p. next_offset w' p = next_offset w p + length (from_partition p tagged) \<and>
      requested_offset w' p = requested_after (requested_offset w p) (from_partition p tagged)) \<and>
    committed c' = committed c @ filter ok (map (\<lambda>pm. msg_offset (snd pm)) tagged)"
  using assms(2-7)
proof (induction rs arbitrary: c w tagged rule: messages.induct)
  case 1
  then show ?case by (intro exI [of _ w]) (simp add: from_partition_def)
next
  case (2 u rs)
  then show ?case by simp
next
  case (3 msg rs)
  then obtain p rest where tagged: "tagged = (p, msg) # rest" "map snd rest = messages rs"
    by (cases tagged) auto
  note order = 3(4) [unfolded tagged(1)]
  note place = received_in_order_Cons(1,2) [OF order]
  from 3(6) obtain c1 where c1: "handle_message X s ok msg c = Some (Inr c1)"
    "run_consumer X s ok rs c1 = Some (Inr c')"
    by (auto split: option.splits sum.splits)
  from handle_message_run(1) [OF fair 3(2,3) place c1(1)] obtain w1 where
    w1: "(broker_step X)\<^sup>*\<^sup>* w w1" "after_message p w w1" "database w1 = pool (app c1)" by blast
  note a = w1(2) [unfolded after_message_def]
  have "received_in_order w1 rest" using received_in_order_Cons(3) [OF order] a by blast
  from 3(1) [OF _ w1(3) this tagged(2) c1(2) after_message_requests(2) [OF w1(2) 3(7) place]] a
  obtain w' where w': "(broker_step X)\<^sup>*\<^sup>* w1 w'"
    "topic_log w' = topic_log w1" "current w' = Receiving" "database w' = pool (app c')"
    "\<forall>q. next_offset w' q = next_offset w1 q + length (from_partition q rest) \<and>
      requested_offset w' q = requested_after (requested_offset w1 q) (from_partition q rest)"
    "committed c' = committed c1 @ filter ok (map (\<lambda>pm. msg_offset (snd pm)) rest)" by auto
  have "next_offset w' q = next_offset w q + length (from_partition q tagged) \<and>
      requested_offset w' q = requested_after (requested_offset w q) (from_partition q tagged)" for q
    using spec [OF w'(5), of q] a after_message_requests(1) [OF w1(2) 3(7) place, of q]
    by (simp add: tagged(1) from_partition_def)
  moreover have "topic_log w' = topic_log w" using a w'(2) by simp
  moreover have "committed c' = committed c @ filter ok (map (\<lambda>pm. msg_offset (snd pm)) tagged)"
    using w'(6) handle_message_run(2) [OF fair 3(2,3) place c1(1)] by (simp add: tagged(1))
  ultimately show ?case
    using rtranclp_trans [OF w1(1) w'(1)] w'(3,4) by blast
qed

end
