(* ===== verification/Broker_Properties.thy ===== *)
theory Broker_Properties
  imports Consumption Service_Properties
begin

section \<open>Properties of the event path under crashes\<close>

text \<open>
  No event is lost and no bed is stranded, whatever crashes, retries, redeliveries and lost
  offset commits there were: when the group's offset in a partition is past a message whose event
  is about a bed that existed at the start, the event is processed, and after it was processed an
  allocation pass over the bed came to its end, which left the bed unavailable or nobody waiting
  for it whose row was not locked.
\<close>

theorem offsets_never_pass_unsettled_events:
  assumes "booking_inv d" and "(broker_step X)\<^sup>*\<^sup>* (started topic d) w" and "k < group_offset w p"
    and "message_event X (topic_log w p ! k) = Some (e, bed, ev)" and "bed \<in> b_id ` set (beds d)"
  shows "processed (database w) e bed (ev_sequence ev) \<and>
    (\<exists>run\<in>set (passes w). pass_event run = e \<and> processed (pass_db run) e bed (ev_sequence ev) \<and>
       (\<forall>b\<in>set (beds (pass_db run)). b_id b = bed \<longrightarrow> b_status b = ''available'' \<longrightarrow>
          (\<forall>r. waiting (pass_db run) b r \<longrightarrow> pass_locked run (r_id r))))"
proof -
  have "broker_inv X (b_id ` set (beds d)) w"
    by (rule broker_steps_keep [OF assms(2) started_inv [OF assms(1)]]) simp
  then have "settled X (b_id ` set (beds d)) w (topic_log w p ! k)"
    using broker_invD(1,4) assms(3) by (blast intro: less_le_trans)
  with assms(4,5) show ?thesis unfolding settled_def swept_def by blast
qed

definition ex_topic :: "partition \<Rightarrow> kafka_message list" where
  "ex_topic p = (if p = 0 then [ex_message] else [])"

theorem offsets_never_pass_unsettled_events_witness:
  "\<exists>w. (broker_step ex_externals)\<^sup>*\<^sup>* (started ex_topic ex_won) w \<and> group_offset w 0 = 1 \<and>
     processed (database w) 12 1 1"
proof -
  let ?s = "started ex_topic ex_won"
  have start: "broker_inv ex_externals {} ?s" by (rule started_inv [OF ex_inv(2)]) simp
  have "8 \<notin> reservation_ids ?s" "current ?s = Receiving"
    "next_offset ?s 0 < length (topic_log ?s 0)"
    by (simp_all add: started_def ex_db_def reservation_ids_def ex_topic_def)
  from message_gets_handled [OF start this] obtain w where
    w: "(broker_step ex_externals)\<^sup>*\<^sup>* ?s w" "next_offset w 0 = 1" "topic_log w = ex_topic"
    by (auto simp: started_def)
  have "broker_inv ex_externals {} w" by (rule broker_steps_keep [OF w(1) start])
  then have "1 \<le> requested_offset w 0" using broker_invD(2) [of _ _ w 0] w(2) by simp
  then have "broker_step ex_externals w (w\<lparr>group_offset := (group_offset w)(0 := 1)\<rparr>)" (is "broker_step _ _ ?w")
    by (rule broker_step.offset_lands)
  with w(1) have s: "(broker_step ex_externals)\<^sup>*\<^sup>* ?s ?w" by (rule rtranclp.rtrancl_into_rtrancl)
  have msg: "message_event ex_externals (topic_log ?w 0 ! 0) = Some (12, 1, ex_event 3)"
    using w(3) ex_message_event by (simp add: ex_topic_def)
  have "processed (database ?w) 12 1 (ev_sequence (ex_event 3))"
    using offsets_never_pass_unsettled_events [OF ex_inv(2) s _ msg]
    by (simp add: ex_db_def ex_bed_def)
  with s show ?thesis by (intro exI [of _ ?w]) (simp add: ex_event_def)
qed

definition ex_first_message :: kafka_message where
  "ex_first_message = \<lparr>msg_payload = Some [1], msg_offset = 0\<rparr>"

definition ex_first_topic :: "partition \<Rightarrow> kafka_message list" where
  "ex_first_topic p = (if p = 0 then [ex_first_message] else [])"

text \<open>
  C15.  The loop of the code is a run of the model with the log and the offsets: whatever it
  receives, each partition in order, and whatever faults its database accesses meet and whatever
  else happens in the database, when the loop has come through what it received, the broker
  model can come to a state with the same database in which every received message is behind the
  consumer. The loop has committed exactly the offsets of the received messages, in the order of
  receipt, less those whose commit the client refused; the requests of the model are exactly the
  offsets after the received messages, or the older request where that is larger; and a
  committed offset is always that of a received message, which is below the request of its
  partition.
\<close>

theorem consumer_runs_are_broker_runs:
  assumes "fair_script UNIV s" and "current w = Receiving" and "database w = pool (app c)"
    and "received_in_order w tagged" and "map snd tagged = messages rs"
    and "run_consumer X s commit_ok rs c = Some (Inr c')"
    and "\<forall>p. \<forall>k<length (topic_log w p). msg_offset (topic_log w p ! k) = k"
  shows "\<exists>w'. (broker_step X)\<^sup>*\<^sup>* w w' \<and> topic_log w' = topic_log w \<and> current w' = Receiving \<and>
    database w' = pool (app c') \<and>
    committed c' = committed c @ filter commit_ok (map (\<lambda>(p, msg). msg_offset msg) tagged) \<and>
    (\<forall>p. next_offset w' p = next_offset w p + length (from_partition p tagged) \<and>
      requested_offset w' p = Max (insert (requested_offset w p)
        ((\<lambda>msg. Suc (msg_offset msg)) ` set (from_partition p tagged)))) \<and>
    (\<forall>(p, msg)\<in>set tagged. msg_offset msg < requested_offset w' p)"
proof -
  have "offsets_are_places w" using assms(7) by (simp add: offsets_are_places_def)
  from run_consumer_run [OF assms(1-6) this] obtain w' where
    w': "(broker_step X)\<^sup>*\<^sup>* w w'" "topic_log w' = topic_log w" "current w' = Receiving"
      "database w' = pool (app c')"
      "\<And>p. next_offset w' p = next_offset w p + length (from_partition p tagged)"
      "\<And>p. requested_offset w' p = requested_after (requested_offset w p) (from_partition p tagged)"
      "committed c' = committed c @ filter commit_ok (map (\<lambda>pm. msg_offset (snd pm)) tagged)" by blast
  have "msg_offset msg < requested_offset w' p" if "(p, msg) \<in> set tagged" for p msg
    using that unfolding w'(6) by (intro requested_after_above) (force simp: from_partition_def)
  with w' show ?thesis
    by (intro exI [of _ w']) (auto simp: requested_after_Max case_prod_unfold)
qed

theorem consumer_runs_are_broker_runs_witness:
  "\<exists>c' w'. run_consumer ex_externals ex_script (\<lambda>_. True) [Inl (), Inr ex_first_message] ex_consumer =
      Some (Inr c') \<and> (broker_step ex_externals)\<^sup>*\<^sup>* (started ex_first_topic ex_won) w' \<and>
      database w' = pool (app c') \<and> next_offset w' 0 = 1 \<and> requested_offset w' 0 = 1 \<and> committed c' = [0]"
proof -
  let ?s = "started ex_first_topic ex_won"
  have "\<exists>c'. run_consumer ex_externals ex_script (\<lambda>_. True) [Inl (), Inr ex_first_message] ex_consumer = Some (Inr c')"
    by (rule run_consumer_ends [OF ex_script_fair ex_script_ids, where N = 0])
       (simp_all add: ex_consumer_inv, simp add: ex_consumer_def)
  then obtain c' where r: "run_consumer ex_externals ex_script (\<lambda>_. True)
      [Inl (), Inr ex_first_message] ex_consumer = Some (Inr c')" by blast
  have start: "current ?s = Receiving" "database ?s = pool (app ex_consumer)"
    "received_in_order ?s [(0, ex_first_message)]"
    "map snd [(0, ex_first_message)] = messages [Inl (), Inr ex_first_message]"
    by (simp_all add: started_def ex_consumer_def ex_first_topic_def received_in_order_def from_partition_def)
  have "\<forall>p. \<forall>k<length (topic_log ?s p). msg_offset (topic_log ?s p ! k) = k"
    by (simp add: started_def ex_first_topic_def ex_first_message_def)
  from consumer_runs_are_broker_runs [OF ex_script_fair start r this] obtain w' where
    "(broker_step ex_externals)\<^sup>*\<^sup>* ?s w'" "database w' = pool (app c')" "committed c' = [0]"
    "next_offset w' 0 = 1" "requested_offset w' 0 = 1"
    by (auto simp: ex_consumer_def started_def from_partition_def ex_first_message_def)
  with r show ?thesis by blast
qed

lemma accepted_record:
  assumes "producer_ok send" and "submit_bed_status X send topic (Some ev) log = (Inr resp, log')"
  shows "last log' \<in> set log'" and "rec_payload (last log') = encode_event X ev"
proof -
  have "log' \<noteq> [] \<and> rec_payload (last log') = encode_event X ev"
    using assms(2)
  proof (cases rule: submit_bed_status_cases)
    case (sent event r)
    with assms(1) show ?thesis unfolding producer_ok_def by (cases r) fastforce+
  qed simp
  then show "last log' \<in> set log'" "rec_payload (last log') = encode_event X ev" by simp_all
qed

lemma accepted_message:
  assumes "decode_event X (encode_event X ev) = Some ev" and "producer_ok send"
    and "submit_bed_status X send topic (Some ev) log = (Inr resp, log')"
    and "parse_ids X ev = Some (e, bed)" and "msg_payload msg = Some (rec_payload (last log'))"
  shows "message_event X msg = Some (e, bed, ev)"
  using assms accepted_record(2) [OF assms(2,3)] by (simp add: message_event_def)

text \<open>
  What a terminal was told is accepted can always take effect: the record of an accepted event
  is in the topic, and from every state that crashes, faults and redeliveries lead to, in which
  it is in the log, the group can get past it, with the event processed and an allocation pass
  over its bed after that.
\<close>

theorem accepted_events_can_take_effect:
  assumes "decode_event X (encode_event X ev) = Some ev" and "producer_ok send"
    and "submit_bed_status X send topic (Some ev) log = (Inr resp, log')"
    and "parse_ids X ev = Some (e, bed)"
    and "booking_inv d" and "bed \<in> b_id ` set (beds d)"
    and "(broker_step X)\<^sup>*\<^sup>* (started msgs d) w"
    and "k < length (topic_log w p)" and "msg_payload (topic_log w p ! k) = Some (rec_payload (last log'))"
    and "card (v_id ` set (reservations (database w))) + length (topic_log w p) < 2 ^ 128"
  shows "\<exists>w'. (broker_step X)\<^sup>*\<^sup>* w w' \<and> k < group_offset w' p \<and>
    processed (database w') e bed (ev_sequence ev) \<and>
    (\<exists>run\<in>set (passes w'). pass_event run = e \<and> processed (pass_db run) e bed (ev_sequence ev))"
proof -
  have inv: "broker_inv X (b_id ` set (beds d)) w"
    by (rule broker_steps_keep [OF assms(7) started_inv [OF assms(5)]]) simp
  have "card (reservation_ids w) + length (topic_log w p) < 2 ^ 128"
    using assms(10) by (simp add: reservation_ids_def)
  from offset_passes [OF inv assms(8) this] obtain w' where
    w': "(broker_step X)\<^sup>*\<^sup>* w w'" "k < group_offset w' p"
      "settled X (b_id ` set (beds d)) w' (topic_log w p ! k)" by blast
  with accepted_message [OF assms(1-4,9)] assms(6) show ?thesis unfolding settled_def by blast
qed

theorem accepted_events_can_take_effect_witness:
  "\<exists>w. (broker_step ex_externals)\<^sup>*\<^sup>* (started ex_topic ex_won) w \<and> 0 < group_offset w 0 \<and>
     processed (database w) 12 1 1"
proof -
  let ?s = "started ex_topic ex_won"
  have "\<exists>w. (broker_step ex_externals)\<^sup>*\<^sup>* ?s w \<and> 0 < group_offset w 0 \<and>
     processed (database w) 12 1 (ev_sequence (ex_event 3)) \<and>
     (\<exists>run\<in>set (passes w). pass_event run = 12 \<and>
        processed (pass_db run) 12 1 (ev_sequence (ex_event 3)))"
  proof (rule accepted_events_can_take_effect [where send = ex_producer and log = "[]" and
        d = ex_won and msgs = ex_topic and k = 0])
    show "submit_bed_status ex_externals ex_producer ''bed-events'' (Some (ex_event 3)) [] =
      (Inr \<lparr>accepted = True, response_message = ''accepted''\<rparr>,
       [\<lparr>rec_topic = ''bed-events'', rec_key = ev_shelter_id (ex_event 3), rec_payload = [1]\<rparr>])"
      by (simp add: submit_bed_status_def ex_event_def ex_externals_def ex_producer_def)
    show "booking_inv ex_won" by (rule ex_inv(2))
  qed (simp_all add: started_def ex_topic_def ex_message_def ex_externals_def ex_event_def parse_ids_def
      producer_ok_def ex_producer_def ex_db_def ex_bed_def)
  then show ?thesis by (auto simp: ex_event_def)
qed

end
