(* ===== verification/Group_Properties.thy ===== *)
theory Group_Properties
  imports Group Report_Properties Broker_Properties
begin

section \<open>Properties of the event path with several engines\<close>

text \<open>
  C13.  No readable event about a known bed is lost, and its bed is not stranded, however many
  engines are in the group, and whatever crashes, rebalances, retries, redeliveries and lost
  offset commits there were. Take a message of a partition that the group's offset is past, that
  can be read (it decodes and its ids parse), and whose event is about a bed that existed at the
  start. The event is processed: its id is in the ledger, or its sequence number is not above
  the bed's. And with the event processed, an allocation pass over the bed came to its end,
  which left the bed unavailable or nobody waiting for it whose row was not locked. Messages
  that cannot be read, and events about unknown beds, are skipped by the code without a pass,
  and nothing is claimed about them.
\<close>

theorem offsets_of_a_group_never_pass_unsettled_events:
  assumes "booking_inv d" and "(group_step X)\<^sup>*\<^sup>* (group_started topic d) g"
    and "k < group_offset (g j) p" and "message_event X (topic_log (g j) p ! k) = Some (e, bed, ev)"
    and "bed \<in> b_id ` set (beds d)"
  shows "processed (database (g j)) e bed (ev_sequence ev) \<and>
    (\<exists>run\<in>set (passes (g j)). pass_event run = e \<and> processed (pass_db run) e bed (ev_sequence ev) \<and>
       (\<forall>b\<in>set (beds (pass_db run)). b_id b = bed \<longrightarrow> b_status b = ''available'' \<longrightarrow>
          (\<forall>r. waiting (pass_db run) b r \<longrightarrow> pass_locked run (r_id r))))"
proof -
  have "group_inv X (b_id ` set (beds d)) g"
    by (rule group_steps_keep [OF assms(2) group_started_inv [OF assms(1)]]) simp
  then have inv: "broker_inv X (b_id ` set (beds d)) (g j)" by (simp add: group_inv_def)
  then have "settled X (b_id ` set (beds d)) (g j) (topic_log (g j) p ! k)"
    using broker_invD(1,4) assms(3) by (blast intro: less_le_trans)
  with assms(4,5) show ?thesis unfolding settled_def swept_def by blast
qed

text \<open>Two engines: one handles a message and commits it, the other sees the offset.\<close>

lemma ex_group:
  "\<exists>g. (group_step ex_externals)\<^sup>*\<^sup>* (group_started ex_topic ex_won) g \<and> group_offset (g 1) 0 = 1 \<and>
     message_event ex_externals (topic_log (g 1) 0 ! 0) = Some (12, 1, ex_event 3)"
proof -
  let ?s = "started ex_topic ex_won"
  have start: "broker_inv ex_externals {} ?s" by (rule started_inv [OF ex_inv(2)]) simp
  have "8 \<notin> reservation_ids ?s" "current ?s = Receiving"
    "next_offset ?s 0 < length (topic_log ?s 0)"
    by (simp_all add: started_def ex_db_def reservation_ids_def ex_topic_def)
  from message_gets_handled [OF start this] obtain w where
    w: "(broker_step ex_externals)\<^sup>*\<^sup>* ?s w" "next_offset w 0 = 1" "topic_log w = ex_topic"
    by (auto simp: started_def)
  have "broker_inv ex_externals {} w" by (rule broker_steps_keep [OF w(1) start])
  then have "1 \<le> requested_offset w 0" using broker_invD(2) [of _ _ w 0] w(2) by simp
  then have "broker_step ex_externals w (w\<lparr>group_offset := (group_offset w)(0 := 1)\<rparr>)" (is "broker_step _ _ ?w")
    by (rule broker_step.offset_lands)
  with w(1) have s: "(broker_step ex_externals)\<^sup>*\<^sup>* ?s ?w" by (rule rtranclp.rtrancl_into_rtrancl)
  from one_engine_runs [OF s, of "group_started ex_topic ex_won" 0] obtain g where
    g: "(group_step ex_externals)\<^sup>*\<^sup>* (group_started ex_topic ex_won) g" "g 0 = ?w"
    by (auto simp: group_started_def)
  have "group_inv ex_externals {} g"
    by (rule group_steps_keep [OF g(1) group_started_inv [OF ex_inv(2)]]) simp
  then have "shared_state (g 1) = shared_state ?w" using g(2) by (metis group_inv_def views_agree_def)
  with g(1) w(3) ex_message_event show ?thesis
    by (intro exI [of _ g]) (simp add: shared_state_def ex_topic_def)
qed

theorem offsets_of_a_group_never_pass_unsettled_events_witness:
  "\<exists>g. (group_step ex_externals)\<^sup>*\<^sup>* (group_started ex_topic ex_won) g \<and> group_offset (g 1) 0 = 1 \<and>
     processed (database (g 1)) 12 1 1"
proof -
  obtain g where g: "(group_step ex_externals)\<^sup>*\<^sup>* (group_started ex_topic ex_won) g"
    "group_offset (g 1) 0 = 1" "message_event ex_externals (topic_log (g 1) 0 ! 0) = Some (12, 1, ex_event 3)"
    using ex_group by blast
  have "processed (database (g 1)) 12 1 (ev_sequence (ex_event 3))"
    using offsets_of_a_group_never_pass_unsettled_events [OF ex_inv(2) g(1) _ g(3)] g(2)
    by (simp add: ex_db_def ex_bed_def)
  with g(1,2) show ?thesis by (auto simp: ex_event_def)
qed

text \<open>
  C14.  What a terminal was told is accepted can always take effect, when its ids can be parsed
  and its bed existed at the start. If every record that was acknowledged to intake is a message
  of some partition, the record of the accepted event is in a partition of the topic, and from
  every state that several engines with crashes, rebalances, faults and redeliveries lead to, as
  long as there are fewer reservations and messages than identifiers, any engine of the group
  can get the group's offset past that message, with the event processed and an allocation pass
  over its bed after that.
\<close>

theorem a_group_can_process_accepted_events:
  assumes "decode_event X (encode_event X ev) = Some ev" and "producer_ok send"
    and "submit_bed_status X send topic (Some ev) log = (Inr resp, log')"
    and "parse_ids X ev = Some (e, bed)"
    and "booking_inv d" and "bed \<in> b_id ` set (beds d)"
    and "(group_step X)\<^sup>*\<^sup>* (group_started msgs d) g"
    and "\<forall>r\<in>set log'. \<exists>p. \<exists>msg\<in>set (topic_log (g j) p). msg_payload msg = Some (rec_payload r)"
    and "\<forall>p. card (v_id ` set (reservations (database (g j)))) + length (topic_log (g j) p) < 2 ^ 128"
  shows "\<exists>p k g'. k < length (topic_log (g j) p) \<and>
    message_event X (topic_log (g j) p ! k) = Some (e, bed, ev) \<and>
    (group_step X)\<^sup>*\<^sup>* g g' \<and> k < group_offset (g' j) p \<and>
    processed (database (g' j)) e bed (ev_sequence ev) \<and>
    (\<exists>run\<in>set (passes (g' j)). pass_event run = e \<and> processed (pass_db run) e bed (ev_sequence ev))"
proof -
  have "group_inv X (b_id ` set (beds d)) g"
    by (rule group_steps_keep [OF assms(7) group_started_inv [OF assms(5)]]) simp
  then have inv: "broker_inv X (b_id ` set (beds d)) (g j)" by (simp add: group_inv_def)
  obtain p msg where "msg \<in> set (topic_log (g j) p)" "msg_payload msg = Some (rec_payload (last log'))"
    using assms(8) accepted_record(1) [OF assms(2,3)] by blast
  then obtain k where k: "k < length (topic_log (g j) p)"
    "msg_payload (topic_log (g j) p ! k) = Some (rec_payload (last log'))" by (auto simp: in_set_conv_nth)
  note event = accepted_message [OF assms(1-4) k(2)]
  have "card (reservation_ids (g j)) + length (topic_log (g j) p) < 2 ^ 128"
    using assms(9) by (simp add: reservation_ids_def)
  from offset_passes [OF inv k(1) this] obtain w' where
    w': "(broker_step X)\<^sup>*\<^sup>* (g j) w'" "k < group_offset w' p"
      "settled X (b_id ` set (beds d)) w' (topic_log (g j) p ! k)" by blast
  obtain g' where g': "(group_step X)\<^sup>*\<^sup>* g g'" "g' j = w'" using one_engine_runs [OF w'(1)] by blast
  from w'(3) event assms(6) have "processed (database w') e bed (ev_sequence ev)"
    "\<exists>run\<in>set (passes w'). pass_event run = e \<and> processed (pass_db run) e bed (ev_sequence ev)"
    unfolding settled_def by blast+
  with k(1) event g' w'(2) show ?thesis
    by (intro exI [of _ p] exI [of _ k] exI [of _ g']) simp
qed

theorem a_group_can_process_accepted_events_witness:
  "\<exists>g. (group_step ex_externals)\<^sup>*\<^sup>* (group_started ex_topic ex_won) g \<and> 0 < group_offset (g 1) 0 \<and>
     processed (database (g 1)) 12 1 1"
proof -
  let ?s = "group_started ex_topic ex_won"
  have "\<exists>p k g. k < length (topic_log (?s 1) p) \<and>
     message_event ex_externals (topic_log (?s 1) p ! k) = Some (12, 1, ex_event 3) \<and>
     (group_step ex_externals)\<^sup>*\<^sup>* ?s g \<and> k < group_offset (g 1) p \<and>
     processed (database (g 1)) 12 1 (ev_sequence (ex_event 3)) \<and>
     (\<exists>run\<in>set (passes (g 1)). pass_event run = 12 \<and>
        processed (pass_db run) 12 1 (ev_sequence (ex_event 3)))"
  proof (rule a_group_can_process_accepted_events [where send = ex_producer and log = "[]" and
        d = ex_won and msgs = ex_topic])
    show "submit_bed_status ex_externals ex_producer ''bed-events'' (Some (ex_event 3)) [] =
      (Inr \<lparr>accepted = True, response_message = ''accepted''\<rparr>,
       [\<lparr>rec_topic = ''bed-events'', rec_key = ev_shelter_id (ex_event 3), rec_payload = [1]\<rparr>])"
      by (simp add: submit_bed_status_def ex_event_def ex_externals_def ex_producer_def)
    show "booking_inv ex_won" by (rule ex_inv(2))
    show "\<forall>r\<in>set [\<lparr>rec_topic = ''bed-events'', rec_key = ev_shelter_id (ex_event 3), rec_payload = [1]\<rparr>].
        \<exists>p. \<exists>msg\<in>set (topic_log (?s 1) p). msg_payload msg = Some (rec_payload r)"
      by (auto simp: group_started_def started_def ex_topic_def ex_message_def intro: exI [of _ 0])
    show "\<forall>p. card (v_id ` set (reservations (database (?s 1)))) + length (topic_log (?s 1) p) < 2 ^ 128"
      by (simp add: group_started_def started_def ex_topic_def ex_db_def)
  qed (simp_all add: ex_externals_def ex_event_def parse_ids_def producer_ok_def ex_producer_def
      ex_db_def ex_bed_def)
  then obtain p k g where g: "k < length (topic_log (?s 1) p)" "(group_step ex_externals)\<^sup>*\<^sup>* ?s g"
    "k < group_offset (g 1) p" "processed (database (g 1)) 12 1 (ev_sequence (ex_event 3))" by blast
  from g(1) have "p = 0" by (simp add: group_started_def started_def ex_topic_def split: if_splits)
  with g show ?thesis by (auto simp: ex_event_def)
qed



end
