(* ===== verification/Streaming.thy ===== *)
theory Streaming
  imports Session_Properties Intake "HOL-Library.Sublist"
begin

section \<open>From the broadcast channel to the subscriber\<close>

text \<open>
  The channel that \<open>run\<close> of the engine creates (crates/matching-engine/src/lib.rs) is code of
  tokio.  Its documented behaviour is the relation \<open>receives\<close>: a receiver gets the updates sent
  since it subscribed in order; when the channel has dropped some that it had not read yet, because
  more than the capacity were unread, it gets the number of those instead and goes on with the
  oldest one retained.
\<close>

definition AVAILABILITY_CHANNEL_CAPACITY :: nat where "AVAILABILITY_CHANNEL_CAPACITY = 1024"

inductive receives :: "nat \<Rightarrow> 'a list \<Rightarrow> (u64 + 'a) list \<Rightarrow> 'a list \<Rightarrow> bool" for capacity where
  stops: "receives capacity unread [] unread"
| update: "receives capacity unread items left \<Longrightarrow>
     receives capacity (u # unread) (Inr u # items) left"
| lagged: "missed \<noteq> [] \<Longrightarrow> length kept = capacity \<Longrightarrow>
     receives capacity (kept @ unread) items left \<Longrightarrow>
     receives capacity (missed @ kept @ unread) (Inl (of_nat (length missed)) # items) left"

definition heard :: "(u64 + 'a) list \<Rightarrow> 'a list" where
  "heard items = concat (map (\<lambda>item. case item of Inl lagged \<Rightarrow> [] | Inr u \<Rightarrow> [u]) items)"

definition reported_missing :: "(u64 + 'a) list \<Rightarrow> u64" where
  "reported_missing items = sum_list (map (\<lambda>item. case item of Inl n \<Rightarrow> n | Inr u \<Rightarrow> 0) items)"

lemma heard_simps [simp]:
  "heard [] = []" "heard (Inl n # items) = heard items" "heard (Inr u # items) = u # heard items"
  by (simp_all add: heard_def)

lemma reported_missing_simps [simp]:
  "reported_missing [] = 0" "reported_missing (Inl n # items) = n + reported_missing items"
  "reported_missing (Inr u # items) = reported_missing items"
  by (simp_all add: reported_missing_def)

subsection \<open>What a receiver gets\<close>

lemma receives_heard:
  "receives capacity sent items left \<Longrightarrow> \<exists>got. sent = got @ left \<and> subseq (heard items) got \<and>
     of_nat (length got) = of_nat (length (heard items)) + reported_missing items"
proof (induction rule: receives.induct)
  case (stops unread)
  show ?case by simp
next
  case (update unread items left u)
  then obtain got where "unread = got @ left" "subseq (heard items) got"
    "of_nat (length got) = of_nat (length (heard items)) + reported_missing items" by blast
  then show ?case by (intro exI [of _ "u # got"]) simp
next
  case (lagged missed kept unread items left)
  then obtain got where "kept @ unread = got @ left" "subseq (heard items) got"
    "of_nat (length got) = of_nat (length (heard items)) + reported_missing items" by blast
  then show ?case by (intro exI [of _ "missed @ got"]) (simp add: list_emb_append2)
qed

text \<open>As long as no more than the capacity are sent, nothing is missed.\<close>

lemma receives_all:
  "receives capacity sent items left \<Longrightarrow> length sent \<le> capacity \<Longrightarrow>
     sent = heard items @ left \<and> (\<forall>item\<in>set items. \<not> isl item)"
  by (induction rule: receives.induct) auto

text \<open>
  An update that fewer than the capacity have followed is never missed: whatever the receiver was
  told it had lost, it goes on with the newest ones.
\<close>

lemma receives_newest:
  "receives capacity sent items left \<Longrightarrow>
     \<exists>got early. sent = got @ left \<and> heard items = early @ drop (length sent - capacity) got"
proof (induction rule: receives.induct)
  case (stops unread)
  show ?case by simp
next
  case (update unread items left u)
  then obtain got early where got: "unread = got @ left"
    "heard items = early @ drop (length unread - capacity) got" by blast
  show ?case
  proof (cases "Suc (length unread) \<le> capacity")
    case True
    then have "length (u # unread) \<le> capacity" by simp
    from receives_all [OF receives.update [OF update.hyps] this] got(1)
    have "heard (Inr u # items) = u # got" by simp
    with True got(1) show ?thesis by (intro exI [of _ "u # got"] exI [of _ "[]"]) simp
  next
    case False
    then have "length (u # unread) - capacity = Suc (length unread - capacity)" by simp
    with got show ?thesis by (intro exI [of _ "u # got"] exI [of _ "u # early"]) simp
  qed
next
  case (lagged missed kept unread items left)
  then obtain got early where got: "kept @ unread = got @ left"
    "heard items = early @ drop (length (kept @ unread) - capacity) got" by blast
  have "length (missed @ kept @ unread) - capacity = length missed + (length (kept @ unread) - capacity)"
    using lagged.hyps(2) by simp
  with got show ?case by (intro exI [of _ "missed @ got"] exI [of _ early]) simp
qed

lemma subseq_shuffles: "zs \<in> shuffles xs ys \<Longrightarrow> subseq xs zs"
  by (induction xs ys arbitrary: zs rule: shuffles.induct) (auto elim: shufflesE)

text \<open>The engine's filter over what is received.\<close>

definition passes :: "string \<Rightarrow> BedAvailabilityUpdate \<Rightarrow> bool" where
  "passes region_filter u \<longleftrightarrow> region_filter = [] \<or> up_region u = region_filter"

lemma stream_heard: "stream_availability region_filter items =
    map Inr (filter (passes region_filter) (heard items))"
  unfolding stream_carries_the_region heard_def passes_def ..

subsection \<open>Properties\<close>

text \<open>
  C19.  A subscriber's stream is a faithful excerpt of what was sent since it subscribed: it
  carries no error, only updates of the region it asked for (or of all regions), in the order of
  sending, none twice and none invented. An update that was read, and that fewer than the
  capacity of the channel have followed, is never missing, however far the subscriber has lagged
  behind before: the stream goes on after updates were lost. When it names no region, the number
  of the lost ones is, modulo \<open>2 ^ 64\<close>, what the receiver was told, and while no
  more than the capacity are sent there are none.
\<close>

theorem subscriber_stream_is_faithful:
  assumes "receives AVAILABILITY_CHANNEL_CAPACITY sent items left"
  shows "\<exists>got seen early. sent = got @ left \<and> stream_availability region_filter items = map Inr seen \<and>
    subseq seen (filter (\<lambda>u. region_filter = [] \<or> up_region u = region_filter) got) \<and>
    seen = early @ filter (\<lambda>u. region_filter = [] \<or> up_region u = region_filter)
      (drop (length sent - 1024) got) \<and>
    (region_filter = [] \<longrightarrow> of_nat (length got) = of_nat (length seen) + reported_missing items) \<and>
    (length sent \<le> 1024 \<longrightarrow>
       seen = filter (\<lambda>u. region_filter = [] \<or> up_region u = region_filter) got)"
proof -
  let ?p = "\<lambda>u. region_filter = [] \<or> up_region u = region_filter"
  have p: "passes region_filter = ?p" by (simp add: passes_def fun_eq_iff)
  obtain got where got: "sent = got @ left" "subseq (heard items) got"
    "of_nat (length got) = of_nat (length (heard items)) + reported_missing items"
    using receives_heard [OF assms] by blast
  obtain early where early: "heard items = early @ drop (length sent - 1024) got"
    using receives_newest [OF assms] got(1) by (auto simp: AVAILABILITY_CHANNEL_CAPACITY_def)
  have "subseq (filter ?p (heard items)) (filter ?p got)" by (rule subseq_filter [OF got(2)])
  moreover have "heard items = got" if "length sent \<le> 1024"
    using receives_all [OF assms] that got(1) by (simp add: AVAILABILITY_CHANNEL_CAPACITY_def)
  moreover have "filter ?p (heard items) = filter ?p early @ filter ?p (drop (length sent - 1024) got)"
    by (simp add: early)
  ultimately show ?thesis
    unfolding stream_heard p using got(1,3)
    by (intro exI [of _ got] exI [of _ "filter ?p (heard items)"] exI [of _ "filter ?p early"]) simp
qed

definition ex_update :: "string \<Rightarrow> BedAvailabilityUpdate" where
  "ex_update region = \<lparr>up_shelter_id = ''s'', up_bed_id = ''b'', up_status = 1,
     up_available_count_in_region = 1, up_event_timestamp_ms = 0, up_delivered_timestamp_ms = 0,
     up_region = region\<rparr>"

lemma ex_receives:
  "receives AVAILABILITY_CHANNEL_CAPACITY [ex_update ''north'', ex_update ''south'']
     [Inr (ex_update ''north'')] [ex_update ''south'']"
  by (rule receives.update [OF receives.stops])

theorem subscriber_stream_is_faithful_witness:
  "stream_availability ''south'' [Inr (ex_update ''north'')] = [] \<and>
   stream_availability ''north'' [Inr (ex_update ''north'')] = [Inr (ex_update ''north'')]"
  using subscriber_stream_is_faithful [OF ex_receives, of "''south''"]
    subscriber_stream_is_faithful [OF ex_receives, of "''north''"]
  by (auto simp: ex_update_def)

text \<open>
  C18.  A caseworker whose subscription through the gateway was open before a call, for the
  region of the request or for all, learns of every allocation the call caused, whatever other
  sessions do to the database and whatever other tasks send on the channel meanwhile, provided
  that the call met no fault, that the subscriber has read everything sent since it subscribed,
  and that this was no more than the 1024 updates the channel holds. The stream contains, in
  order and perhaps between other updates, an update for each of the allocations, with its bed,
  its shelter, the region of the request and the status reserved. A subscriber that falls
  further behind may miss some: see C19.
\<close>

theorem subscribers_learn_of_every_allocation:
  assumes fair: "fair_script UNIV s" and inv: "booking_inv (pool st)"
    and ok: "\<forall>k. pos st \<le> k \<longrightarrow> mv_fault (s k) = None"
    and run: "match_referral X s req st = (Inr resp, st')"
    and sent: "sent = unread @ drop (length (availability_tx st)) (availability_tx st') @ later"
    and channel: "receives AVAILABILITY_CHANNEL_CAPACITY sent items []" "length sent \<le> 1024"
    and region: "region = [] \<or> region = rq_region req"
    and client: "client_stream_availability client region w = (Inr (stream_availability region items), w')"
  shows "\<exists>criteria out side st1 stream seen. rq_criteria req = Some criteria \<and>
    submit_referral s (rq_caseworker_id req) (rq_region req) (needs_of_criteria X criteria)
      (c_vulnerability_score criteria) (c_family_size criteria) st = (Inr (out, side), st1) \<and>
    gateway_stream_availability client region w = (Inr (map Inr stream), w') \<and> subseq seen stream \<and>
    list_all2 (\<lambda>a u. up_bed_id u = show_uuid X (bed_id a) \<and>
        up_shelter_id u = show_uuid X (shelter_id a) \<and> up_region u = rq_region req \<and>
        up_status u = proto_BedStatus_as_i32 Proto_RESERVED)
      (side @ (case out of Matched a \<Rightarrow> [a] | Pending _ \<Rightarrow> [])) seen"
proof -
  obtain criteria out side st1 updates new where c: "rq_criteria req = Some criteria"
    "submit_referral s (rq_caseworker_id req) (rq_region req) (needs_of_criteria X criteria)
      (c_vulnerability_score criteria) (c_family_size criteria) st = (Inr (out, side), st1)"
    and tx: "availability_tx st' = availability_tx st @ new" "pos st \<le> pos st'"
      "new \<in> shuffles updates (sent_by_others s (pos st) (pos st'))"
    and u: "list_all2 (\<lambda>a. update_of X a (rq_region req) Reserved) (to_publish out side) updates"
    by (rule match_referral_publishes [OF fair inv ok run])
  have "heard items = unread @ new @ later"
    using receives_all [OF channel(1)] channel(2) sent tx(1)
    by (simp add: AVAILABILITY_CHANNEL_CAPACITY_def)
  then have stream: "gateway_stream_availability client region w =
      (Inr (map Inr (filter (passes region) (unread @ new @ later))), w')"
    using client by (simp add: gateway_stream_availability_def stream_heard)
  have "filter (passes region) updates = updates"
    using u region by (auto simp: filter_id_conv passes_def update_of_def list_all2_conv_all_nth in_set_conv_nth)
  then have "subseq updates (filter (passes region) new)"
    using subseq_filter [OF subseq_shuffles [OF tx(3)], of "passes region"] by simp
  then have "subseq updates (filter (passes region) (unread @ new @ later))"
    by (simp add: list_emb_append2 list_emb_prefix)
  moreover have "list_all2 (\<lambda>a u. up_bed_id u = show_uuid X (bed_id a) \<and>
        up_shelter_id u = show_uuid X (shelter_id a) \<and> up_region u = rq_region req \<and>
        up_status u = proto_BedStatus_as_i32 Proto_RESERVED)
      (side @ (case out of Matched a \<Rightarrow> [a] | Pending _ \<Rightarrow> [])) updates"
    using u unfolding to_publish_def by (rule list_all2_mono) (simp add: update_of_def)
  ultimately show ?thesis using c stream by (intro exI conjI)
qed

lemma receives_in_order: "receives capacity us (map Inr us) []"
  by (induction us) (auto intro: receives.intros)

definition ex_client :: "(u64 + BedAvailabilityUpdate) list \<Rightarrow> unit matching_client" where
  "ex_client items = \<lparr>client_match_referral = (\<lambda>_ w. (Inl (Internal_status []), w)),
     client_stream_availability = (\<lambda>region w. (Inr (stream_availability region items), w))\<rparr>"

theorem subscribers_learn_of_every_allocation_witness:
  "\<exists>items seen. gateway_stream_availability (ex_client items) ''north'' () = (Inr (map Inr seen), ()) \<and>
    show_uuid ex_externals 1 \<in> set (map up_bed_id seen)"
proof -
  obtain st' st1 where r: "match_referral ex_externals ex_script ex_request (ex_state ex_free) =
     (Inr (response_of ex_externals (Matched \<lparr>bed_id = 1, shelter_id = 1, referral_id = 100\<rparr>)), st')"
    and sub: "submit_referral ex_script ''cw'' ''north'' ex_needs 50 1 (ex_state ex_free) =
     (Inr (Matched \<lparr>bed_id = 1, shelter_id = 1, referral_id = 100\<rparr>, []), st1)"
    using ex_match_matched by blast
  have inv: "booking_inv (pool (ex_state ex_free))" using ex_inv(7) by simp
  have ok: "\<forall>k. pos (ex_state ex_free) \<le> k \<longrightarrow> mv_fault (ex_script k) = None" by simp
  let ?sent = "availability_tx st'"
  have "length ?sent = 1"
    by (rule match_referral_publishes [OF ex_script_fair inv ok r])
       (use sub ex_criteria in \<open>auto simp: ex_request_def to_publish_def dest!: list_all2_lengthD length_shuffles\<close>)
  then have len: "length ?sent \<le> 1024" by simp
  let ?items = "map Inr ?sent :: (u64 + BedAvailabilityUpdate) list"
  have sent: "?sent = [] @ drop (length (availability_tx (ex_state ex_free))) ?sent @ []" by simp
  have client: "client_stream_availability (ex_client ?items) ''north'' () =
      (Inr (stream_availability ''north'' ?items), ())" by (simp add: ex_client_def)
  have region: "''north'' = [] \<or> ''north'' = rq_region ex_request" by (simp add: ex_request_def)
  from subscribers_learn_of_every_allocation [OF ex_script_fair inv ok r sent receives_in_order len
      region client] sub ex_criteria
  obtain stream z where "gateway_stream_availability (ex_client ?items) ''north'' () =
      (Inr (map Inr stream), ())" "subseq [z] stream" "up_bed_id z = show_uuid ex_externals 1"
    by (auto simp: ex_request_def list_all2_Cons1)
  then show ?thesis
    by (intro exI [of _ ?items] exI [of _ stream]) (auto simp: subseq_singleton_left intro: rev_image_eqI)
qed

end
