(* ===== verification/Contention.thy ===== *)
theory Contention
  imports Publication
begin

section \<open>Submissions that compete for beds\<close>

text \<open>
  Many submissions run at once while no bed becomes free: the other sessions only insert referrals,
  award beds and add shelters.  Then beds only get fewer, so the search of a submission comes to a
  point where no free bed is left that its own referral waits for, and it stays so.
\<close>

definition taking_step :: "db \<Rightarrow> db \<Rightarrow> bool" where
  "taking_step d d' \<longleftrightarrow> db_step {} d d' \<and> b_id ` set (beds d') \<subseteq> b_id ` set (beds d)"

definition only_taking :: "script \<Rightarrow> bool" where
  "only_taking s \<longleftrightarrow> (\<forall>k d. taking_step\<^sup>*\<^sup>* d (mv_interfere (s k) d))"

lemma alone_only_taking: "alone s \<Longrightarrow> only_taking s"
  by (simp add: alone_def only_taking_def)

lemma taking_steps_program: "taking_step\<^sup>*\<^sup>* d d' \<Longrightarrow> (db_step {})\<^sup>*\<^sup>* d d'"
  by (erule rtranclp_mono [THEN predicate2D, rotated]) (auto simp: taking_step_def)

lemma only_taking_fair: "only_taking s \<Longrightarrow> fair_script {} s"
  unfolding only_taking_def fair_script_def using taking_steps_program by blast

lemma db_step_more: "db_step A d d' \<Longrightarrow> A \<subseteq> B \<Longrightarrow> db_step B d d'"
  by (induction rule: db_step.induct) (auto intro: db_step.intros)

lemma taking_steps_booking_inv: "taking_step\<^sup>*\<^sup>* d d' \<Longrightarrow> booking_inv d \<Longrightarrow> booking_inv d'"
  using taking_steps_program db_steps_booking_inv by blast

text \<open>The case analysis of such a step, over the tables.\<close>

lemma taking_step_cases:
  assumes "taking_step d d'"
  obtains (referral) r where "insert_referral_row r d = Inr d'" "r_status r = ''pending''"
  | (award) v b r where "b \<in> set (beds d)" "b_id b = v_bed_id v" "b_status b = ''available''"
      "r_id r = v_referral_id v" "schema_ok d \<Longrightarrow> waiting d b r" "v_status v = ''active''" "d' = award v d"
  | (shelter) sr where "insert_shelter_row sr d = Inr d'"
  | (reorder) "reordered d d'"
proof -
  have "db_step {} d d'" and ids: "b_id ` set (beds d') \<subseteq> b_id ` set (beds d)"
    using assms by (simp_all add: taking_step_def)
  then show thesis
  proof cases
    case (referral i caseworker region needs vulnerability family now)
    then show thesis by (rule insert_referral_Inr_row) (rule that(1))
  next
    case (allocation locked i now bed a)
    from allocation show thesis
    proof (cases rule: allocate_tx_cases)
      case (won b s u r)
      have w: "schema_ok d \<Longrightarrow> waiting d b r" using choose_waiting(1) [OF _ won(4-6)] won(7) by blast
      show thesis
        by (rule that(2) [of b "new_reservation i bed (r_id r) now" r, OF won(1) _ won(3) _ w])
           (simp_all add: new_reservation_def won)
    qed simp_all
  next
    case (bed b)
    with ids have False by (auto simp: insert_bed_row_def split: if_splits)
    then show thesis ..
  qed (use that in auto)
qed

subsection \<open>Free beds\<close>

definition free_beds :: "db \<Rightarrow> uuid set" where
  "free_beds d = b_id ` {b \<in> set (beds d). b_status b = ''available''}"

lemma finite_free_beds [simp]: "finite (free_beds d)"
  by (simp add: free_beds_def)

lemma card_free_beds: "card (free_beds d) \<le> length (beds d)"
proof -
  have "card (free_beds d) \<le> card (b_id ` set (beds d))"
    by (rule card_mono) (auto simp: free_beds_def)
  also have "\<dots> \<le> card (set (beds d))" by (rule card_image_le) simp
  also have "\<dots> \<le> length (beds d)" by (rule card_length)
  finally show ?thesis .
qed

lemma in_free_beds:
  "i \<in> free_beds d \<longleftrightarrow> (\<exists>b\<in>set (beds d). b_id b = i \<and> b_status b = ''available'')"
  by (auto simp: free_beds_def)

lemma award_free_beds: "free_beds (award v d) = free_beds d - {v_bed_id v}"
proof (rule set_eqI)
  fix i
  have "i \<in> free_beds (award v d) \<longleftrightarrow>
      (\<exists>b\<in>set (beds d). b_id b \<noteq> v_bed_id v \<and> b_id b = i \<and> b_status b = ''available'')"
    by (fastforce simp: in_free_beds award_tables in_update_where)
  then show "i \<in> free_beds (award v d) \<longleftrightarrow> i \<in> free_beds d - {v_bed_id v}"
    by (auto simp: in_free_beds)
qed

lemma taking_step_free: "taking_step d d' \<Longrightarrow> free_beds d' \<subseteq> free_beds d"
proof (erule taking_step_cases)
  fix r assume "insert_referral_row r d = Inr d'"
  then show ?thesis using insert_referral_Inr by (fastforce simp: free_beds_def)
next
  fix v assume "d' = award v d"
  then show ?thesis by (auto simp: award_free_beds)
next
  fix sr assume "insert_shelter_row sr d = Inr d'"
  then show ?thesis by (auto simp: free_beds_def insert_shelter_row_def split: if_splits)
next
  assume "reordered d d'"
  then show ?thesis by (simp add: free_beds_def reordered_sets)
qed

lemma taking_steps_free: "taking_step\<^sup>*\<^sup>* d d' \<Longrightarrow> free_beds d' \<subseteq> free_beds d"
  by (induction rule: rtranclp_induct) (auto dest: taking_step_free)

subsection \<open>No free bed for a referral\<close>

definition served_out :: "db \<Rightarrow> uuid \<Rightarrow> bool" where
  "served_out d i \<longleftrightarrow> (\<forall>b\<in>set (beds d). b_status b = ''available'' \<longrightarrow>
     (\<forall>r. waiting d b r \<longrightarrow> r_id r \<noteq> i))"

lemma taking_step_served_out:
  assumes inv: "booking_inv d" and step: "taking_step d d'" and i: "i \<in> r_id ` set (referrals d)"
    and out: "served_out d i"
  shows "served_out d' i"
  using step
proof (cases rule: taking_step_cases)
  case (referral r)
  note d' = insert_referral_Inr [OF referral(1)]
  have "r_id r \<noteq> i" using referral(1) i by (auto simp: insert_referral_row_def split: if_splits)
  with out d' show ?thesis by (auto simp: served_out_def waiting_def)
next
  case (award v b r)
  with out award_waiting show ?thesis unfolding served_out_def by blast
next
  case (shelter sr)
  have d': "d' = d\<lparr>shelters := shelters d @ [sr]\<rparr>" and fresh: "s_id sr \<notin> s_id ` set (shelters d)"
    using shelter by (auto simp: insert_shelter_row_def split: if_splits)
  have "waiting d b r" if "b \<in> set (beds d)" "waiting d' b r" for b r
  proof -
    have "s_id sr \<noteq> b_shelter_id b"
      using schema_ok_bed [OF booking_inv_parts(1) [OF inv] that(1)] fresh by (metis imageI)
    with that(2) show ?thesis by (auto simp: waiting_def d')
  qed
  with out d' show ?thesis by (auto simp: served_out_def)
next
  case reorder
  with out show ?thesis by (simp add: served_out_def waiting_def reordered_sets)
qed

lemma taking_step_referrals:
  "taking_step d d' \<Longrightarrow> r_id ` set (referrals d) \<subseteq> r_id ` set (referrals d')"
proof -
  assume "taking_step d d'"
  then have "extends d d'" unfolding taking_step_def by (blast intro: db_step_extends)
  then have "referral_static ` set (referrals d) \<subseteq> referral_static ` set (referrals d')"
    by (simp only: extends_def)
  then have "r_id ` referral_static ` set (referrals d) \<subseteq> r_id ` referral_static ` set (referrals d')"
    by (rule image_mono)
  then show ?thesis by (simp add: image_image referral_static_def)
qed

lemma taking_steps_served_out:
  assumes "taking_step\<^sup>*\<^sup>* d d'" and "booking_inv d" and "i \<in> r_id ` set (referrals d)"
    and "served_out d i"
  shows "served_out d' i"
proof -
  have "booking_inv d' \<and> i \<in> r_id ` set (referrals d') \<and> served_out d' i"
    using assms(1)
  proof (induction rule: rtranclp_induct)
    case base
    with assms show ?case by simp
  next
    case (step d1 d2)
    with taking_steps_booking_inv [of d1 d2] taking_step_served_out taking_step_referrals show ?case
      by blast
  qed
  then show ?thesis by blast
qed

text \<open>A referral that is no longer pending waits for nothing.\<close>

lemma not_pending_served_out:
  assumes ok: "schema_ok d" and r: "r \<in> set (referrals d)" "r_id r = i" "r_status r \<noteq> ''pending''"
  shows "served_out d i"
  unfolding served_out_def
proof (intro ballI impI allI notI)
  fix b q assume "waiting d b q" "r_id q = i"
  then have "q \<in> set (referrals d)" "r_status q = ''pending''" by (simp_all add: waiting_def)
  with distinct_key_eq [OF schema_ok_keys(3) [OF ok], of q r] \<open>r_id q = i\<close> r show False by simp
qed

lemma holds_served_out:
  assumes inv: "booking_inv d" and holds: "holds d a"
  shows "served_out d (referral_id a)"
proof -
  obtain v where v: "v \<in> set (reservations d)" "is_live v" "v_referral_id v = referral_id a"
    using holds by (auto simp: holds_def)
  have "booking_suits d v" using inv v(1) by (simp add: booking_inv_def)
  then obtain r where r: "r \<in> set (referrals d)" "r_id r = v_referral_id v"
    unfolding booking_suits_def by blast
  have "r_status r = ''matched''" by (rule live_matched [OF inv r(1) v(1,2) r(2)])
  with not_pending_served_out [OF booking_inv_parts(1) [OF inv] r(1)] r(2) v(3) show ?thesis by simp
qed

text \<open>
  While beds are only taken, a referral is pending or matched, and one that nothing is left for
  stays as it is.
\<close>

definition in_line :: "db \<Rightarrow> uuid \<Rightarrow> bool" where
  "in_line d i \<longleftrightarrow> (\<exists>r\<in>set (referrals d). r_id r = i \<and> r_status r \<in> {''pending'', ''matched''})"

lemma taking_step_in_line:
  assumes "taking_step d d'" and "in_line d i"
  shows "in_line d' i"
  using assms(1)
proof (cases rule: taking_step_cases)
  case (referral r)
  with assms(2) insert_referral_Inr [OF referral(1)] show ?thesis by (auto simp: in_line_def)
next
  case (award v b r)
  obtain q where q: "q \<in> set (referrals d)" "r_id q = i" "r_status q \<in> {''pending'', ''matched''}"
    using assms(2) by (auto simp: in_line_def)
  let ?q = "if r_id q = v_referral_id v then q\<lparr>r_status := ''matched''\<rparr> else q"
  have "?q \<in> set (referrals d')" using q(1) award by (auto simp: award_tables in_update_where)
  moreover have "r_id ?q = i" "r_status ?q \<in> {''pending'', ''matched''}" using q by simp_all
  ultimately show ?thesis unfolding in_line_def by blast
next
  case (shelter sr)
  with assms(2) show ?thesis by (auto simp: in_line_def insert_shelter_row_def split: if_splits)
next
  case reorder
  with assms(2) show ?thesis by (simp add: in_line_def reordered_sets)
qed

lemma taking_steps_in_line: "taking_step\<^sup>*\<^sup>* d d' \<Longrightarrow> in_line d i \<Longrightarrow> in_line d' i"
  by (induction rule: rtranclp_induct) (blast intro: taking_step_in_line)+

lemma taking_step_unmatched:
  assumes ok: "schema_ok d" and "taking_step d d'" and out: "served_out d i" and "unmatched d i"
  shows "unmatched d' i"
  using assms(2)
proof (cases rule: taking_step_cases)
  case (referral r)
  with assms(4) insert_referral_Inr [OF referral(1)] show ?thesis by (simp add: unmatched_def)
next
  case (award v b r)
  with out ok have "v_referral_id v \<noteq> i" unfolding served_out_def by metis
  with award assms(4) show ?thesis by (auto simp: unmatched_def award_tables)
next
  case (shelter sr)
  with assms(4) show ?thesis by (auto simp: unmatched_def insert_shelter_row_def split: if_splits)
next
  case reorder
  with assms(4) show ?thesis by (simp add: unmatched_def reordered_sets)
qed

lemma taking_step_holds:
  assumes "taking_step d d'" and "holds d a"
  shows "holds d' a"
  using assms(1)
proof (cases rule: taking_step_cases)
  case (referral r)
  with assms(2) insert_referral_Inr [OF referral(1)] show ?thesis by (simp add: holds_def)
next
  case (award v b r)
  obtain c where c: "c \<in> set (beds d)" "b_id c = bed_id a" "b_shelter_id c = shelter_id a"
    using assms(2) by (auto simp: holds_def)
  have "extends d d'" using assms(1) unfolding taking_step_def by (blast intro: db_step_extends)
  then obtain c' where "c' \<in> set (beds d')" "bed_static c' = bed_static c" using extendsD(1) c(1) by blast
  with c have "\<exists>c\<in>set (beds d'). b_id c = bed_id a \<and> b_shelter_id c = shelter_id a"
    by (auto simp: bed_static_eq)
  with award assms(2) show ?thesis by (auto simp: holds_def award_tables)
next
  case (shelter sr)
  with assms(2) show ?thesis by (auto simp: holds_def insert_shelter_row_def split: if_splits)
next
  case reorder
  with assms(2) show ?thesis by (simp add: holds_def reordered_sets)
qed

lemma taking_steps_settle:
  assumes "taking_step\<^sup>*\<^sup>* d d'" and "booking_inv d" and "i \<in> r_id ` set (referrals d)"
    and "served_out d i" and "outcome_true d i out"
  shows "outcome_true d' i out"
  using assms(1)
proof (induction rule: rtranclp_induct)
  case base
  with assms show ?case by simp
next
  case (step d1 d2)
  have "schema_ok d1" "served_out d1 i"
    using taking_steps_booking_inv [OF step(1) assms(2)] taking_steps_served_out [OF step(1) assms(2-4)]
    by (simp_all add: booking_inv_def)
  with step taking_step_unmatched taking_step_holds show ?case by (cases out) auto
qed

subsection \<open>The steps of a submission\<close>

definition takes :: "script \<Rightarrow> AppState \<Rightarrow> AppState \<Rightarrow> bool" where
  "takes s st st' \<longleftrightarrow> (only_taking s \<longrightarrow> taking_step\<^sup>*\<^sup>* (pool st) (pool st'))"

definition taking_tx :: "'a tx \<Rightarrow> bool" where
  "taking_tx q \<longleftrightarrow> (\<forall>d. taking_step\<^sup>*\<^sup>* d (snd (q d)))"

lemma exec_takes:
  assumes "\<And>m. taking_tx (q m)" and "exec s q st = (r, st')"
  shows "takes s st st'"
  unfolding takes_def
proof
  assume "only_taking s"
  then have "taking_step\<^sup>*\<^sup>* (pool st) (mv_interfere (s (pos st)) (pool st))"
    by (simp add: only_taking_def)
  moreover have "taking_step\<^sup>*\<^sup>* (mv_interfere (s (pos st)) (pool st)) (pool st')"
    using exec_pool [OF assms(2)] assms(1) by (auto simp: taking_tx_def)
  ultimately show "taking_step\<^sup>*\<^sup>* (pool st) (pool st')" by simp
qed

lemma allocate_tx_taking: "taking_tx (allocate_tx locked i now b)"
  unfolding taking_tx_def
proof
  fix d
  obtain res d' where tx: "allocate_tx locked i now b d = (res, d')" by fastforce
  then show "taking_step\<^sup>*\<^sup>* d (snd (allocate_tx locked i now b d))"
  proof (cases rule: allocate_tx_cases)
    case (won c s u r)
    with tx have "db_step {} d d'" by (auto intro: db_step.allocation)
    moreover have "b_id ` set (beds d') = b_id ` set (beds d)"
      using won by (simp add: award_tables image_update_where)
    ultimately show ?thesis using tx by (simp add: taking_step_def r_into_rtranclp)
  qed (simp_all add: tx)
qed

lemma insert_referral_taking: "taking_tx (insert_referral i cw rg nd vu fa now)"
  unfolding taking_tx_def
proof
  fix d
  let ?q = "insert_referral i cw rg nd vu fa now d"
  show "taking_step\<^sup>*\<^sup>* d (snd ?q)"
  proof (cases "fst ?q")
    case (Inl e)
    then show ?thesis by (auto simp: insert_referral_def lift_insert_def split: sum.splits)
  next
    case (Inr u)
    then have q: "?q = (Inr (), snd ?q)" by (simp add: prod_eq_iff)
    then have "db_step {} d (snd ?q)" by (rule db_step.referral)
    moreover obtain r where "insert_referral_row r d = Inr (snd ?q)"
      using q by (blast elim: insert_referral_Inr_row)
    then have "beds (snd ?q) = beds d" using insert_referral_Inr by fastforce
    ultimately show ?thesis by (simp add: taking_step_def r_into_rtranclp)
  qed
qed

lemma read_only_taking:
  "taking_tx (candidate_bed region needs)" "taking_tx (final_outcome referral)"
  "taking_tx (available_count_tx region)" "taking_tx (region_of_shelter_tx shelter)"
  by (auto simp: taking_tx_def candidate_bed_def final_outcome_def available_count_tx_def
      region_of_shelter_tx_def lift_sqlx_def split: sum.splits)

interpretation takes: session_guarantee s "takes s" for s
proof
  fix st st' st'' :: AppState
  assume "takes s st st'" "takes s st' st''"
  then show "takes s st st''" by (auto simp: takes_def)
qed (auto simp: takes_def [of _ st st for st] resolve_final_outcome_def
      allocate_for_bed_def region_of_shelter_def available_count_in_region_def
      intro: exec_takes [OF insert_referral_taking] exec_takes [OF read_only_taking(1)]
        exec_takes [OF read_only_taking(2)] exec_takes [OF allocate_tx_taking]
        exec_takes [OF read_only_taking(3)] exec_takes [OF read_only_taking(4)])

subsection \<open>The search of a submission\<close>

text \<open>The referral of the submission, as its criteria stand in the database.\<close>

definition asks :: "db \<Rightarrow> uuid \<Rightarrow> string \<Rightarrow> ReferralNeeds \<Rightarrow> bool" where
  "asks d i region needs \<longleftrightarrow> (\<exists>r\<in>set (referrals d). r_id r = i \<and> r_region r = region \<and>
     needs_of (unit_type_required needs) r = needs \<and>
     r_unit_type_required r = UnitType_as_db_str (unit_type_required needs))"

lemma asks_later:
  assumes "extends d d'" and "asks d i region needs"
  shows "asks d' i region needs"
proof -
  obtain r where r: "r \<in> set (referrals d)" "r_id r = i" "r_region r = region"
    "needs_of (unit_type_required needs) r = needs"
    "r_unit_type_required r = UnitType_as_db_str (unit_type_required needs)"
    using assms(2) by (auto simp: asks_def)
  obtain r' where "r' \<in> set (referrals d')" "referral_static r' = referral_static r"
    using extendsD(2) [OF assms(1) r(1)] by blast
  with r show ?thesis
    unfolding asks_def referral_static_eq by (intro bexI [of _ r']) (simp_all add: needs_of_def)
qed

lemma asks_id: "asks d i region needs \<Longrightarrow> i \<in> r_id ` set (referrals d)"
  by (auto simp: asks_def)

text \<open>Without a candidate nothing is left for the referral.\<close>

lemma no_candidate_served_out:
  assumes ok: "schema_ok d" and asks: "asks d i region needs" and none: "\<forall>b. \<not> offers d region needs b"
  shows "served_out d i"
  unfolding served_out_def
proof (intro ballI impI allI notI)
  fix b q assume b: "b \<in> set (beds d)" "b_status b = ''available''" and w: "waiting d b q" "r_id q = i"
  obtain r where r: "r \<in> set (referrals d)" "r_id r = i" "r_region r = region"
    "needs_of (unit_type_required needs) r = needs"
    "r_unit_type_required r = UnitType_as_db_str (unit_type_required needs)"
    using asks by (auto simp: asks_def)
  have "q = r"
    using distinct_key_eq [OF schema_ok_keys(3) [OF ok], of q r] w r(1,2) by (simp add: waiting_def)
  with w b r have "offers d region needs b"
    using candidate_filter_suits [OF r(4,3,5)] by (auto simp: waiting_def offers_def suits_def)
  with none show False by blast
qed

text \<open>The criteria of the request apart from the bed's status, which never change.\<close>

definition fits :: "string \<Rightarrow> ReferralNeeds \<Rightarrow> bed_row \<Rightarrow> shelter_row \<Rightarrow> bool" where
  "fits region needs b sr \<longleftrightarrow> s_region sr = region \<and>
     b_unit_type b = UnitType_as_db_str (unit_type_required needs) \<and>
     (b_allows_pets b \<or> \<not> needs_pet_friendly needs) \<and>
     (\<not> b_sobriety_required b \<or> \<not> needs_sobriety_free needs) \<and>
     (b_ada_accessible b \<or> \<not> needs_ada_accessible needs)"

definition meets :: "db \<Rightarrow> string \<Rightarrow> ReferralNeeds \<Rightarrow> uuid \<Rightarrow> bool" where
  "meets d region needs bed \<longleftrightarrow> (\<exists>b\<in>set (beds d). \<exists>sr\<in>set (shelters d).
     b_id b = bed \<and> s_id sr = b_shelter_id b \<and> fits region needs b sr)"

lemma candidate_filter_fits:
  "candidate_filter region needs (b, sr) \<longleftrightarrow> b_status b = ''available'' \<and> fits region needs b sr"
  by (auto simp: candidate_filter_def fits_def)

lemma offers_meets: "offers d region needs b \<Longrightarrow> meets d region needs (b_id b) \<and> b_id b \<in> free_beds d"
  by (auto simp: offers_def meets_def candidate_filter_fits in_free_beds)

lemma meets_later:
  assumes "extends d d'" and "meets d region needs bed"
  shows "meets d' region needs bed"
proof -
  obtain b sr where b: "b \<in> set (beds d)" "b_id b = bed"
    and sr: "sr \<in> set (shelters d)" "s_id sr = b_shelter_id b" "fits region needs b sr"
    using assms(2) by (auto simp: meets_def)
  obtain b' where "b' \<in> set (beds d')" "bed_static b' = bed_static b"
    using extendsD(1) [OF assms(1) b(1)] by blast
  with b sr extendsD(3) [OF assms(1) sr(1)] show ?thesis
    unfolding meets_def bed_static_eq by (intro bexI [of _ b'] bexI [of _ sr]) (simp_all add: fits_def)
qed

lemma meets_offers:
  assumes ok: "schema_ok d" and "meets d region needs bed" and "bed \<in> free_beds d"
  obtains b where "offers d region needs b" "b_id b = bed"
proof -
  obtain b sr where b: "b \<in> set (beds d)" "b_id b = bed" "sr \<in> set (shelters d)"
    "s_id sr = b_shelter_id b" "fits region needs b sr" using assms(2) by (auto simp: meets_def)
  obtain c where c: "c \<in> set (beds d)" "b_id c = bed" "b_status c = ''available''"
    using assms(3) by (auto simp: in_free_beds)
  have "c = b" using distinct_key_eq [OF schema_ok_keys(2) [OF ok] c(1) b(1)] b(2) c(2) by simp
  with b c(3) have "offers d region needs b" by (auto simp: offers_def candidate_filter_fits)
  then show thesis using b(2) by (rule that)
qed

lemma allocate_tx_taking_steps:
  "allocate_tx locked v now bed d = (res, d') \<Longrightarrow> taking_step\<^sup>*\<^sup>* d d'"
  using allocate_tx_taking unfolding taking_tx_def by (metis snd_conv)

text \<open>An allocation of the candidate takes it, or nothing is left for the referral, or it was gone.\<close>

lemma allocation_takes:
  assumes inv: "booking_inv d" and fresh: "v \<notin> v_id ` set (reservations d)"
    and asks: "asks d i region needs" and unlocked: "\<not> locked i"
    and meets: "meets d region needs bed"
    and tx: "allocate_tx locked v now bed d = (Inr a, d')"
  shows "served_out d' i \<or> bed \<notin> free_beds d'"
proof (cases "bed \<in> free_beds d")
  case False
  with taking_steps_free [OF allocate_tx_taking_steps [OF tx]] show ?thesis by blast
next
  case True
  note ok = booking_inv_parts(1) [OF inv]
  obtain b where b: "offers d region needs b" "b_id b = bed" by (rule meets_offers [OF ok meets True])
  have avail: "b \<in> set (beds d)" "b_status b = ''available''" using b(1) by (simp_all add: offers_def)
  obtain r where r: "r \<in> set (referrals d)" "r_id r = i" "r_region r = region"
    "needs_of (unit_type_required needs) r = needs"
    "r_unit_type_required r = UnitType_as_db_str (unit_type_required needs)"
    using asks by (auto simp: asks_def)
  show ?thesis
  proof (cases "r_status r = ''pending''")
    case False
    with not_pending_served_out [OF ok r(1,2)] have "served_out d i" by blast
    with taking_steps_served_out [OF allocate_tx_taking_steps [OF tx] inv asks_id [OF asks]]
    show ?thesis by blast
  next
    case pending: True
    have w: "waiting d b r" by (rule offers_waiting [OF b(1) r(1) pending r(4,3,5)])
    have "\<not> locked (r_id r)" using unlocked r(2) by simp
    from allocate_tx_awards [where locked = locked, OF inv fresh avail w this, of now] obtain q :: referral_row where
      "allocate_tx locked v now (b_id b) d =
        (Inr (Some \<lparr>bed_id = b_id b, shelter_id = b_shelter_id b, referral_id = r_id q\<rparr>),
         award (new_reservation v (b_id b) (r_id q) now) d)" by blast
    with tx b(2) have "d' = award (new_reservation v bed (r_id q) now) d" by simp
    then show ?thesis by (simp add: award_free_beds)
  qed
qed

lemma healthy_takes:
  assumes "only_taking s" and "distinct_ids H s" and "healthy H s st" and "takes s st st'"
    and "keeps_ids H s st st'" and "pos st \<le> pos st'"
  shows "healthy H s st'"
proof -
  have "by_program {} s st st'"
    using assms(1,4) taking_steps_program by (simp add: takes_def by_program_def)
  from healthy_after [OF only_taking_fair [OF assms(1)] assms(2) this assms(5,6,3)] show ?thesis .
qed

lemma takes_extends: "only_taking s \<Longrightarrow> takes s st st' \<Longrightarrow> extends (pool st) (pool st')"
  using db_steps_extends taking_steps_program unfolding takes_def by blast

lemma allocate_for_bed_takes:
  assumes rely: "only_taking s" and ids: "distinct_ids H s"
    and unlocked: "\<not> mv_locked (s (pos st)) i"
    and st: "healthy H s st" and H: "pos st < H"
    and asks: "asks (pool st) i rg nd" and meets: "meets (pool st) rg nd bed"
    and run: "allocate_for_bed s bed st = (Inr a, st')"
  shows "served_out (pool st') i \<or> bed \<notin> free_beds (pool st')" "pos st' = Suc (pos st)"
proof -
  let ?m = "s (pos st)" and ?d = "mv_interfere (s (pos st)) (pool st)"
  have tx: "allocate_tx (mv_locked ?m) (mv_uuid ?m) (mv_now ?m) bed ?d = (Inr a, pool st')"
    and p: "pos st' = Suc (pos st)"
    using run by (auto simp: allocate_for_bed_def exec_Inr)
  have steps: "taking_step\<^sup>*\<^sup>* (pool st) ?d" using rely by (simp add: only_taking_def)
  have ext: "extends (pool st) ?d" by (rule db_steps_extends [OF taking_steps_program [OF steps]])
  have inv: "booking_inv ?d" using taking_steps_booking_inv [OF steps] st by (simp add: healthy_def)
  have "mv_uuid ?m \<notin> v_id ` set (reservations (pool st))"
    using st H by (simp add: healthy_def ids_unused_def)
  then have fresh: "mv_uuid ?m \<notin> v_id ` set (reservations ?d)"
    using ids H unfolding distinct_ids_def by blast
  note allocation_takes [where locked = "mv_locked ?m", OF inv fresh asks_later [OF ext asks] unlocked]
  from this [OF meets_later [OF ext meets] tx]
  show "served_out (pool st') i \<or> bed \<notin> free_beds (pool st')" .
  show "pos st' = Suc (pos st)" by (rule p)
qed

lemma search_serves_out:
  assumes rely: "only_taking s" and ids: "distinct_ids H s"
    and unlocked: "\<forall>k\<ge>K. \<not> mv_locked (s k) i"
  shows "submit_loop n s i rg nd side st = (Inr (out, side'), st') \<Longrightarrow> healthy H s st \<Longrightarrow> K \<le> pos st \<Longrightarrow>
    pos st + 2 * n \<le> H \<Longrightarrow> asks (pool st) i rg nd \<Longrightarrow> card (free_beds (pool st)) \<le> n \<Longrightarrow>
    served_out (pool st') i"
proof (induction n arbitrary: side st)
  case 0
  then obtain "resolve_final_outcome s i st = (Inr out, st')" by (auto simp: try_bind_Inr)
  then have "free_beds (pool st') \<subseteq> free_beds (pool st)"
    using takes.resolution rely taking_steps_free unfolding takes_def by blast
  with 0(6) have "free_beds (pool st') = {}" by simp
  then show ?case unfolding served_out_def free_beds_def by blast
next
  case (Suc n)
  from Suc.prems(1) obtain c st1 where c: "exec s (\<lambda>_. candidate_bed rg nd) st = (Inr c, st1)"
    and k: "(case c of
         None \<Rightarrow> try_bind (resolve_final_outcome s i st1) (\<lambda>outcome st. (Inr (outcome, side), st))
       | Some bed \<Rightarrow> try_bind (allocate_for_bed s bed st1) (\<lambda>allocation st. case allocation of
             Some result \<Rightarrow> if referral_id result = i then (Inr (Matched result, side), st)
               else submit_loop n s i rg nd (side @ [result]) st
           | None \<Rightarrow> submit_loop n s i rg nd side st)) = (Inr (out, side'), st')"
    by (auto simp: try_bind_Inr)
  note t1 = takes.candidate [OF c]
  have cd: "candidate_bed rg nd (pool st1) = (Inr c, pool st1)" and p1: "pos st1 = Suc (pos st)"
    using c by (auto simp: exec_Inr candidate_bed_def)
  have h1: "healthy H s st1"
    by (rule healthy_takes [OF rely ids Suc.prems(2) t1 keeps_ids.candidate [OF c]]) (simp add: p1)
  then have inv1: "booking_inv (pool st1)" by (simp add: healthy_def)
  have asks1: "asks (pool st1) i rg nd" by (rule asks_later [OF takes_extends [OF rely t1] Suc.prems(5)])
  have free1: "free_beds (pool st1) \<subseteq> free_beds (pool st)"
    using t1 rely taking_steps_free unfolding takes_def by blast
  have rest: "served_out (pool st') i" if "served_out (pool st2) i" "takes s st2 st'" "takes s st1 st2" for st2
  proof -
    have "i \<in> r_id ` set (referrals (pool st2))"
      by (rule asks_id [OF asks_later [OF takes_extends [OF rely that(3)] asks1]])
    moreover have "booking_inv (pool st2)"
      using taking_steps_booking_inv that(3) rely inv1 unfolding takes_def by blast
    ultimately show ?thesis
      using taking_steps_served_out that(1,2) rely unfolding takes_def by blast
  qed
  show ?case
  proof (cases c)
    case None
    with k obtain st2 where res: "resolve_final_outcome s i st1 = (Inr out, st2)" "st' = st2"
      by (auto simp: try_bind_Inr)
    have "\<forall>b. \<not> offers (pool st1) rg nd b" using cd None candidate_bed_None by blast
    from no_candidate_served_out [OF booking_inv_parts(1) [OF inv1] asks1 this]
    show ?thesis using rest [of st1] takes.resolution [OF res(1)] takes.refl res(2) by blast
  next
    case (Some bed)
    with k obtain a st2 where a: "allocate_for_bed s bed st1 = (Inr a, st2)"
      and k2: "(case a of Some result \<Rightarrow> if referral_id result = i then (Inr (Matched result, side), st2)
               else submit_loop n s i rg nd (side @ [result]) st2
           | None \<Rightarrow> submit_loop n s i rg nd side st2) = (Inr (out, side'), st')"
      by (auto simp: try_bind_Inr)
    note t2 = takes.allocation [OF a]
    have bed: "bed \<in> free_beds (pool st1)" "meets (pool st1) rg nd bed"
      using candidate_bed_Some(2) [of rg nd "pool st1" bed] cd Some offers_meets by blast+
    have "pos st1 < H" using p1 Suc.prems(4) by simp
    have "\<not> mv_locked (s (pos st1)) i" using unlocked p1 Suc.prems(3) by simp
    note taken = allocate_for_bed_takes [OF rely ids this h1 \<open>pos st1 < H\<close> asks1 bed(2) a]
    have h2: "healthy H s st2"
      by (rule healthy_takes [OF rely ids h1 t2 keeps_ids.allocation [OF a]]) (simp add: taken(2))
    consider (out) "served_out (pool st2) i" | (gone) "bed \<notin> free_beds (pool st2)"
      using taken(1) by blast
    then show ?thesis
    proof cases
      case out
      have "takes s st2 st'"
      proof (cases a)
        case None
        with k2 show ?thesis by (intro takes.submit_loop_R) simp
      next
        case (Some result)
        with k2 show ?thesis
          by (cases "referral_id result = i") (auto intro: takes.submit_loop_R takes.refl)
      qed
      with out show ?thesis by (rule rest [OF _ _ t2])
    next
      case gone
      have "free_beds (pool st2) \<subseteq> free_beds (pool st1)"
        using t2 rely taking_steps_free unfolding takes_def by blast
      with gone bed(1) free1 have "free_beds (pool st2) \<subset> free_beds (pool st)" by blast
      then have card: "card (free_beds (pool st2)) \<le> n"
        using psubset_card_mono [OF finite_free_beds, of "free_beds (pool st2)" "pool st"] Suc.prems(6)
        by linarith
      have asks2: "asks (pool st2) i rg nd" by (rule asks_later [OF takes_extends [OF rely t2] asks1])
      have p2: "pos st2 + 2 * n \<le> H" using p1 taken(2) Suc.prems(4) by simp
      have K: "K \<le> pos st2" using p1 taken(2) Suc.prems(3) by simp
      note IH = Suc.IH [OF _ h2 K p2 asks2 card]
      show ?thesis
      proof (cases a)
        case None
        with k2 IH show ?thesis by simp
      next
        case won: (Some result)
        show ?thesis
        proof (cases "referral_id result = i")
          case True
          have "holds (pool st2) result" by (rule allocate_for_bed_holds(1)) (use a won in simp)
          with holds_served_out [of "pool st2" result] h2 True have "served_out (pool st2) i"
            by (simp add: healthy_def)
          with True k2 won show ?thesis by simp
        next
          case False
          with k2 IH won show ?thesis by simp
        qed
      qed
    qed
  qed
qed

lemma inserted_asks:
  assumes "exec s (\<lambda>m. insert_referral i cw rg nd vu fa (mv_now m)) st = (Inr u, st')"
  shows "asks (pool st') i rg nd" "in_line (pool st') i"
proof -
  obtain d where "insert_referral i cw rg nd vu fa (mv_now (s (pos st))) d = (Inr (), pool st')"
    using assms by (auto simp: exec_Inr)
  then obtain r where r: "insert_referral_row r d = Inr (pool st')" "r_id r = i" "r_status r = ''pending''"
    "r_region r = rg" "needs_of (unit_type_required nd) r = nd"
    "r_unit_type_required r = UnitType_as_db_str (unit_type_required nd)"
    by (rule insert_referral_Inr_row) (rule that)
  have "r \<in> set (referrals (pool st'))" using insert_referral_Inr [OF r(1)] by simp
  with r show "asks (pool st') i rg nd" "in_line (pool st') i" by (auto simp: asks_def in_line_def)
qed

text \<open>A whole submission, in a database that has no more free beds than the search has iterations.\<close>

lemma submission_serves_out:
  assumes rely: "only_taking s" and ids: "distinct_ids H s" and st: "healthy H s st"
    and H: "pos st + 1002 \<le> H" and few: "length (beds (pool st)) \<le> 500"
    and run: "submit_referral s cw rg nd vu fa st = (Inr (out, side), st')"
    and unlocked: "\<forall>k\<ge>pos st. \<not> mv_locked (s k) (mv_uuid (s (pos st)))"
  shows "served_out (pool st') (mv_uuid (s (pos st)))"
proof -
  let ?i = "mv_uuid (s (pos st))"
  obtain u st1 where ins: "exec s (\<lambda>m. insert_referral ?i cw rg nd vu fa (mv_now m)) st = (Inr u, st1)"
    and loop: "submit_loop 500 s ?i rg nd [] st1 = (Inr (out, side), st')"
    using run by (auto simp: submit_referral_def Let_def try_bind_Inr)
  have p1: "pos st1 = Suc (pos st)" by (rule exec_frame(2) [OF ins])
  note t1 = takes.insertion [OF ins]
  have h1: "healthy H s st1"
    by (rule healthy_takes [OF rely ids st t1 keeps_ids.insertion [OF ins]]) (simp add: p1)
  have "card (free_beds (pool st1)) \<le> card (free_beds (pool st))"
    using t1 rely taking_steps_free card_mono [OF finite_free_beds] unfolding takes_def by blast
  also have "\<dots> \<le> length (beds (pool st))" by (rule card_free_beds)
  also have "\<dots> \<le> 500" by (rule few)
  finally have "card (free_beds (pool st1)) \<le> 500" .
  with search_serves_out [OF rely ids unlocked loop h1 _ _ inserted_asks(1) [OF ins]] p1 H
  show ?thesis by simp
qed

text \<open>
  A referral whose search has ended is settled: it is pending or matched as the outcome says, and
  no free bed is left that it waits for.  It stays so.
\<close>

definition settled :: "db \<Rightarrow> uuid \<Rightarrow> string \<Rightarrow> ReferralNeeds \<Rightarrow> SubmitOutcome \<Rightarrow> bool" where
  "settled d i region needs out \<longleftrightarrow>
     asks d i region needs \<and> in_line d i \<and> served_out d i \<and> outcome_true d i out"

lemma submission_settles:
  assumes rely: "only_taking s" and ids: "distinct_ids H s" and st: "healthy H s st"
    and H: "pos st + 1002 \<le> H" and few: "length (beds (pool st)) \<le> 500"
    and run: "submit_referral s cw rg nd vu fa st = (Inr (out, side), st')"
    and locks: "(\<exists>k\<ge>pos st. mv_locked (s k) (mv_uuid (s (pos st)))) \<longrightarrow>
      served_out (pool st') (mv_uuid (s (pos st)))"
  shows "settled (pool st') (mv_uuid (s (pos st))) rg nd out" "booking_inv (pool st')"
    "taking_step\<^sup>*\<^sup>* (pool st) (pool st')"
proof -
  let ?i = "mv_uuid (s (pos st))"
  obtain u st1 where ins: "exec s (\<lambda>m. insert_referral ?i cw rg nd vu fa (mv_now m)) st = (Inr u, st1)"
    and loop: "submit_loop 500 s ?i rg nd [] st1 = (Inr (out, side), st')"
    using run by (auto simp: submit_referral_def Let_def try_bind_Inr)
  have t1: "takes s st1 st'" by (rule takes.submit_loop_R [OF loop])
  show steps: "taking_step\<^sup>*\<^sup>* (pool st) (pool st')"
    using takes.submit_referral_R [OF run] rely by (simp add: takes_def)
  show inv: "booking_inv (pool st')"
    using taking_steps_booking_inv [OF steps] st by (simp add: healthy_def)
  have "asks (pool st') ?i rg nd" by (rule asks_later [OF takes_extends [OF rely t1] inserted_asks(1) [OF ins]])
  moreover have "in_line (pool st') ?i"
    using t1 rely taking_steps_in_line [OF _ inserted_asks(2) [OF ins]] unfolding takes_def by blast
  moreover have "served_out (pool st') ?i"
    using locks submission_serves_out [OF rely ids st H few run] by blast
  moreover have "outcome_true (pool st') ?i out"
    using submit_referral_outcome [OF run booking_inv_parts(1) [OF inv]] by blast
  ultimately show "settled (pool st') ?i rg nd out" by (simp add: settled_def)
qed

lemma taking_steps_settled:
  assumes steps: "taking_step\<^sup>*\<^sup>* d d'" and inv: "booking_inv d" and "settled d i region needs out"
  shows "settled d' i region needs out"
proof -
  have i: "asks d i region needs" "in_line d i" "served_out d i" "outcome_true d i out"
    using assms(3) by (simp_all add: settled_def)
  have "asks d' i region needs"
    by (rule asks_later [OF db_steps_extends [OF taking_steps_program [OF steps]] i(1)])
  moreover have "in_line d' i" by (rule taking_steps_in_line [OF steps i(2)])
  moreover have "served_out d' i" by (rule taking_steps_served_out [OF steps inv asks_id [OF i(1)] i(3)])
  moreover have "outcome_true d' i out"
    by (rule taking_steps_settle [OF steps inv asks_id [OF i(1)] i(3,4)])
  ultimately show ?thesis by (simp add: settled_def)
qed

text \<open>Where a bed that it asks for is still free, a settled referral is matched.\<close>

lemma settled_matched:
  assumes inv: "booking_inv d" and settled: "settled d i region needs out"
    and offer: "offers d region needs b"
  shows "\<exists>a. out = Matched a"
proof (cases out)
  case (Pending j)
  note ok = booking_inv_parts(1) [OF inv]
  obtain r where r: "r \<in> set (referrals d)" "r_id r = i" "r_region r = region"
    "needs_of (unit_type_required needs) r = needs"
    "r_unit_type_required r = UnitType_as_db_str (unit_type_required needs)"
    using settled by (auto simp: settled_def asks_def)
  obtain q where q: "q \<in> set (referrals d)" "r_id q = i" "r_status q \<in> {''pending'', ''matched''}"
    using settled by (auto simp: settled_def in_line_def)
  have eq: "q = r" using distinct_key_eq [OF schema_ok_keys(3) [OF ok] q(1) r(1)] q(2) r(2) by simp
  have "unmatched d i" using settled Pending by (simp add: settled_def)
  then have "r_status r \<noteq> ''matched''"
    unfolding matched_iff [OF inv r(1)] by (auto simp: unmatched_def r(2))
  with q(3) eq have "r_status r = ''pending''" by simp
  from offers_waiting [OF offer r(1) this r(4,3,5)] offer settled r(2) show ?thesis
    unfolding settled_def served_out_def offers_def by blast
qed simp

end
