(* ===== verification/Occupancy.thy ===== *)
theory Occupancy
  imports Progress
begin

section \<open>Counting beds and bookings\<close>

text \<open>
  The counts of the tables that the invariant relates: live reservations, matched referrals and
  the beds that are not free.
\<close>

lemma count_by_key:
  assumes "distinct (map k xs)"
  shows "length (filter P xs) = card (k ` {x \<in> set xs. P x})"
proof -
  have "distinct (map k (filter P xs))" using assms by (rule distinct_map_filter)
  then have "card (set (map k (filter P xs))) = length (map k (filter P xs))" by (rule distinct_card)
  then show ?thesis by simp
qed

lemma bed_of_reservation:
  assumes "booking_inv d" and "v \<in> set (reservations d)"
  obtains b where "b \<in> set (beds d)" "b_id b = v_bed_id v"
  using schema_ok_reservation [OF booking_inv_parts(1) [OF assms(1)] assms(2)] by blast

lemma referral_of_reservation:
  assumes "booking_inv d" and "v \<in> set (reservations d)"
  obtains r where "r \<in> set (referrals d)" "r_id r = v_referral_id v"
  using schema_ok_reservation [OF booking_inv_parts(1) [OF assms(1)] assms(2)] by blast

lemma live_bed_not_free:
  assumes "booking_inv d" and "v \<in> set (reservations d)" "is_live v"
    and "b \<in> set (beds d)" "b_id b = v_bed_id v"
  shows "b_status b \<noteq> ''available''"
proof
  assume "b_status b = ''available''"
  then have "b_status b \<in> {''available'', ''maintenance''}" by simp
  with booking_inv_parts(3) [OF assms(1)] assms(2-5) show False
    unfolding free_beds_unheld_def by metis
qed

definition live_reservations :: "db \<Rightarrow> reservation_row set" where
  "live_reservations d = {v \<in> set (reservations d). is_live v}"

lemma live_injective:
  assumes "booking_inv d"
  shows "inj_on v_bed_id (live_reservations d)" "inj_on v_referral_id (live_reservations d)"
  by (rule inj_onI, rule no_double_bookingD [OF assms], simp_all add: live_reservations_def)+

lemma live_count:
  assumes "booking_inv d"
  shows "length (filter is_live (reservations d)) = card (live_reservations d)"
proof -
  note keys = schema_ok_keys(4) [OF booking_inv_parts(1) [OF assms]]
  have "length (filter is_live (reservations d)) = card (v_id ` live_reservations d)"
    by (simp add: count_by_key [OF keys] live_reservations_def)
  also have "\<dots> = card (live_reservations d)"
    using keys by (intro card_image) (auto simp: distinct_map live_reservations_def inj_on_def)
  finally show ?thesis .
qed

text \<open>Active reservations hold a bed each.\<close>

lemma active_beds:
  assumes "booking_inv d"
  shows "card (v_bed_id ` set (filter (\<lambda>v. v_status v = ''active'') (reservations d))) =
    length (filter (\<lambda>v. v_status v = ''active'') (reservations d))"
proof -
  note ok = booking_inv_parts(1) [OF assms]
  have "distinct (map v_bed_id (filter (\<lambda>v. v_status v = ''active'') (reservations d)))"
    using ok by (simp add: schema_ok_def unique_where_def is_active_def [abs_def])
  from distinct_card [OF this] show ?thesis by simp
qed

text \<open>There are as many matched referrals as live reservations.\<close>

lemma matched_ids:
  assumes "booking_inv d"
  shows "r_id ` {r \<in> set (referrals d). r_status r = ''matched''} = v_referral_id ` live_reservations d"
proof (intro set_eqI iffI)
  fix i assume "i \<in> r_id ` {r \<in> set (referrals d). r_status r = ''matched''}"
  then obtain r where r: "r \<in> set (referrals d)" "r_status r = ''matched''" "r_id r = i" by blast
  then obtain v where "v \<in> set (reservations d)" "is_live v" "v_referral_id v = i"
    using matched_iff [OF assms r(1)] by blast
  then show "i \<in> v_referral_id ` live_reservations d" by (auto simp: live_reservations_def)
next
  fix i assume "i \<in> v_referral_id ` live_reservations d"
  then obtain v where v: "v \<in> set (reservations d)" "is_live v" "v_referral_id v = i"
    by (auto simp: live_reservations_def)
  obtain r where r: "r \<in> set (referrals d)" "r_id r = v_referral_id v"
    by (rule referral_of_reservation [OF assms v(1)])
  have "r \<in> {r \<in> set (referrals d). r_status r = ''matched''}"
    using r(1) live_matched [OF assms r(1) v(1,2) r(2)] by simp
  then show "i \<in> r_id ` {r \<in> set (referrals d). r_status r = ''matched''}"
    by (rule rev_image_eqI) (simp add: r(2) v(3))
qed

lemma matched_count:
  assumes "booking_inv d"
  shows "length (filter (\<lambda>r. r_status r = ''matched'') (referrals d)) = card (live_reservations d)"
  by (simp add: count_by_key [OF schema_ok_keys(3) [OF booking_inv_parts(1) [OF assms]]]
      matched_ids [OF assms] card_image [OF live_injective(2) [OF assms]])

text \<open>Live reservations hold beds that are not free, each its own.\<close>

lemma live_beds:
  assumes "booking_inv d"
  shows "v_bed_id ` live_reservations d \<subseteq> b_id ` {b \<in> set (beds d). b_status b \<noteq> ''available''}"
proof
  fix i assume "i \<in> v_bed_id ` live_reservations d"
  then obtain v where v: "v \<in> set (reservations d)" "is_live v" "v_bed_id v = i"
    by (auto simp: live_reservations_def)
  obtain b where b: "b \<in> set (beds d)" "b_id b = v_bed_id v" by (rule bed_of_reservation [OF assms v(1)])
  have "b \<in> {b \<in> set (beds d). b_status b \<noteq> ''available''}"
    using b(1) live_bed_not_free [OF assms v(1,2) b] by simp
  then show "i \<in> b_id ` {b \<in> set (beds d). b_status b \<noteq> ''available''}"
    by (rule rev_image_eqI) (simp add: b(2) v(3))
qed

lemma live_count_le:
  assumes "booking_inv d"
  shows "card (live_reservations d) \<le> length (filter (\<lambda>b. b_status b \<noteq> ''available'') (beds d))"
proof -
  have "card (live_reservations d) = card (v_bed_id ` live_reservations d)"
    by (simp add: card_image [OF live_injective(1) [OF assms]])
  also have "\<dots> \<le> card (b_id ` {b \<in> set (beds d). b_status b \<noteq> ''available''})"
    by (intro card_mono live_beds [OF assms]) simp
  also have "\<dots> = length (filter (\<lambda>b. b_status b \<noteq> ''available'') (beds d))"
    by (simp add: count_by_key [OF schema_ok_keys(2) [OF booking_inv_parts(1) [OF assms]]])
  finally show ?thesis .
qed

text \<open>When every bed is reserved, there are as many bookings as beds.\<close>

lemma all_reserved_counts:
  assumes inv: "terminal_inv d" and all: "\<forall>b\<in>set (beds d). b_status b = ''reserved''"
  shows "length (filter (\<lambda>v. v_status v = ''active'') (reservations d)) = length (beds d)"
    and "length (filter (\<lambda>r. r_status r = ''matched'') (referrals d)) = length (beds d)"
proof -
  note book = terminal_inv_parts(1) [OF inv]
  note ok = booking_inv_parts(1) [OF book]
  have "b_id ` set (beds d) \<subseteq> v_bed_id ` live_reservations d"
  proof
    fix i assume "i \<in> b_id ` set (beds d)"
    then obtain b where b: "b \<in> set (beds d)" "b_id b = i" by blast
    with inv all obtain v where "v \<in> set (reservations d)" "v_status v = ''active''" "v_bed_id v = b_id b"
      unfolding terminal_inv_def reserved_backed_def by blast
    with b show "i \<in> v_bed_id ` live_reservations d"
      by (auto simp: live_reservations_def is_live_def intro!: rev_image_eqI [of v])
  qed
  with live_beds [OF book] have "v_bed_id ` live_reservations d = b_id ` set (beds d)" by blast
  then have "card (live_reservations d) = card (b_id ` set (beds d))"
    using card_image [OF live_injective(1) [OF book]] by metis
  also have "\<dots> = length (beds d)"
    using count_by_key [OF schema_ok_keys(2) [OF ok], of "\<lambda>_. True"] by simp
  finally have card: "card (live_reservations d) = length (beds d)" .
  have "v_status v = ''active''" if v: "v \<in> set (reservations d)" "is_live v" for v
  proof (rule ccontr)
    assume "v_status v \<noteq> ''active''"
    with v(2) have "v_status v = ''checked_in''" by (simp add: is_live_def)
    moreover obtain b where b: "b \<in> set (beds d)" "b_id b = v_bed_id v"
      by (rule bed_of_reservation [OF book v(1)])
    ultimately have "b_status b = ''occupied''"
      using terminal_inv_parts(3) [OF inv] v(1) unfolding live_status_agrees_def by blast
    with all b(1) show False by simp
  qed
  then have "filter (\<lambda>v. v_status v = ''active'') (reservations d) = filter is_live (reservations d)"
    by (intro filter_cong) (auto simp: is_live_def)
  with card live_count [OF book] matched_count [OF book]
  show "length (filter (\<lambda>v. v_status v = ''active'') (reservations d)) = length (beds d)"
    "length (filter (\<lambda>r. r_status r = ''matched'') (referrals d)) = length (beds d)" by simp_all
qed

end
