(* ===== verification/Contention_Properties.thy ===== *)
theory Contention_Properties
  imports Contention Occupancy Examples
begin

section \<open>Properties of submissions that compete for beds\<close>

text \<open>
  The beds, the sessions and their referrals of a contest: everybody asks for the same unit type
  and needs in one region, every bed meets them, and no bed becomes free meanwhile.
\<close>

lemma taking_step_bed_states:
  assumes "taking_step d d'" and "\<forall>b\<in>set (beds d). b_status b \<in> {''available'', ''reserved''}"
  shows "\<forall>b\<in>set (beds d'). b_status b \<in> {''available'', ''reserved''}"
  using assms(1)
proof (cases rule: taking_step_cases)
  case (referral r)
  with assms(2) insert_referral_Inr [OF referral(1)] show ?thesis by simp
next
  case (award v b r)
  show ?thesis
  proof
    fix c' assume "c' \<in> set (beds d')"
    then obtain c where "c \<in> set (beds d)"
      "c' = (if b_id c = v_bed_id v then c\<lparr>b_status := ''reserved''\<rparr> else c)"
      using award by (auto simp: award_tables in_update_where)
    with assms(2) show "b_status c' \<in> {''available'', ''reserved''}" by simp
  qed
next
  case (shelter sr)
  with assms(2) show ?thesis by (auto simp: insert_shelter_row_def split: if_splits)
next
  case reorder
  with assms(2) show ?thesis by (simp add: reordered_sets)
qed

lemma taking_steps_bed_states:
  assumes "taking_step\<^sup>*\<^sup>* d d'" and "\<forall>b\<in>set (beds d). b_status b = ''available''"
  shows "\<forall>b\<in>set (beds d'). b_status b \<in> {''available'', ''reserved''}"
  using assms(1)
proof (induction rule: rtranclp_induct)
  case base
  with assms(2) show ?case by simp
next
  case (step d1 d2)
  from taking_step_bed_states [OF step(2,3)] show ?case .
qed

lemma taking_steps_bed_ids:
  assumes "taking_step\<^sup>*\<^sup>* d d'"
  shows "b_id ` set (beds d') = b_id ` set (beds d)"
proof
  show "b_id ` set (beds d') \<subseteq> b_id ` set (beds d)"
    using assms
  proof (induction rule: rtranclp_induct)
    case base
    show ?case by simp
  next
    case (step y z)
    from step(2) have "b_id ` set (beds z) \<subseteq> b_id ` set (beds y)" by (simp add: taking_step_def)
    with step(3) show ?case by (rule subset_trans [rotated])
  qed
  have ext: "extends d d'" by (rule db_steps_extends [OF taking_steps_program [OF assms]])
  show "b_id ` set (beds d) \<subseteq> b_id ` set (beds d')"
  proof
    fix i assume "i \<in> b_id ` set (beds d)"
    then obtain b where b: "b \<in> set (beds d)" "b_id b = i" by blast
    obtain b' where "b' \<in> set (beds d')" "bed_static b' = bed_static b"
      using extendsD(1) [OF ext b(1)] by blast
    then show "i \<in> b_id ` set (beds d')"
      by (intro rev_image_eqI [of b']) (simp_all add: bed_static_eq b(2))
  qed
qed

lemma taking_steps_bed_count:
  assumes steps: "taking_step\<^sup>*\<^sup>* d d'" and inv: "booking_inv d"
  shows "length (beds d') = length (beds d)"
proof -
  have "length (beds e) = card (b_id ` set (beds e))" if "booking_inv e" for e
    using count_by_key [OF schema_ok_keys(2) [OF booking_inv_parts(1) [OF that]], of "\<lambda>_. True"] by simp
  with inv taking_steps_booking_inv [OF steps inv] taking_steps_bed_ids [OF steps] show ?thesis by simp
qed

lemma taking_steps_terminal:
  assumes "taking_step\<^sup>*\<^sup>* d d'" and "terminal_inv d"
  shows "terminal_inv d'"
proof -
  have "(db_step terminal_statuses)\<^sup>*\<^sup>* d d'"
    by (rule rtranclp_mono [THEN predicate2D, OF _ assms(1)])
       (auto simp: taking_step_def intro: db_step_more)
  from terminal.steps [OF this assms(2)] show ?thesis .
qed

text \<open>A bed that is still free is still one that everybody asks for.\<close>

lemma taking_steps_offers:
  assumes steps: "taking_step\<^sup>*\<^sup>* d d'" and inv: "booking_inv d"
    and offers: "\<forall>b\<in>set (beds d). offers d region needs b"
    and b: "b \<in> set (beds d')" "b_status b = ''available''"
  obtains c where "offers d' region needs c"
proof -
  obtain b0 where b0: "b0 \<in> set (beds d)" "b_id b0 = b_id b"
    using taking_steps_bed_ids [OF steps] b(1) by (metis imageE imageI)
  have ext: "extends d d'" by (rule db_steps_extends [OF taking_steps_program [OF steps]])
  have "offers d region needs b0" using offers b0(1) by blast
  then have "meets d region needs (b_id b)" using offers_meets b0(2) by metis
  then have "meets d' region needs (b_id b)" by (rule meets_later [OF ext])
  moreover have "b_id b \<in> free_beds d'" using b by (auto simp: in_free_beds)
  moreover have "schema_ok d'" using taking_steps_booking_inv [OF steps inv] by (simp add: booking_inv_def)
  ultimately show thesis using meets_offers that by blast
qed

subsection \<open>A search that ends leaves no bed unused\<close>

text \<open>
  C26.  A submission that runs while no bed becomes free or is added, that meets no fault and
  draws unused ids, in a database of at most 500 beds that keeps the invariant, succeeds. Unless
  some transaction had its referral locked at some moment of the script, from then on, as long
  as beds are only taken, there is no free bed that its referral waits for, and the outcome
  stays true.
\<close>

theorem submission_leaves_no_bed_unused:
  assumes "only_taking s" and "distinct_ids H s" and "ids_unused H s st" and "booking_inv (pool st)"
    and "\<forall>k\<ge>pos st. mv_fault (s k) = None" and "pos st + 1002 \<le> H"
    and "mv_uuid (s (pos st)) \<notin> r_id ` set (referrals (mv_interfere (s (pos st)) (pool st)))"
    and "length (beds (pool st)) \<le> 500"
  shows "\<exists>out side st'. submit_referral s cw rg nd vu fa st = (Inr (out, side), st') \<and>
    ((\<exists>k\<ge>pos st. mv_locked (s k) (mv_uuid (s (pos st)))) \<or>
     (\<forall>d. taking_step\<^sup>*\<^sup>* (pool st') d \<longrightarrow>
        outcome_true d (mv_uuid (s (pos st))) out \<and>
        (\<forall>b\<in>set (beds d). \<forall>r. b_status b = ''available'' \<longrightarrow> waiting d b r \<longrightarrow>
           r_id r \<noteq> mv_uuid (s (pos st)))))"
proof -
  let ?i = "mv_uuid (s (pos st))"
  have st: "healthy H s st" using assms by (simp add: healthy_def)
  obtain out side st' where run: "submit_referral s cw rg nd vu fa st = (Inr (out, side), st')"
    using submit_referral_total [OF only_taking_fair [OF assms(1)] assms(2) st assms(7,6)] by metis
  have "settled d ?i rg nd out" if "taking_step\<^sup>*\<^sup>* (pool st') d" "\<not> (\<exists>k\<ge>pos st. mv_locked (s k) ?i)" for d
    using submission_settles [OF assms(1,2) st assms(6,8) run] that taking_steps_settled by blast
  with run show ?thesis unfolding settled_def served_out_def by metis
qed

theorem submission_leaves_no_bed_unused_witness:
  "\<exists>out side st'. submit_referral ex_script ''cw'' ''north'' ex_needs 50 1 (ex_state ex_wait) =
     (Inr (out, side), st') \<and>
     ((\<exists>k\<ge>pos (ex_state ex_wait). mv_locked (ex_script k) (mv_uuid (ex_script (pos (ex_state ex_wait))))) \<or>
      (\<forall>d. taking_step\<^sup>*\<^sup>* (pool st') d \<longrightarrow>
        outcome_true d (mv_uuid (ex_script (pos (ex_state ex_wait)))) out \<and>
        (\<forall>b\<in>set (beds d). \<forall>r. b_status b = ''available'' \<longrightarrow> waiting d b r \<longrightarrow>
           r_id r \<noteq> mv_uuid (ex_script (pos (ex_state ex_wait))))))"
  by (rule submission_leaves_no_bed_unused [OF alone_only_taking [OF ex_script_alone] ex_script_ids])
     (simp_all add: ex_inv ex_ids_unused, simp_all add: ex_db_def ex_referral_def)

text \<open>
  One of the submissions of a contest: it starts in a database that the others have reached from
  \<open>d\<close>, returns \<open>out\<close>, and the others end in \<open>D\<close>; a transaction that had its referral locked has
  not been rolled back.
\<close>

definition contends ::
  "nat \<Rightarrow> db \<Rightarrow> db \<Rightarrow> string \<Rightarrow> ReferralNeeds \<Rightarrow> script \<Rightarrow> AppState \<Rightarrow> SubmitOutcome \<Rightarrow> bool" where
  "contends H d D region needs s st out \<longleftrightarrow>
     only_taking s \<and> distinct_ids H s \<and> ids_unused H s st \<and> pos st + 1002 \<le> H \<and>
     (\<forall>k\<ge>pos st. mv_fault (s k) = None) \<and> taking_step\<^sup>*\<^sup>* d (pool st) \<and>
     (\<exists>cw vu fa side st'. submit_referral s cw region needs vu fa st = (Inr (out, side), st') \<and>
        taking_step\<^sup>*\<^sup>* (pool st') D \<and>
        ((\<exists>k\<ge>pos st. mv_locked (s k) (mv_uuid (s (pos st)))) \<longrightarrow>
          (\<exists>r\<in>set (referrals (pool st')). r_id r = mv_uuid (s (pos st)) \<and> r_status r \<noteq> ''pending'')))"

lemma contender_settles:
  assumes inv: "booking_inv d" and few: "length (beds d) \<le> 500"
    and "contends H d D region needs s st out"
  shows "settled D (mv_uuid (s (pos st))) region needs out"
    and "taking_step\<^sup>*\<^sup>* d D"
proof -
  let ?i = "mv_uuid (s (pos st))"
  obtain cw vu fa side st' where s: "only_taking s" "distinct_ids H s" "ids_unused H s st"
    "pos st + 1002 \<le> H" "\<forall>k\<ge>pos st. mv_fault (s k) = None" "taking_step\<^sup>*\<^sup>* d (pool st)"
    and run: "submit_referral s cw region needs vu fa st = (Inr (out, side), st')"
    and D: "taking_step\<^sup>*\<^sup>* (pool st') D"
    and locks: "(\<exists>k\<ge>pos st. mv_locked (s k) ?i) \<longrightarrow>
      (\<exists>r\<in>set (referrals (pool st')). r_id r = ?i \<and> r_status r \<noteq> ''pending'')"
    using assms(3) unfolding contends_def by metis
  have st: "healthy H s st"
    using taking_steps_booking_inv [OF s(6) inv] s(3,5) by (simp add: healthy_def)
  have "length (beds (pool st)) \<le> 500" using taking_steps_bed_count [OF s(6) inv] few by simp
  note settles = submission_settles [OF s(1,2) st s(4) this run]
  have "taking_step\<^sup>*\<^sup>* (pool st) (pool st')"
    using takes.submit_referral_R [OF run] s(1) by (simp add: takes_def)
  with s(6) D show "taking_step\<^sup>*\<^sup>* d D" by simp
  have inv': "booking_inv (pool st')"
    using taking_steps_booking_inv [OF \<open>taking_step\<^sup>*\<^sup>* (pool st) (pool st')\<close>] st by (simp add: healthy_def)
  have "(\<exists>k\<ge>pos st. mv_locked (s k) ?i) \<longrightarrow> served_out (pool st') ?i"
    using locks not_pending_served_out [OF booking_inv_parts(1) [OF inv']] by blast
  from settles(1) [OF this] show "settled D ?i region needs out"
    by (rule taking_steps_settled [OF D inv'])
qed

lemma contender_matched:
  assumes inv: "booking_inv d" and settled: "settled d i region needs out"
  shows "i \<in> v_referral_id ` live_reservations d \<longleftrightarrow> (\<exists>a. out = Matched a)"
proof (cases out)
  case (Matched a)
  with settled have "referral_id a = i" "holds d a" by (simp_all add: settled_def)
  then obtain v where "v \<in> set (reservations d)" "is_live v" "v_referral_id v = i"
    unfolding holds_def by blast
  then have "v \<in> live_reservations d" "v_referral_id v = i" by (simp_all add: live_reservations_def)
  with Matched show ?thesis by blast
next
  case (Pending j)
  with settled have "unmatched d i" by (simp add: settled_def)
  then have "i \<notin> v_referral_id ` live_reservations d"
    unfolding unmatched_def live_reservations_def by blast
  with Pending show ?thesis by simp
qed

lemma contest_fills_every_bed:
  assumes inv: "booking_inv d" and free: "\<forall>b\<in>set (beds d). offers d region needs b"
    and steps: "taking_step\<^sup>*\<^sup>* d D"
    and J: "finite J" "inj_on ids J" "length (beds d) \<le> card J"
    and settled: "\<And>j. j \<in> J \<Longrightarrow> settled D (ids j) region needs (out j)"
  shows "\<forall>b\<in>set (beds D). b_status b = ''reserved''"
proof (rule ccontr)
  assume "\<not> ?thesis"
  moreover have "\<forall>b\<in>set (beds D). b_status b \<in> {''available'', ''reserved''}"
    by (rule taking_steps_bed_states [OF steps]) (use free in \<open>auto simp: offers_def\<close>)
  ultimately obtain b where b: "b \<in> set (beds D)" "b_status b = ''available''" by blast
  note inv' = taking_steps_booking_inv [OF steps inv]
  obtain c where c: "offers D region needs c" by (rule taking_steps_offers [OF steps inv free b])
  have "ids ` J \<subseteq> v_referral_id ` live_reservations D"
    using settled settled_matched [OF inv' _ c] contender_matched [OF inv'] by blast
  then have "card (ids ` J) \<le> card (v_referral_id ` live_reservations D)"
    by (rule card_mono [rotated]) (simp add: live_reservations_def)
  also have "\<dots> = card (live_reservations D)" by (rule card_image [OF live_injective(2) [OF inv']])
  also have "\<dots> \<le> length (filter (\<lambda>b. b_status b \<noteq> ''available'') (beds D))"
    by (rule live_count_le [OF inv'])
  also have "\<dots> < length (beds D)" by (rule length_filter_less [OF b(1)]) (simp add: b(2))
  finally show False
    using J taking_steps_bed_count [OF steps inv] by (simp add: card_image)
qed

lemma contest_outcomes:
  assumes inv: "booking_inv d" and J: "inj_on ids J"
    and settled: "\<And>j. j \<in> J \<Longrightarrow> settled d (ids j) region needs (out j)"
    and only: "r_id ` set (referrals d) \<subseteq> ids ` J"
  shows "card {j \<in> J. \<exists>a. out j = Matched a} = card (live_reservations d)"
proof -
  let ?M = "{j \<in> J. \<exists>a. out j = Matched a}"
  have iff: "ids j \<in> v_referral_id ` live_reservations d \<longleftrightarrow> (\<exists>a. out j = Matched a)" if "j \<in> J" for j
    by (rule contender_matched [OF inv settled [OF that]])
  have sub: "v_referral_id ` live_reservations d \<subseteq> ids ` J"
    using matched_ids [OF inv] only by blast
  have "ids ` ?M = v_referral_id ` live_reservations d"
  proof
    show "ids ` ?M \<subseteq> v_referral_id ` live_reservations d"
    proof
      fix i assume "i \<in> ids ` ?M"
      then obtain j where "j \<in> J" "\<exists>a. out j = Matched a" "i = ids j" by blast
      with iff show "i \<in> v_referral_id ` live_reservations d" by simp
    qed
    show "v_referral_id ` live_reservations d \<subseteq> ids ` ?M"
    proof
      fix i assume i: "i \<in> v_referral_id ` live_reservations d"
      with sub obtain j where j: "j \<in> J" "i = ids j" by blast
      with i iff [OF j(1)] have "j \<in> ?M" by simp
      then show "i \<in> ids ` ?M" using j(2) by (rule rev_image_eqI)
    qed
  qed
  moreover have "inj_on ids ?M" using J by (rule inj_on_subset) blast
  then have "card (ids ` ?M) = card ?M" by (rule card_image)
  moreover have "card (v_referral_id ` live_reservations d) = card (live_reservations d)"
    by (rule card_image [OF live_injective(2) [OF inv]])
  ultimately show ?thesis by simp
qed

lemma contest_result:
  assumes "terminal_inv d" and "\<forall>b\<in>set (beds d). offers d region needs b" and "length (beds d) \<le> 500"
    and "finite J" and "inj_on (\<lambda>j. mv_uuid (s j (pos (st j)))) J" and "length (beds d) \<le> card J"
    and "\<forall>j\<in>J. contends H d D region needs (s j) (st j) (out j)" and "J \<noteq> {}"
  shows "(\<forall>b\<in>set (beds D). b_status b = ''reserved'') \<and> length (beds D) = length (beds d) \<and>
    length (filter (\<lambda>v. v_status v = ''active'') (reservations D)) = length (beds d) \<and>
    length (filter (\<lambda>r. r_status r = ''matched'') (referrals D)) = length (beds d) \<and>
    (r_id ` set (referrals D) \<subseteq> (\<lambda>j. mv_uuid (s j (pos (st j)))) ` J \<longrightarrow>
       card {j\<in>J. \<exists>a. out j = Matched a} = length (beds d) \<and>
       card {j\<in>J. \<exists>i. out j = Pending i} = card J - length (beds d))"
proof -
  note inv = terminal_inv_parts(1) [OF assms(1)]
  let ?ids = "\<lambda>j. mv_uuid (s j (pos (st j)))"
  have settled: "settled D (?ids j) region needs (out j)" if "j \<in> J" for j
    using contender_settles(1) [OF inv assms(3)] assms(7) that by blast
  have steps: "taking_step\<^sup>*\<^sup>* d D" using contender_settles(2) [OF inv assms(3)] assms(7,8) by blast
  have all: "\<forall>b\<in>set (beds D). b_status b = ''reserved''"
    by (rule contest_fills_every_bed [OF inv assms(2) steps assms(4-6) settled])
  have beds: "length (beds D) = length (beds d)" by (rule taking_steps_bed_count [OF steps inv])
  note inv' = taking_steps_terminal [OF steps assms(1)]
  note counts = all_reserved_counts [OF inv' all] matched_count [OF terminal_inv_parts(1) [OF inv']]
  have "card {j\<in>J. \<exists>a. out j = Matched a} = length (beds d)"
    if "r_id ` set (referrals D) \<subseteq> ?ids ` J"
    using contest_outcomes [OF terminal_inv_parts(1) [OF inv'] assms(5) settled that] counts beds by simp
  moreover have "{j\<in>J. \<exists>i. out j = Pending i} = J - {j\<in>J. \<exists>a. out j = Matched a}"
    by (auto intro: SubmitOutcome.exhaust)
  ultimately show ?thesis using all beds counts assms(4) by (simp add: card_Diff_subset)
qed

text \<open>
  C6.  More referrals than beds. The database keeps the invariants and has at most 500 beds, all
  of them available and meeting the request. Submissions of this request compete for them, at
  least as many as there are beds, with different referral ids: each meets no fault, draws
  unused ids, starts in a database that the others have reached meanwhile, while no bed becomes
  free and none is added, and if another transaction had its referral locked at some moment, the
  referral is no longer pending when the submission returns. Then in the end every bed is
  reserved, and there are as many active reservations and matched referrals as beds. If,
  moreover, no other referrals are in the final database, exactly as many calls as there are
  beds were answered with a match, and the others with pending.
\<close>

theorem more_referrals_than_beds_fill_every_bed:
  assumes "terminal_inv d" and "\<forall>b\<in>set (beds d). offers d region needs b" and "length (beds d) \<le> 500"
    and "finite J" and "inj_on (\<lambda>j. mv_uuid (s j (pos (st j)))) J" and "length (beds d) \<le> card J"
    and "\<forall>j\<in>J. contends H d D region needs (s j) (st j) (out j)" and "J \<noteq> {}"
  shows "(\<forall>b\<in>set (beds D). b_status b = ''reserved'') \<and> length (beds D) = length (beds d) \<and>
    length (filter (\<lambda>v. v_status v = ''active'') (reservations D)) = length (beds d) \<and>
    length (filter (\<lambda>r. r_status r = ''matched'') (referrals D)) = length (beds d) \<and>
    (r_id ` set (referrals D) \<subseteq> (\<lambda>j. mv_uuid (s j (pos (st j)))) ` J \<longrightarrow>
       card {j\<in>J. \<exists>a. out j = Matched a} = length (beds d) \<and>
       card {j\<in>J. \<exists>i. out j = Pending i} = card J - length (beds d))"
  by (rule contest_result [OF assms])

subsection \<open>Two clients for one bed\<close>

definition ex_after :: db where
  "ex_after = \<lparr>shelters = [ex_shelter], beds = [ex_bed ''reserved'' 0],
     referrals = [ex_referral 100 50 0 ''matched''],
     reservations = [new_reservation 102 1 100 2], applied_events = []\<rparr>"

definition ex_end :: db where
  "ex_end = ex_after\<lparr>referrals := referrals ex_after @ [ex_referral 103 50 3 ''pending'']\<rparr>"

lemma ex_allocates_first: "allocate_tx (\<lambda>_. False) 102 2 1 (ex_free\<lparr>referrals := [ex_referral 100 50 0 ''pending'']\<rparr>) =
    (Inr (Some \<lparr>bed_id = 1, shelter_id = 1, referral_id = 100\<rparr>), ex_after)"
proof -
  let ?d = "ex_free\<lparr>referrals := [ex_referral 100 50 0 ''pending'']\<rparr>"
  have choose: "choose_referral (\<lambda>_. False) ''north'' (attrs_of General (ex_bed ''available'' 0)) ?d =
      Some (ex_referral 100 50 0 ''pending'')"
    by (simp add: choose_referral_def ex_defs ex_free_def pending_filter_def order_key_def)
  have "allocate_tx (\<lambda>_. False) 102 2 1 ?d =
    (case choose_referral (\<lambda>_. False) (s_region ex_shelter) (attrs_of General (ex_bed ''available'' 0)) ?d of
       None \<Rightarrow> (Inr None, ?d)
     | Some r \<Rightarrow>
       (case insert_reservation_row (new_reservation 102 1 (r_id r) 2) ?d of
          Inl e \<Rightarrow> (Inl (Failed (Database e)), ?d)
        | Inr _ \<Rightarrow>
          (Inr (Some \<lparr>bed_id = 1, shelter_id = b_shelter_id (ex_bed ''available'' 0), referral_id = r_id r\<rparr>),
           award (new_reservation 102 1 (r_id r) 2) ?d)))"
    by (rule allocate_tx_decides) (simp_all add: ex_defs ex_unit ex_free_def)
  then show ?thesis
    using choose
    by (simp add: ex_shelter_def insert_reservation_row_def ex_defs unique_where_def ex_free_def
        reservation_status_check_def award_def new_reservation_def set_bed_status_def ex_after_def
        set_referral_status_def update_beds_def update_referrals_def update_where_def)
qed

lemma ex_inserts:
  assumes "i \<notin> r_id ` set (referrals d)"
  shows "insert_referral i ''cw'' ''north'' ex_needs 50 1 now d =
    (Inr (), d\<lparr>referrals := referrals d @ [ex_referral i 50 now ''pending'']\<rparr>)"
  using assms by (simp add: insert_referral_def insert_referral_row_def ex_referral_def ex_needs_def
      referral_check_def referral_status_check_def unit_type_check_def)

lemma ex_exec:
  assumes "q (ex_script (pos st)) (pool st) = (Inr x, d)"
  shows "exec ex_script q st = (Inr x, st\<lparr>pool := d, pos := Suc (pos st)\<rparr>)"
  using assms by (simp add: exec_alone [OF ex_script_alone])

definition ex_at :: "db \<Rightarrow> nat \<Rightarrow> AppState" where
  "ex_at d k = \<lparr>pool = d, availability_tx = [], pos = k\<rparr>"

lemma ex_at_exec:
  "q (ex_script k) d = (Inr x, d') \<Longrightarrow> j = Suc k \<Longrightarrow>
     exec ex_script q (ex_at d k) = (Inr x, ex_at d' j)"
  using ex_exec [of q "ex_at d k" x d'] by (simp add: ex_at_def)

text \<open>The first call takes the bed.\<close>

lemma ex_first: "submit_referral ex_script ''cw'' ''north'' ex_needs 50 1 (ex_at ex_free 0) =
    (Inr (Matched \<lparr>bed_id = 1, shelter_id = 1, referral_id = 100\<rparr>, []), ex_at ex_after 3)"
proof -
  let ?d = "ex_free\<lparr>referrals := [ex_referral 100 50 0 ''pending'']\<rparr>"
  have "insert_referral 100 ''cw'' ''north'' ex_needs 50 1 0 ex_free = (Inr (), ?d)"
    using ex_inserts [of 100 ex_free 0] by (simp add: ex_free_def)
  then have 1: "exec ex_script (\<lambda>m. insert_referral 100 ''cw'' ''north'' ex_needs 50 1 (mv_now m))
      (ex_at ex_free 0) = (Inr (), ex_at ?d 1)"
    by (intro ex_at_exec) simp_all
  have "candidate_bed ''north'' ex_needs ?d = (Inr (Some 1), ?d)"
    by (simp add: candidate_bed_def ex_free_def ex_defs ex_needs_def candidate_filter_def beds_join_shelters_def)
  then have 2: "exec ex_script (\<lambda>_. candidate_bed ''north'' ex_needs) (ex_at ?d 1) =
      (Inr (Some 1), ex_at ?d 2)"
    by (intro ex_at_exec) simp_all
  have 3: "allocate_for_bed ex_script 1 (ex_at ?d 2) =
      (Inr (Some \<lparr>bed_id = 1, shelter_id = 1, referral_id = 100\<rparr>), ex_at ex_after 3)"
    unfolding allocate_for_bed_def by (rule ex_at_exec) (simp_all add: ex_allocates_first)
  have "submit_loop (Suc 499) ex_script 100 ''north'' ex_needs [] (ex_at ?d 1) =
      (Inr (Matched \<lparr>bed_id = 1, shelter_id = 1, referral_id = 100\<rparr>, []), ex_at ex_after 3)"
    unfolding submit_loop.simps(2) 2 try_bind_simps 3 option.case by simp
  then show ?thesis using 1 by (simp add: submit_referral_def ex_at_def Let_def)
qed

text \<open>The second call finds no bed left.\<close>

lemma ex_second: "submit_referral ex_script ''cw'' ''north'' ex_needs 50 1 (ex_at ex_after 3) =
    (Inr (Pending 103, []), ex_at ex_end 6)"
proof -
  have "insert_referral 103 ''cw'' ''north'' ex_needs 50 1 3 ex_after = (Inr (), ex_end)"
    using ex_inserts [of 103 ex_after 3] by (simp add: ex_after_def ex_referral_def ex_end_def)
  then have 1: "exec ex_script (\<lambda>m. insert_referral 103 ''cw'' ''north'' ex_needs 50 1 (mv_now m))
      (ex_at ex_after 3) = (Inr (), ex_at ex_end 4)"
    by (intro ex_at_exec) simp_all
  have "candidate_bed ''north'' ex_needs ex_end = (Inr None, ex_end)"
    by (simp add: candidate_bed_def ex_end_def ex_after_def ex_defs ex_needs_def candidate_filter_def
        beds_join_shelters_def)
  then have 2: "exec ex_script (\<lambda>_. candidate_bed ''north'' ex_needs) (ex_at ex_end 4) =
      (Inr None, ex_at ex_end 5)"
    by (intro ex_at_exec) simp_all
  have "final_outcome 103 ex_end = (Inr (Pending 103), ex_end)"
    by (simp add: final_outcome_def ex_end_def ex_after_def reservations_join_beds_def new_reservation_def)
  then have 3: "resolve_final_outcome ex_script 103 (ex_at ex_end 5) = (Inr (Pending 103), ex_at ex_end 6)"
    unfolding resolve_final_outcome_def by (intro ex_at_exec) simp_all
  have "submit_loop (Suc 499) ex_script 103 ''north'' ex_needs [] (ex_at ex_end 4) =
      (Inr (Pending 103, []), ex_at ex_end 6)"
    unfolding submit_loop.simps(2) 2 try_bind_simps 3 option.case by simp
  then show ?thesis using 1 by (simp add: submit_referral_def ex_at_def Let_def)
qed

lemma ex_contends:
  "contends 2000 ex_free ex_end ''north'' ex_needs ex_script (ex_at ex_free 0)
     (Matched \<lparr>bed_id = 1, shelter_id = 1, referral_id = 100\<rparr>)"
  "contends 2000 ex_free ex_end ''north'' ex_needs ex_script (ex_at ex_after 3) (Pending 103)"
proof -
  note taking = alone_only_taking [OF ex_script_alone]
  have steps: "taking_step\<^sup>*\<^sup>* ex_free ex_after" "taking_step\<^sup>*\<^sup>* ex_after ex_end"
    using takes.submit_referral_R [OF ex_first] takes.submit_referral_R [OF ex_second] taking
    by (simp_all add: takes_def ex_at_def)
  have unused: "ids_unused 2000 ex_script (ex_at ex_free 0)" "ids_unused 2000 ex_script (ex_at ex_after 3)"
  proof -
    have "of_nat (k + 100) \<noteq> (102 :: uuid)" if "3 \<le> k" "k < 2000" for k
    proof
      assume "of_nat (k + 100) = (102 :: uuid)"
      then have "unat (of_nat (k + 100) :: uuid) = unat (102 :: uuid)" by (rule arg_cong)
      then show False using that by (simp add: unat_of_nat take_bit_nat_eq_self del: of_nat_add)
    qed
    then show "ids_unused 2000 ex_script (ex_at ex_free 0)" "ids_unused 2000 ex_script (ex_at ex_after 3)"
      by (simp_all add: ids_unused_def ex_at_def ex_free_def ex_after_def new_reservation_def del: of_nat_add)
  qed
  have at: "pool (ex_at d k) = d" "pos (ex_at d k) = k" for d k by (simp_all add: ex_at_def)
  show "contends 2000 ex_free ex_end ''north'' ex_needs ex_script (ex_at ex_free 0)
      (Matched \<lparr>bed_id = 1, shelter_id = 1, referral_id = 100\<rparr>)"
    unfolding contends_def using taking ex_script_ids unused(1) ex_first steps
    by (intro conjI exI [of _ "''cw''"] exI [of _ 50] exI [of _ 1] exI [of _ "[]"]
        exI [of _ "ex_at ex_after 3"]) (simp_all add: at)
  show "contends 2000 ex_free ex_end ''north'' ex_needs ex_script (ex_at ex_after 3) (Pending 103)"
    unfolding contends_def using taking ex_script_ids unused(2) ex_second steps
    by (intro conjI exI [of _ "''cw''"] exI [of _ 50] exI [of _ 1] exI [of _ "[]"]
        exI [of _ "ex_at ex_end 6"]) (simp_all add: at)
qed

lemma ex_free_offered: "\<forall>b\<in>set (beds ex_free). offers ex_free ''north'' ex_needs b"
  by (simp add: offers_def ex_free_def candidate_filter_def ex_needs_def ex_shelter_def ex_bed_def)

theorem more_referrals_than_beds_fill_every_bed_witness:
  "length (filter (\<lambda>v. v_status v = ''active'') (reservations ex_end)) = length (beds ex_free) \<and>
   card {j \<in> {0, 1::nat}. \<exists>a. [Matched \<lparr>bed_id = 1, shelter_id = 1, referral_id = 100\<rparr>, Pending 103] ! j =
     Matched a} = length (beds ex_free)"
proof -
  let ?st = "\<lambda>j. [ex_at ex_free 0, ex_at ex_after 3] ! j"
    and ?out = "\<lambda>j. [Matched \<lparr>bed_id = 1, shelter_id = 1, referral_id = 100\<rparr>, Pending 103] ! j"
  have inv: "terminal_inv ex_free" by (rule terminal.reachable_holds [OF ex_free_reachable])
  have few: "length (beds ex_free) \<le> 500" "length (beds ex_free) \<le> card {0, 1::nat}"
    by (simp_all add: ex_free_def)
  have inj: "inj_on (\<lambda>j. mv_uuid (ex_script (pos (?st j)))) {0, 1}" by (simp add: ex_at_def)
  have all: "\<forall>j\<in>{0, 1}. contends 2000 ex_free ex_end ''north'' ex_needs ex_script (?st j) (?out j)"
    using ex_contends by simp
  have only: "r_id ` set (referrals ex_end) \<subseteq> (\<lambda>j. mv_uuid (ex_script (pos (?st j)))) ` {0, 1}"
    by (simp add: ex_end_def ex_after_def ex_referral_def ex_at_def)
  from more_referrals_than_beds_fill_every_bed [where s = "\<lambda>_. ex_script", OF inv ex_free_offered few(1) _ inj few(2) all]
    only show ?thesis by blast
qed

end
