(* ===== verification/Processes.thy ===== *)
theory Processes
  imports Simulation
begin

section \<open>The processes (the main.rs files, matching-engine/src/lib.rs, common/src/db.rs)\<close>

text \<open>
  What each process does from its environment on: the configuration, the clients it creates, the
  address it serves on, and the modelled functions it hands over.  The libraries that connect,
  migrate, produce, parse an address, serve and schedule tasks are parameters; an error that ends
  a process is a text.  Logging is left out.
\<close>

subsection \<open>The matching engine\<close>

text \<open>
  \<open>run\<close> of kafka\_consumer.rs: subscribe, then receive.  The settings are those of the client;
  offsets are never committed automatically, and a group without an offset starts at the earliest
  message.
\<close>

definition consumer_settings :: "string \<Rightarrow> string \<Rightarrow> (string \<times> string) list" where
  "consumer_settings brokers group_id =
     [(''bootstrap.servers'', brokers), (''group.id'', group_id),
      (''enable.auto.commit'', ''false''), (''auto.offset.reset'', ''earliest'')]"

datatype consumer_end = Not_subscribed string | Task_panic string | Receiving consumer

definition consumer_run ::
  "((string \<times> string) list \<Rightarrow> nat \<Rightarrow> 'e + 'c) \<Rightarrow> (string list \<Rightarrow> nat \<Rightarrow> 'c \<Rightarrow> 'e + unit) \<Rightarrow>
     nat \<Rightarrow> (nat \<Rightarrow> nat) \<Rightarrow> ('e \<Rightarrow> string) \<Rightarrow> ('c \<Rightarrow> (unit + kafka_message) list) \<Rightarrow>
     externals \<Rightarrow> script \<Rightarrow> (nat \<Rightarrow> bool) \<Rightarrow>
     AppState \<Rightarrow> string \<Rightarrow> string \<Rightarrow> string \<Rightarrow> consumer_end option" where
  "consumer_run create subscribe start now show_kafka received_by X s commit_ok
     state brokers topic group_id =
     (case subscribe_with_retry (create (consumer_settings brokers group_id)) (subscribe [topic]) start now of
        None \<Rightarrow> None
      | Some (Inl err) \<Rightarrow> Some (Not_subscribed (show_kafka err))
      | Some (Inr client) \<Rightarrow>
         (case run_consumer X s commit_ok (received_by client) \<lparr>app = state, committed = []\<rparr> of
            None \<Rightarrow> None
          | Some (Inl panic) \<Rightarrow> Some (Task_panic panic)
          | Some (Inr c) \<Rightarrow> Some (Receiving c)))"

text \<open>\<open>run_migrations\<close> hands the directory to sqlx.\<close>

definition run_migrations :: "(string \<Rightarrow> 'pool \<Rightarrow> 'e + 'pool) \<Rightarrow> 'pool \<Rightarrow> 'e + 'pool" where
  "run_migrations migrate connection = migrate ''../../migrations'' connection"

text \<open>
  \<open>run\<close> of lib.rs.  The consumer task is spawned before the address is parsed, on the same state
  that the server gets; \<open>select\<close> tells which of the two ends first, and how.
\<close>

definition engine_run ::
  "environment \<Rightarrow> (string \<Rightarrow> nat \<Rightarrow> sqlx_error + db) \<Rightarrow> nat \<Rightarrow> (nat \<Rightarrow> nat) \<Rightarrow> (sqlx_error \<Rightarrow> string) \<Rightarrow>
     (string \<Rightarrow> db \<Rightarrow> string + db) \<Rightarrow> (AppState \<Rightarrow> string \<Rightarrow> string \<Rightarrow> string \<Rightarrow> 'task) \<Rightarrow>
     (string \<Rightarrow> string + 'addr) \<Rightarrow> (AppState \<Rightarrow> 'addr \<Rightarrow> 'server) \<Rightarrow> ('server \<Rightarrow> 'task \<Rightarrow> ended) \<Rightarrow>
     (string + unit) option" where
  "engine_run env connect start now show_err migrate consumer_task parse_addr server select =
     (let config = engine_config_from_env env
      in case connect_with_retry (connect (ec_database_url config)) start now of
           None \<Rightarrow> None
         | Some (Inl err) \<Rightarrow> Some (Inl (show_err err))
         | Some (Inr connection) \<Rightarrow>
            (case run_migrations migrate connection of
               Inl err \<Rightarrow> Some (Inl err)
             | Inr migrated \<Rightarrow>
                 let state = \<lparr>pool = migrated, availability_tx = [], pos = 0\<rparr>;
                     kafka_task = consumer_task state (ec_kafka_brokers config)
                       (ec_kafka_topic config) (ec_kafka_group_id config)
                 in case parse_addr (ec_grpc_addr config) of
                      Inl err \<Rightarrow> Some (Inl err)
                    | Inr addr \<Rightarrow> Some (select_result (select (server state addr) kafka_task))))"

subsection \<open>Intake and gateway\<close>

definition producer_settings :: "intake_config \<Rightarrow> (string \<times> string) list" where
  "producer_settings config =
     [(''bootstrap.servers'', ic_kafka_brokers config), (''message.timeout.ms'', ''5000'')]"

record 'p intake_service =
  service_producer :: 'p
  service_topic :: string

definition intake_main ::
  "environment \<Rightarrow> ((string \<times> string) list \<Rightarrow> string + 'p) \<Rightarrow> (string \<Rightarrow> string + 'addr) \<Rightarrow>
     ('p intake_service \<Rightarrow> 'addr \<Rightarrow> string + unit) \<Rightarrow> string + unit" where
  "intake_main env create parse_addr serve =
     (let config = intake_config_from_env env
      in case create (producer_settings config) of
           Inl err \<Rightarrow> Inl err
         | Inr new_producer \<Rightarrow>
             let service = \<lparr>service_producer = new_producer, service_topic = ic_kafka_topic config\<rparr>
             in case parse_addr (ic_grpc_addr config) of
                  Inl err \<Rightarrow> Inl err
                | Inr addr \<Rightarrow> serve service addr)"

definition gateway_main ::
  "environment \<Rightarrow> (string \<Rightarrow> string + 'endpoint) \<Rightarrow> ('endpoint \<Rightarrow> 'w matching_client) \<Rightarrow>
     (string \<Rightarrow> string + 'addr) \<Rightarrow> ('w matching_client \<Rightarrow> 'addr \<Rightarrow> string + unit) \<Rightarrow> string + unit" where
  "gateway_main env from_shared connect_lazy parse_addr serve =
     (let config = gateway_config_from_env env
      in case from_shared (gc_matching_engine_addr config) of
           Inl err \<Rightarrow> Inl err
         | Inr endpoint \<Rightarrow>
             let client = connect_lazy endpoint
             in case parse_addr (gc_grpc_addr config) of
                  Inl err \<Rightarrow> Inl err
                | Inr addr \<Rightarrow> serve client addr)"

subsection \<open>The simulator\<close>

text \<open>
  \<open>run\<close> of events.rs starts one terminal for each bed; the result has the events of each.
\<close>

definition events_run ::
  "externals \<Rightarrow> SeededBed list \<Rightarrow> (uuid \<Rightarrow> (uuid \<times> i64) list) \<Rightarrow> (string + BedStatusEvent list) list" where
  "events_run X seeded ticks = map (\<lambda>bed. terminal_run X bed (ticks (sb_id bed)) terminal_start) seeded"

text \<open>
  \<open>main\<close>: seed, create the clients, run the three tasks, report.  What the tasks do over the
  network meanwhile is the parameter \<open>tasks\<close>: it gets the two channels, the beds and the
  duration, and gives the samples the listener has recorded when it is aborted.
\<close>

datatype simulator_end = Simulator_error string | Simulator_panic string
  | Simulator_done "latency_summary option"

definition simulator_main ::
  "(string \<Rightarrow> 'n + usize) \<Rightarrow> (string \<Rightarrow> 'n + u64) \<Rightarrow> environment \<Rightarrow>
     (string \<Rightarrow> nat \<Rightarrow> sqlx_error + db) \<Rightarrow> nat \<Rightarrow> (nat \<Rightarrow> nat) \<Rightarrow> (sqlx_error \<Rightarrow> string) \<Rightarrow> (app_error \<Rightarrow> string) \<Rightarrow>
     script \<Rightarrow> (nat \<Rightarrow> nat \<Rightarrow> bed_draw) \<Rightarrow> (string \<Rightarrow> string + 'endpoint) \<Rightarrow>
     ('endpoint \<Rightarrow> 'endpoint \<Rightarrow> SeededBed list \<Rightarrow> u64 \<Rightarrow> i64 list) \<Rightarrow> simulator_end option" where
  "simulator_main parse_usize parse_u64 env connect start now show_err show_app s draw from_shared tasks =
     (let config = simulator_config_from_env parse_usize parse_u64 env
      in case connect_with_retry (connect (sc_database_url config)) start now of
           None \<Rightarrow> None
         | Some (Inl err) \<Rightarrow> Some (Simulator_error (show_err err))
         | Some (Inr connection) \<Rightarrow>
            (case seed s (sc_num_shelters config) (sc_beds_per_shelter config) draw
                  \<lparr>pool = connection, availability_tx = [], pos = 0\<rparr> of
               (Inl (Panicked panic), _) \<Rightarrow> Some (Simulator_panic panic)
             | (Inl (Failed err), _) \<Rightarrow> Some (Simulator_error (show_app err))
             | (Inr seeded, _) \<Rightarrow>
                (case from_shared (sc_intake_addr config) of
                   Inl err \<Rightarrow> Some (Simulator_error err)
                 | Inr intake_channel \<Rightarrow>
                    (case from_shared (sc_gateway_addr config) of
                       Inl err \<Rightarrow> Some (Simulator_error err)
                     | Inr gateway_channel \<Rightarrow>
                        (case print_summary
                                (tasks intake_channel gateway_channel seeded (sc_duration_secs config)) of
                           Inl panic \<Rightarrow> Some (Simulator_panic panic)
                         | Inr summary \<Rightarrow> Some (Simulator_done summary))))))"

subsection \<open>How the processes fit together\<close>

text \<open>
  The engine's startup ends within the budget of the connection loop, and the server and the
  consumer get one state, with the migrated database and an empty channel; otherwise the process
  ends with the first error.
\<close>

lemma engine_starts_or_ends:
  assumes "clock_ok start CONNECT_RETRY_INTERVAL now"
  shows "\<exists>r. engine_run env connect start now show_err migrate consumer_task parse_addr server select =
      Some r \<and>
    (isl r \<or> (\<exists>n\<in>{1..121}. \<exists>d d' addr. connect (ec_database_url (engine_config_from_env env)) n = Inr d \<and>
       migrate ''../../migrations'' d = Inr d' \<and>
       parse_addr (ec_grpc_addr (engine_config_from_env env)) = Inr addr \<and>
       r = select_result (select (server \<lparr>pool = d', availability_tx = [], pos = 0\<rparr> addr)
         (consumer_task \<lparr>pool = d', availability_tx = [], pos = 0\<rparr>
            (ec_kafka_brokers (engine_config_from_env env))
            (ec_kafka_topic (engine_config_from_env env))
            (ec_kafka_group_id (engine_config_from_env env))))))"
proof -
  obtain n where n: "n \<in> {1..121}"
    "connect_with_retry (connect (ec_database_url (engine_config_from_env env))) start now =
       Some (connect (ec_database_url (engine_config_from_env env)) n)"
    unfolding connect_with_retry_def budget_defs
    by (rule retry_within_budget [OF assms [unfolded budget_defs]])
  from n(1) show ?thesis
    unfolding engine_run_def Let_def n(2) run_migrations_def
    by (force split: sum.split)
qed

text \<open>
  Started in environments that agree on the variables they share, the terminals' events arrive
  where the engine reads: intake publishes to the topic and the brokers of the engine's consumer,
  and the simulator seeds the engine's database.  With no address configured each client dials
  the port its server listens on.
\<close>

lemma processes_agree:
  assumes "\<forall>key\<in>{''KAFKA_TOPIC'', ''KAFKA_BROKERS'', ''DATABASE_URL''}. env key = env' key"
  shows "ic_kafka_topic (intake_config_from_env env) = ec_kafka_topic (engine_config_from_env env')"
    and "ic_kafka_brokers (intake_config_from_env env) = ec_kafka_brokers (engine_config_from_env env')"
    and "sc_database_url (simulator_config_from_env p q env) = ec_database_url (engine_config_from_env env')"
  using assms by (simp_all add: intake_config_from_env_def engine_config_from_env_def
      simulator_config_from_env_def var_or_def)

lemma default_ports_agree:
  assumes "\<forall>key. env key = None"
  shows "ec_grpc_addr (engine_config_from_env env) = ''0.0.0.0:'' @ ''50051'' \<and>
      gc_matching_engine_addr (gateway_config_from_env env) = ''http://localhost:'' @ ''50051''"
    and "ic_grpc_addr (intake_config_from_env env) = ''0.0.0.0:'' @ ''50052'' \<and>
      sc_intake_addr (simulator_config_from_env p q env) = ''http://localhost:'' @ ''50052''"
    and "gc_grpc_addr (gateway_config_from_env env) = ''0.0.0.0:'' @ ''50053'' \<and>
      sc_gateway_addr (simulator_config_from_env p q env) = ''http://localhost:'' @ ''50053''"
  using assms by (simp_all add: intake_config_from_env_def engine_config_from_env_def
      gateway_config_from_env_def simulator_config_from_env_def var_or_def)

text \<open>What the intake process publishes has the topic that the consumer subscribes to.\<close>

lemma intake_reaches_the_consumer:
  assumes "env ''KAFKA_TOPIC'' = env' ''KAFKA_TOPIC''" and "producer_ok send"
    and "decode_event X (encode_event X event) = Some event"
    and "submit_bed_status X send (ic_kafka_topic (intake_config_from_env env)) (Some event) log = (x, log')"
  shows "\<exists>added. log' = log @ added \<and>
    (\<forall>r\<in>set added. rec_topic r = ec_kafka_topic (engine_config_from_env env'))"
proof -
  have "ic_kafka_topic (intake_config_from_env env) = ec_kafka_topic (engine_config_from_env env')"
    using assms(1) by (simp add: intake_config_from_env_def engine_config_from_env_def var_or_def)
  with submit_bed_status_log [OF _ assms(2,4)] assms(3) show ?thesis
    by (auto simp: intake_record_def)
qed

end
