(* ===== verification/Concurrency_Test.thy ===== *)
theory Concurrency_Test
  imports Contention_Properties Repository_Tests
begin

section \<open>The concurrency test (crates/matching-engine/tests/concurrency.rs)\<close>

text \<open>
  Fifty calls at once for ten beds.  The calls that the test spawns may interleave in every way
  that \<open>contends\<close> admits; the assertions are about their outcomes and the tables at the end.
\<close>

abbreviation "NUM_BEDS \<equiv> 10 :: nat"

abbreviation "NUM_REFERRALS \<equiv> 50 :: nat"

primrec insert_beds :: "nat \<Rightarrow> script \<Rightarrow> uuid \<Rightarrow> AppState \<Rightarrow> (failure + unit) \<times> AppState" where
  "insert_beds 0 s shelter st = (Inr (), st)"
| "insert_beds (Suc n) s shelter st =
     try_bind (insert_bed s shelter ''general'' False False False st) (\<lambda>_ st. insert_beds n s shelter st)"

definition concurrency_setup :: "script \<Rightarrow> AppState \<Rightarrow> (failure + unit) \<times> AppState" where
  "concurrency_setup s st =
     try_bind (reset s st) (\<lambda>_ st.
     try_bind (insert_shelter s ''test-region-concurrency'' st) (\<lambda>shelter st.
     insert_beds NUM_BEDS s shelter st))"

definition spawned_calls :: "db \<Rightarrow> (nat \<Rightarrow> SubmitOutcome) \<Rightarrow> db \<Rightarrow> bool" where
  "spawned_calls d out D \<longleftrightarrow> (\<exists>H s st. inj_on (\<lambda>j. mv_uuid (s j (pos (st j)))) {..<NUM_REFERRALS} \<and>
     r_id ` set (referrals D) \<subseteq> (\<lambda>j. mv_uuid (s j (pos (st j)))) ` {..<NUM_REFERRALS} \<and>
     (\<forall>j\<in>{..<NUM_REFERRALS}. contends H d D ''test-region-concurrency'' general_needs (s j) (st j) (out j)))"

definition concurrency_assertions :: "(nat \<Rightarrow> SubmitOutcome) \<Rightarrow> db \<Rightarrow> bool" where
  "concurrency_assertions out D \<longleftrightarrow>
     card {j. j < NUM_REFERRALS \<and> (\<exists>a. out j = Matched a)} = NUM_BEDS \<and>
     card {j. j < NUM_REFERRALS \<and> (\<exists>i. out j = Pending i)} = NUM_REFERRALS - NUM_BEDS \<and>
     length (filter (\<lambda>v. v_status v = ''active'') (reservations D)) = NUM_BEDS \<and>
     card (v_bed_id ` set (filter (\<lambda>v. v_status v = ''active'') (reservations D))) = NUM_BEDS \<and>
     length (filter (\<lambda>b. b_status b = ''reserved'') (beds D)) = NUM_BEDS \<and>
     length (filter (\<lambda>r. r_status r = ''matched'') (referrals D)) = NUM_BEDS \<and>
     length (filter (\<lambda>r. r_status r = ''pending'') (referrals D)) = NUM_REFERRALS - NUM_BEDS"

text \<open>The database that the setup leaves: reachable, with free beds that meet the request.\<close>

definition test_bed :: "uuid \<Rightarrow> uuid \<Rightarrow> bed_row" where
  "test_bed shelter i = \<lparr>b_id = i, b_shelter_id = shelter, b_unit_type = ''general'', b_allows_pets = False,
     b_sobriety_required = False, b_ada_accessible = False, b_status = ''available'',
     b_last_event_sequence = 0\<rparr>"

lemma insert_beds_runs:
  assumes s: "alone s"
  shows "sh \<in> s_id ` set (shelters (pool st)) \<Longrightarrow>
    inj_on (\<lambda>k. mv_uuid (s k)) {pos st..<pos st + n} \<Longrightarrow>
    (\<forall>b\<in>set (beds (pool st)). \<forall>k\<in>{pos st..<pos st + n}. b_id b \<noteq> mv_uuid (s k)) \<Longrightarrow>
    \<exists>st'. insert_beds n s sh st = (Inr (), st') \<and> (db_step terminal_statuses)\<^sup>*\<^sup>* (pool st) (pool st') \<and>
      shelters (pool st') = shelters (pool st) \<and>
      beds (pool st') = beds (pool st) @ map (\<lambda>k. test_bed sh (mv_uuid (s k))) [pos st..<pos st + n]"
proof (induction n arbitrary: st)
  case 0
  then show ?case by simp
next
  case (Suc n)
  let ?b = "test_bed sh (mv_uuid (s (pos st)))"
  let ?st = "st\<lparr>pool := (pool st)\<lparr>beds := beds (pool st) @ [?b]\<rparr>, pos := Suc (pos st)\<rparr>"
  have "mv_uuid (s (pos st)) \<notin> b_id ` set (beds (pool st))"
    using bspec [OF Suc.prems(3)] by (force dest: bspec [of _ _ "pos st"])
  then have row: "insert_bed_row ?b (pool st) = Inr ((pool st)\<lparr>beds := beds (pool st) @ [?b]\<rparr>)"
    using Suc.prems(1) by (simp add: insert_bed_row_def test_bed_def bed_check_def unit_type_check_def
        bed_status_check_def)
  have ins: "insert_bed s sh ''general'' False False False st = (Inr (mv_uuid (s (pos st))), ?st)"
    using row by (simp add: insert_bed_def exec_alone [OF s] Let_def test_bed_def)
  have step: "db_step terminal_statuses (pool st) (pool ?st)"
    using db_step.bed [OF row] by (simp add: test_bed_def)
  have "inj_on (\<lambda>k. mv_uuid (s k)) {pos ?st..<pos ?st + n}"
    using Suc.prems(2) by (rule inj_on_subset) auto
  moreover have "b_id b \<noteq> mv_uuid (s k)" if "b \<in> set (beds (pool ?st))" "k \<in> {pos ?st..<pos ?st + n}" for b k
  proof (cases "b = ?b")
    case True
    with that(2) inj_onD [OF Suc.prems(2), of "pos st" k] show ?thesis by (auto simp: test_bed_def)
  next
    case False
    with that Suc.prems(3) show ?thesis by auto
  qed
  ultimately obtain st' where st': "insert_beds n s sh ?st = (Inr (), st')"
    "(db_step terminal_statuses)\<^sup>*\<^sup>* (pool ?st) (pool st')" "shelters (pool st') = shelters (pool ?st)"
    "beds (pool st') = beds (pool ?st) @ map (\<lambda>k. test_bed sh (mv_uuid (s k))) [pos ?st..<pos ?st + n]"
    using Suc.IH [of ?st] Suc.prems(1) by auto
  have "[pos st..<pos st + Suc n] = pos st # [Suc (pos st)..<Suc (pos st) + n]" by (simp add: upt_rec)
  with st' ins converse_rtranclp_into_rtranclp [OF step st'(2)] show ?case by (intro exI [of _ st']) simp
qed

lemma concurrency_setup_runs:
  assumes s: "alone s" and ids: "test_ids s (pos st)"
  obtains st' where "concurrency_setup s st = (Inr (), st')" "terminal_inv (pool st')"
    "length (beds (pool st')) = NUM_BEDS"
    "\<forall>b\<in>set (beds (pool st')). offers (pool st') ''test-region-concurrency'' general_needs b"
proof -
  let ?p = "pos st" and ?rg = "''test-region-concurrency''"
  let ?sh = "mv_uuid (s (?p + 1))"
  let ?row = "\<lparr>s_id = ?sh, s_name = ''Test Shelter'', s_region = ?rg\<rparr>"
  let ?st = "come_to st (empty_db\<lparr>shelters := [?row]\<rparr>) (?p + 2)"
  have step: "db_step terminal_statuses empty_db (pool ?st)"
    by (rule db_step.shelter [of ?row]) (simp add: insert_shelter_row_def empty_db_def)
  have "inj_on (\<lambda>k. mv_uuid (s k)) {?p + 2..<?p + 2 + NUM_BEDS}"
  proof (rule inj_onI)
    fix j k assume jk: "j \<in> {?p + 2..<?p + 2 + NUM_BEDS}" "k \<in> {?p + 2..<?p + 2 + NUM_BEDS}"
      "mv_uuid (s j) = mv_uuid (s k)"
    then have "mv_uuid (s (?p + (j - ?p))) = mv_uuid (s (?p + (k - ?p)))" by simp
    with test_ids_eq [OF ids, of "j - ?p" "k - ?p"] jk(1,2) have "j - ?p = k - ?p" by auto
    with jk(1,2) show "j = k" by simp linarith
  qed
  from insert_beds_runs [OF s, of ?sh ?st NUM_BEDS] this obtain st' where
    st': "insert_beds NUM_BEDS s ?sh ?st = (Inr (), st')"
    "(db_step terminal_statuses)\<^sup>*\<^sup>* (pool ?st) (pool st')" "shelters (pool st') = [?row]"
    "beds (pool st') = map (\<lambda>k. test_bed ?sh (mv_uuid (s k))) [?p + 2..<?p + 2 + NUM_BEDS]"
    by (auto simp: empty_db_def)
  have "reachable terminal_statuses (pool st')"
    unfolding reachable_def by (rule converse_rtranclp_into_rtranclp [OF step st'(2)])
  then have "terminal_inv (pool st')" by (rule terminal.reachable_holds)
  moreover have "offers (pool st') ?rg general_needs b" if "b \<in> set (beds (pool st'))" for b
    using that unfolding offers_def candidate_filter_def
    by (auto simp: st'(3,4) test_bed_def general_needs_def)
  moreover have "length (beds (pool st')) = NUM_BEDS" by (simp add: st'(4))
  moreover have "concurrency_setup s st = (Inr (), st')"
    unfolding concurrency_setup_def by (simp only: test_setups [OF s] try_bind_simps st'(1))
  ultimately show thesis using that by blast
qed

text \<open>Then the assertions of the test hold, whatever the interleaving.\<close>

lemma settled_referral:
  assumes ok: "schema_ok d" and "settled d i region needs out"
    and r: "r \<in> set (referrals d)" "r_id r = i"
  shows "r_status r \<in> {''pending'', ''matched''}"
proof -
  obtain q where q: "q \<in> set (referrals d)" "r_id q = i" "r_status q \<in> {''pending'', ''matched''}"
    using assms(2) unfolding settled_def in_line_def by blast
  have "q = r" using distinct_key_eq [OF schema_ok_keys(3) [OF ok] q(1) r(1)] q(2) r(2) by simp
  with q(3) show ?thesis by simp
qed

lemma all_settled_counts:
  assumes inv: "booking_inv D" and J: "finite J" "inj_on ids J"
    and settled: "\<And>j. j \<in> J \<Longrightarrow> settled D (ids j) region needs (out j)"
    and only: "r_id ` set (referrals D) \<subseteq> ids ` J"
  shows "length (filter (\<lambda>r. r_status r = ''pending'') (referrals D)) =
    card J - length (filter (\<lambda>r. r_status r = ''matched'') (referrals D))"
proof -
  note ok = booking_inv_parts(1) [OF inv]
  have "ids j \<in> r_id ` set (referrals D)" if "j \<in> J" for j
    using settled [OF that] asks_id unfolding settled_def by blast
  with only have "r_id ` set (referrals D) = ids ` J" by blast
  then have "length (referrals D) = card J"
    using count_by_key [OF schema_ok_keys(3) [OF ok], of "\<lambda>_. True"] card_image [OF J(2)] by simp
  moreover have "filter (\<lambda>r. r_status r \<noteq> ''matched'') (referrals D) =
      filter (\<lambda>r. r_status r = ''pending'') (referrals D)"
  proof (rule filter_cong)
    fix r assume r: "r \<in> set (referrals D)"
    with only obtain j where "j \<in> J" "r_id r = ids j" by blast
    with settled_referral [OF ok settled r] show "r_status r \<noteq> ''matched'' \<longleftrightarrow> r_status r = ''pending''"
      by auto
  qed simp
  ultimately show ?thesis
    using sum_length_filter_compl [of "\<lambda>r. r_status r = ''matched''" "referrals D"] by simp
qed

lemma concurrency_test_passes:
  assumes s: "alone s" and ids: "test_ids s (pos st)"
  obtains st' where "concurrency_setup s st = (Inr (), st')"
    "\<And>out D. spawned_calls (pool st') out D \<Longrightarrow> concurrency_assertions out D"
proof -
  obtain st' where st': "concurrency_setup s st = (Inr (), st')" and inv: "terminal_inv (pool st')"
    and beds: "length (beds (pool st')) = NUM_BEDS"
    and free: "\<forall>b\<in>set (beds (pool st')). offers (pool st') ''test-region-concurrency'' general_needs b"
    by (rule concurrency_setup_runs [OF s ids])
  have "concurrency_assertions out D" if calls: "spawned_calls (pool st') out D" for out D
  proof -
    let ?J = "{..<NUM_REFERRALS}"
    obtain H t u where inj: "inj_on (\<lambda>j. mv_uuid (t j (pos (u j)))) ?J"
      and only: "r_id ` set (referrals D) \<subseteq> (\<lambda>j. mv_uuid (t j (pos (u j)))) ` ?J"
      and run: "\<forall>j\<in>?J. contends H (pool st') D ''test-region-concurrency'' general_needs (t j) (u j) (out j)"
      using calls unfolding spawned_calls_def by (elim exE conjE) (rule that)
    have few: "length (beds (pool st')) \<le> 500" "length (beds (pool st')) \<le> card ?J" "?J \<noteq> {}"
      by (simp_all add: beds lessThan_empty_iff)
    note result = contest_result [OF inv free few(1) _ inj few(2) run few(3)]
    note settles = contender_settles [OF terminal_inv_parts(1) [OF inv] few(1)]
    have steps: "taking_step\<^sup>*\<^sup>* (pool st') D" using settles(2) run few(3) by blast
    note inv' = taking_steps_terminal [OF steps inv]
    have settled: "settled D (mv_uuid (t j (pos (u j)))) ''test-region-concurrency'' general_needs (out j)"
      if "j \<in> ?J" for j using settles(1) run that by blast
    have "length (filter (\<lambda>r. r_status r = ''pending'') (referrals D)) =
        card ?J - length (filter (\<lambda>r. r_status r = ''matched'') (referrals D))"
      by (rule all_settled_counts [OF terminal_inv_parts(1) [OF inv'] _ inj settled only]) simp_all
    moreover have all: "\<forall>b\<in>set (beds D). b_status b = ''reserved''"
      and active: "length (filter (\<lambda>v. v_status v = ''active'') (reservations D)) = NUM_BEDS"
      using result beds by simp_all
    from all have "filter (\<lambda>b. b_status b = ''reserved'') (beds D) = beds D" by (simp add: filter_id_conv)
    moreover have "card (v_bed_id ` set (filter (\<lambda>v. v_status v = ''active'') (reservations D))) = NUM_BEDS"
      using active_beds [OF terminal_inv_parts(1) [OF inv']] active by simp
    ultimately show ?thesis
      using result beds only active by (simp add: concurrency_assertions_def lessThan_def)
  qed
  with st' show thesis by (rule that)
qed

end
