(* ===== verification/Spec2Isabelle.thy ===== *)
theory Spec2Isabelle
  imports Gaps Concurrency_Properties Group_Properties Streaming Concurrency_Test
begin

text \<open>
  \<^bold>\<open>A verification of the shelter-bed matching network.\<close>

  The program.  Terminals in shelters report bed-status events to \<open>intake-ingestion\<close>, which
  validates them and publishes them to the Kafka topic \<open>bed-events\<close>, keyed by shelter.
  \<open>matching-engine\<close> consumes the topic, applies each event to Postgres, and tries to allocate the
  bed; it also serves the gRPC calls that \<open>caseworker-gateway\<close> forwards: a referral is inserted,
  matching beds are tried for it, and the answer says whether it was matched or waits.  Every
  change is announced on a broadcast channel, which subscribers read as a stream.  The only shared
  mutable state is the database: several engine tasks, and other engine processes, run
  transactions on it concurrently.  \<open>simulator\<close> seeds beds and plays terminals and caseworkers.
  Source paths below are relative to \<open>src/crates\<close>, if not stated otherwise.

  \<^bold>\<open>Which theory models what.\<close>

  \<^item> \<open>Prelude\<close>: number types, \<open>try_bind\<close> (the operator \<open>?\<close> of Rust, over a state),
    queries over lists of rows, uniqueness of keys.
  \<^item> \<open>App_Error\<close>: \<open>common/src/error.rs\<close>.  \<open>Model\<close>: \<open>common/src/model.rs\<close> and the enumerations of
    \<open>src/proto/shelterbed.proto\<close>; the locale \<open>text_codec\<close> is interpreted for the three codecs.
  \<^item> \<open>Schema\<close>: \<open>src/migrations/0001_init.sql\<close>: the record \<open>db\<close> has a list of rows for each table,
    in the order in which a scan meets them; \<open>insert_bed_row\<close> and the other insertions enforce CHECK
    constraints, keys and both partial unique indexes.  \<open>order_key\<close> is the ORDER BY clause of the
    allocation, an instance of \<open>linorder\<close>.
  \<^item> \<open>Session\<close>: an access to the database from a session; \<open>AppState\<close> is
    \<open>matching-engine/src/state.rs\<close>.
  \<^item> \<open>Matcher\<close>: \<open>matching-engine/src/matcher.rs\<close>: \<open>allocate_tx\<close>, \<open>apply_tx\<close>, the queries, and
    \<open>submit_referral\<close> with its search loop.
  \<^item> \<open>Notify\<close>, \<open>Consumer\<close>, \<open>Matching_Grpc\<close>: \<open>notify.rs\<close>, \<open>kafka_consumer.rs\<close> and \<open>grpc.rs\<close> of the same
    crate.  \<open>Intake\<close>: \<open>intake-ingestion/src/grpc.rs\<close> and \<open>caseworker-gateway/src/grpc.rs\<close>.
  \<^item> \<open>Startup\<close>: the four \<open>config.rs\<close>, the connection loops of \<open>common/src/db.rs\<close> and
    \<open>kafka_consumer.rs\<close>.  \<open>Stats\<close>, \<open>Simulator\<close>: \<open>simulator/src\<close>.
  \<^item> \<open>Processes\<close>: \<open>run\<close> of \<open>matching-engine/src/lib.rs\<close> and of \<open>kafka_consumer.rs\<close>, and \<open>main\<close> of the
    other three processes: which client, topic, address and state each modelled function gets.
  \<^item> \<open>Statements\<close>: the two transactions of the matcher again, one SQL statement at a time, with
    the row versions each statement writes and the locks it takes (\<open>allocate_program\<close> and
    \<open>apply_program\<close>).  \<open>Interleaving\<close>: a server that runs any number of them, \<open>server_step\<close>.
  \<^item> \<open>Broker\<close>: the topic with its partitions, the offsets of the consumer group, and a consumer that
    may crash between any two awaits, \<open>broker_step\<close>.  \<open>Group\<close>: several such engines, which share
    topic, offsets and database, and between which the partitions move, \<open>group_step\<close>.
  \<^item> \<open>Repository_Tests\<close>, \<open>Concurrency_Test\<close>: the unit tests of \<open>common/src/model.rs\<close> and the
    integration tests \<open>matching-engine/tests\<close>, as programs over the model.

  \<^bold>\<open>What the lemmas show.\<close>

  \<^item> \<open>Allocation\<close>, \<open>Booking\<close>, \<open>Booking_Preserved\<close>, \<open>Event_Preserved\<close>, \<open>System\<close>: what each transaction
    decides, and the invariant \<open>booking_inv\<close> of every reachable database; \<open>db_step\<close> is a step of any
    session.  With terminal events only, the stronger \<open>terminal_inv\<close> holds.
  \<^item> \<open>Progress\<close>: an allocation with a fresh id never fails.  \<open>Submission\<close>, \<open>Quiescence\<close>: what a
    submission may rely on under interference, and what it does when it runs alone.
  \<^item> \<open>Delivery\<close>, \<open>Retry\<close>, \<open>Ingestion\<close>: redelivery is harmless, the retry loop ends when the faults end,
    and offsets are committed only for what is processed.  \<open>Publication\<close>: each allocation of a call
    is announced once, in the region of the request.
  \<^item> \<open>Refinement\<close>, \<open>Board\<close>: simulations as locales, and the contract of the matcher as a board of beds
    and a line of people, which the transactions refine.
  \<^item> \<open>Serialization\<close>, \<open>Concurrency\<close>: every execution of the statement-level server is an execution of
    atomic transactions; it has no deadlock; its replies are those of the atomic transactions.
  \<^item> \<open>Skipping\<close>: an allocation of a bed that nobody has locked waits for no other transaction.
  \<^item> \<open>Consumption\<close>: the receive loop of \<open>Consumer\<close> is a run of \<open>Broker\<close>.
  \<^item> \<open>Reports\<close>, \<open>Reporting\<close>, \<open>Survival\<close>: the reports of one bed, whose sequence numbers grow, on their
    way from the terminal through intake and the topic into the ledger and the bed's row: through a
    run of the receive loop with faults and redelivery, in \<open>Broker\<close> with crashes, and in \<open>Group\<close> with
    rebalancing: an engine may still handle a message of a partition that another has taken over.
  \<^item> \<open>Streaming\<close>: what a subscriber gets of what is sent, through the broadcast channel, the filter of
    \<open>stream_availability\<close> and the gateway.
  \<^item> \<open>Occupancy\<close>, \<open>Contention\<close>: the counts of bookings and beds; submissions that compete while no bed
    becomes free (\<open>matching-engine/tests/concurrency.rs\<close>).  Beds only get fewer then, so that at most
    500 of them are exhausted by the 500 rounds of the search.
  \<^item> \<open>Simulation\<close>: seeding and the reports of terminals and caseworkers.  \<open>Examples\<close>: a concrete
    database, script and topic, at which every theorem with hypotheses is applied.
  \<^item> \<open>Booking_Properties\<close>, \<open>Session_Properties\<close>, \<open>Service_Properties\<close>, \<open>Concurrency_Properties\<close>,
    \<open>Broker_Properties\<close>, \<open>Report_Properties\<close>, \<open>Group_Properties\<close>, \<open>Streaming\<close>,
    \<open>Contention_Properties\<close> and \<open>Repository_Tests\<close> state the properties; \<open>Gaps\<close> shows behaviour
    that falls short of what the documentation says.

  \<^bold>\<open>How state and effects are modelled.\<close>

  \<^item> Errors are values: \<open>Failed\<close> for the error type of the code, \<open>Panicked\<close> for a panic.  Arithmetic
    is that of a build with overflow checks and \<open>debug_assert\<close>, as Cargo builds by default; the
    assertion in \<open>allocate_for_bed\<close> is shown never to fail.  The counter of the retry loop panics at
    \<open>2 ^ 32\<close>, those of the simulator at \<open>2 ^ 63\<close> and \<open>2 ^ 64\<close>: short of that a release build behaves
    alike.  The attempts of a connection loop only number its warnings in the log.
  \<^item> A session is given a script, one move for each of its database accesses: what other sessions
    do to the database before it, what other tasks of the engine send on the broadcast channel
    meanwhile, which referral rows other sessions hold locked, whether the connection fails before
    the commit or after it, and the values of the random generator and the clocks.  The theorems
    quantify over scripts; a fair script changes the database only by transactions of the program
    (what it sends is arbitrary).
  \<^item> The script interleaves whole transactions.  The statement-level server justifies this: row locks
    (\<open>FOR UPDATE\<close>, \<open>SKIP LOCKED\<close>, those of written rows and of the unique indexes) and READ
    COMMITTED visibility, where a single statement is atomic.  A blocked statement waits; a
    transaction may be dropped at any moment.  What waits inside one statement for a row and then
    evaluates its condition again is modelled as evaluated once, when the lock is had.
  \<^item> \<open>db_step\<close> may also reorder the rows of a table, as nothing orders a scan without ORDER BY.
  \<^item> Code outside the repository is a parameter: the uuid crate, the generated protobuf code and the
    text of driver errors (record \<open>externals\<close>), the Kafka producer, the channel to the engine, the
    environment, parsers of numbers.  \<open>externals_ok\<close> and \<open>producer_ok\<close> state what their
    documentation promises, \<open>receives\<close> that of the broadcast channel with its capacity of 1024;
    properties that need it say so.

  \<^bold>\<open>Bounds and loops.\<close>  The search loop of a submission has 500 rounds, as in the code; each
  takes two transactions at most, which with the insertion and the last read gives the bound of
  1002.  The retry loop and the connection loops have no bound in the code and are partial: \<open>None\<close>
  is a loop that does not end, and termination is proved from faults that end or a clock that
  advances (121 attempts in a budget of 60 s with pauses of 500 ms).  Where identifiers are drawn at
  random, a horizon \<open>H\<close> says up to which move they are distinct and unused; \<open>N\<close> is the move after
  which there are no faults.  In \<open>Broker\<close>, fewer than \<open>2 ^ 128\<close> reservations leave a fresh one.

  \<^bold>\<open>Not modelled.\<close>  Logging; \<open>main\<close> of the engine, which only calls \<open>run\<close>; what the libraries do with
  what they are handed (the migration runner of sqlx, the transport and the task scheduler are
  parameters); the protocol by which the brokers assign partitions (\<open>Group\<close> lets them move to any
  engine at any offset committed so far); indexes that only serve speed, build scripts and
  deployment files.
\<close>

end
